(* ===== verification/Prelude.thy ===== *)
theory Prelude
  imports Main "HOL-Library.Word" "HOL-Library.FSet" "HOL-Library.Finite_Map"
begin

text \<open>
  The shared prelude of the development: the machine types of the Go sources, the result type
  in which every error return and every panic is a value, big-endian byte strings, and the
  generic lemmas on lists, finite maps and words the component theories rest on.

  Go's fixed-width unsigned integers are words (\<open>uint64\<close> is \<^typ>\<open>64 word\<close>, arithmetic
  wraps), \<open>*big.Int\<close> is \<^typ>\<open>int\<close> (an \<open>option\<close> where the source allows nil), \<open>[]byte\<close> is a
  list of \<^typ>\<open>8 word\<close>. The fixed byte arrays \<open>common.Address\<close> and \<open>common.Hash\<close> are the words
  \<^typ>\<open>160 word\<close> and \<^typ>\<open>256 word\<close>: comparing two such arrays with \<open>bytes.Compare\<close> is comparing
  the words as unsigned numbers. A Go map is a finite map, a \<open>map[K]struct{}\<close> a finite set.
\<close>

unbundle bit_operations_syntax

section \<open>Machine types\<close>

type_synonym u8 = "8 word"
type_synonym u64 = "64 word"
type_synonym bytes = "u8 list"
type_synonym address = "160 word"
type_synonym hash = "256 word"

section \<open>Results: values, errors, panics\<close>

text \<open>
  A Go function that returns \<open>(x, err)\<close> yields \<open>Ok x\<close> or \<open>Err e\<close>; a run-time panic (a slice or
  index out of range, a division by zero, an explicit \<open>panic\<close>) is \<open>Panic\<close>.
\<close>

datatype ('e, 'a) res = Ok 'a | Err 'e | Panic

fun bind_res :: "('e, 'a) res \<Rightarrow> ('a \<Rightarrow> ('e, 'b) res) \<Rightarrow> ('e, 'b) res" where
  "bind_res (Ok x) f = f x"
| "bind_res (Err e) f = Err e"
| "bind_res Panic f = Panic"

fun map_res :: "('a \<Rightarrow> 'b) \<Rightarrow> ('e, 'a) res \<Rightarrow> ('e, 'b) res" where
  "map_res f (Ok x) = Ok (f x)"
| "map_res f (Err e) = Err e"
| "map_res f Panic = Panic"

fun is_Ok :: "('e, 'a) res \<Rightarrow> bool" where
  "is_Ok (Ok _) = True"
| "is_Ok _ = False"

lemma bind_res_eq_Ok [simp]:
  "bind_res r f = Ok y \<longleftrightarrow> (\<exists>x. r = Ok x \<and> f x = Ok y)"
  by (cases r) auto

lemma bind_res_eq_Err:
  "bind_res r f = Err e \<longleftrightarrow> r = Err e \<or> (\<exists>x. r = Ok x \<and> f x = Err e)"
  by (cases r) auto

lemma bind_res_eq_Panic:
  "bind_res r f = Panic \<longleftrightarrow> r = Panic \<or> (\<exists>x. r = Ok x \<and> f x = Panic)"
  by (cases r) auto

lemma bind_res_assoc: "bind_res (bind_res r f) g = bind_res r (\<lambda>x. bind_res (f x) g)"
  by (cases r) auto

lemma bind_res_cong [fundef_cong]:
  "r = r' \<Longrightarrow> (\<And>x. r' = Ok x \<Longrightarrow> f x = f' x) \<Longrightarrow> bind_res r f = bind_res r' f'"
  by (cases r) auto

lemma map_res_eq_Ok [simp]: "map_res f r = Ok y \<longleftrightarrow> (\<exists>x. r = Ok x \<and> y = f x)"
  by (cases r) auto

lemma is_Ok_iff: "is_Ok r \<longleftrightarrow> (\<exists>x. r = Ok x)"
  by (cases r) auto

section \<open>Words\<close>

lemma unat_drop_bit: "unat (drop_bit n (w :: 'a::len word)) = unat w div 2 ^ n"
  by (metis drop_bit_eq_div unat_drop_bit_eq)

section \<open>Big-endian byte strings\<close>

text \<open>\<open>be_nat\<close> is \<open>big.Int.SetBytes\<close>, \<open>be_bytes\<close> the minimal big-endian form of a number (one
  byte for zero), \<open>be_fixed k\<close> its last \<open>k\<close> bytes, zero-padded on the left.\<close>

definition be_nat :: "bytes \<Rightarrow> nat" where
  "be_nat bs = foldl (\<lambda>n b. 256 * n + unat b) 0 bs"

fun be_bytes :: "nat \<Rightarrow> bytes" where
  "be_bytes n = (if n < 256 then [of_nat n] else be_bytes (n div 256) @ [of_nat n])"

declare be_bytes.simps [simp del]

primrec be_fixed :: "nat \<Rightarrow> nat \<Rightarrow> bytes" where
  "be_fixed 0 n = []"
| "be_fixed (Suc k) n = be_fixed k (n div 256) @ [of_nat n]"

lemma be_nat_Nil [simp]: "be_nat [] = 0"
  by (simp add: be_nat_def)

lemma be_nat_snoc [simp]: "be_nat (bs @ [b]) = 256 * be_nat bs + unat b"
  by (simp add: be_nat_def)

lemma be_nat_append: "be_nat (xs @ ys) = be_nat xs * 256 ^ length ys + be_nat ys"
proof (induction ys rule: rev_induct)
  case Nil
  show ?case by simp
next
  case (snoc y ys)
  have "be_nat (xs @ ys @ [y]) = 256 * be_nat (xs @ ys) + unat y"
    using be_nat_snoc [of "xs @ ys" y] by simp
  with snoc show ?case by (simp add: algebra_simps)
qed

lemma be_nat_single [simp]: "be_nat [b] = unat b"
  using be_nat_snoc [of "[]" b] by simp

lemma be_nat_Cons: "be_nat (b # bs) = unat b * 256 ^ length bs + be_nat bs"
  using be_nat_append [of "[b]" bs] by simp

lemma unat_u8_lt [simp]: "unat (b :: u8) < 256"
  using unsigned_less [of b, where 'a = nat] by simp

lemma unat_of_nat_u8: "unat (of_nat n :: u8) = n mod 256"
  by (simp add: unat_of_nat)

lemma of_nat_u8_low: "(of_nat (256 * n + unat b) :: u8) = b"
proof -
  have "unat (of_nat (256 * n + unat b) :: u8) = unat b"
    unfolding unat_of_nat_u8 by simp
  then show ?thesis by (simp only: word_unat_eq_iff)
qed

lemma be_nat_less: "be_nat bs < 256 ^ length bs"
proof (induction bs rule: rev_induct)
  case Nil
  show ?case by simp
next
  case (snoc b bs)
  have "256 * be_nat bs + unat b < 256 * be_nat bs + 256"
    using unat_u8_lt [of b] by simp
  also have "\<dots> = 256 * Suc (be_nat bs)" by simp
  also have "\<dots> \<le> 256 * 256 ^ length bs"
    using snoc by (intro mult_le_mono2) simp
  finally show ?case by simp
qed

lemma be_nat_be_bytes [simp]: "be_nat (be_bytes n) = n"
proof (induction n rule: be_bytes.induct)
  case (1 n)
  show ?case
  proof (cases "n < 256")
    case True
    then show ?thesis by (simp add: be_bytes.simps [of n] unat_of_nat_u8)
  next
    case False
    with 1 show ?thesis by (simp add: be_bytes.simps [of n] unat_of_nat_u8)
  qed
qed

lemma be_bytes_nonempty [simp]: "be_bytes n \<noteq> []"
  by (simp add: be_bytes.simps [of n])

lemma be_bytes_hd: "0 < n \<Longrightarrow> hd (be_bytes n) \<noteq> 0"
proof (induction n rule: be_bytes.induct)
  case (1 n)
  show ?case
  proof (cases "n < 256")
    case True
    with 1(2) have "(of_nat n :: u8) \<noteq> 0"
      by (metis mod_less unat_0 unat_of_nat_u8 less_irrefl)
    with True show ?thesis by (simp add: be_bytes.simps [of n])
  next
    case False
    with 1 show ?thesis by (simp add: be_bytes.simps [of n])
  qed
qed

lemma be_bytes_length_le: "0 < k \<Longrightarrow> n < 256 ^ k \<Longrightarrow> length (be_bytes n) \<le> k"
proof (induction k arbitrary: n)
  case 0
  then show ?case by simp
next
  case (Suc k)
  show ?case
  proof (cases "n < 256")
    case True
    then show ?thesis by (simp add: be_bytes.simps [of n])
  next
    case False
    with Suc.prems have "0 < k" by (cases k) auto
    moreover from Suc.prems have "n div 256 < 256 ^ k"
      by (simp add: less_mult_imp_div_less mult.commute)
    ultimately show ?thesis using Suc.IH False by (simp add: be_bytes.simps [of n])
  qed
qed

lemma be_bytes_length_ge: "256 ^ k \<le> n \<Longrightarrow> k < length (be_bytes n)"
proof (rule ccontr)
  assume "256 ^ k \<le> n" and "\<not> k < length (be_bytes n)"
  then have "length (be_bytes n) \<le> k" by simp
  then have "(256::nat) ^ length (be_bytes n) \<le> 256 ^ k" by simp
  with be_nat_less [of "be_bytes n"] \<open>256 ^ k \<le> n\<close> show False by simp
qed

text \<open>A byte string without a leading zero byte is the minimal form of its number.\<close>

lemma be_bytes_be_nat: "bs \<noteq> [] \<Longrightarrow> hd bs \<noteq> 0 \<Longrightarrow> be_bytes (be_nat bs) = bs"
proof (induction bs rule: rev_induct)
  case Nil
  then show ?case by simp
next
  case (snoc b bs)
  show ?case
  proof (cases "bs = []")
    case True
    then show ?thesis by (simp add: be_bytes.simps [of "unat b"])
  next
    case False
    with snoc have IH: "be_bytes (be_nat bs) = bs" by simp
    have "be_nat bs \<noteq> 0"
    proof
      assume "be_nat bs = 0"
      with IH have "bs = [0]" by (simp add: be_bytes.simps [of 0])
      with snoc.prems show False by simp
    qed
    then have "\<not> 256 * be_nat bs + unat b < 256" by simp
    moreover have "(256 * be_nat bs + unat b) div 256 = be_nat bs" by simp
    moreover note of_nat_u8_low [of "be_nat bs" b]
    ultimately show ?thesis using IH
      by (simp add: be_bytes.simps [of "256 * be_nat bs + unat b"] del: of_nat_add of_nat_mult)
  qed
qed

lemma length_be_fixed [simp]: "length (be_fixed k n) = k"
  by (induction k arbitrary: n) auto

lemma be_fixed_numeral [simp]:
  "be_fixed (numeral k) n = be_fixed (pred_numeral k) (n div 256) @ [of_nat n]"
  by (simp only: numeral_eq_Suc be_fixed.simps)

lemma be_nat_be_fixed: "be_nat (be_fixed k n) = n mod 256 ^ k"
proof (induction k arbitrary: n)
  case 0
  show ?case by simp
next
  case (Suc k)
  then show ?case
    by (simp add: unat_of_nat_u8 mod_mult2_eq [of n 256 "256 ^ k"])
qed

lemma be_fixed_be_nat: "be_fixed (length bs) (be_nat bs) = bs"
proof (induction bs rule: rev_induct)
  case Nil
  show ?case by simp
next
  case (snoc b bs)
  have "be_fixed (length (bs @ [b])) (be_nat (bs @ [b]))
      = be_fixed (length bs) (be_nat bs) @ [of_nat (256 * be_nat bs + unat b)]"
    by simp
  with snoc show ?case by (simp only: of_nat_u8_low)
qed

lemma be_nat_inject:
  assumes "length xs = length ys" "be_nat xs = be_nat ys"
  shows "xs = ys"
  using assms by (metis be_fixed_be_nat)

section \<open>Hashes and addresses as bytes\<close>

definition hash_bytes :: "hash \<Rightarrow> bytes" where
  "hash_bytes h = be_fixed 32 (unat h)"

definition addr_bytes :: "address \<Rightarrow> bytes" where
  "addr_bytes a = be_fixed 20 (unat a)"

text \<open>\<open>BytesToHash\<close> and \<open>BytesToAddress\<close>: a longer slice is cropped from the left.\<close>

definition BytesToHash :: "bytes \<Rightarrow> hash" where
  "BytesToHash b = of_nat (be_nat b)"

definition BytesToAddress :: "bytes \<Rightarrow> address" where
  "BytesToAddress b = of_nat (be_nat b)"

lemma length_hash_addr_bytes [simp]: "length (hash_bytes h) = 32" "length (addr_bytes a) = 20"
  by (simp_all only: hash_bytes_def addr_bytes_def length_be_fixed)

lemma be_nat_addr_bytes: "be_nat (addr_bytes a) = unat a"
proof -
  have "unat a < 256 ^ 20" using unsigned_less [of a, where 'a = nat] by simp
  then show ?thesis by (simp only: addr_bytes_def be_nat_be_fixed mod_less)
qed

lemma be_nat_hash_bytes: "be_nat (hash_bytes a) = unat a"
proof -
  have "unat a < 256 ^ 32" using unsigned_less [of a, where 'a = nat] by simp
  then show ?thesis by (simp only: hash_bytes_def be_nat_be_fixed mod_less)
qed

lemma BytesToAddress_addr_bytes [simp]: "BytesToAddress (addr_bytes a) = a"
  by (simp add: BytesToAddress_def be_nat_addr_bytes)

lemma BytesToHash_hash_bytes [simp]: "BytesToHash (hash_bytes a) = a"
  by (simp add: BytesToHash_def be_nat_hash_bytes)

section \<open>Slices\<close>

text \<open>\<open>xs[a:b]\<close>: out of range is a panic.\<close>

definition slice :: "'a list \<Rightarrow> nat \<Rightarrow> nat \<Rightarrow> ('e, 'a list) res" where
  "slice xs a b = (if a \<le> b \<and> b \<le> length xs then Ok (take (b - a) (drop a xs)) else Panic)"

lemma slice_Ok [simp]: "slice xs a b = Ok ys \<longleftrightarrow> a \<le> b \<and> b \<le> length xs \<and> ys = take (b - a) (drop a xs)"
  by (auto simp: slice_def)

end
