(* ===== verification/Rlp_Encode.thy ===== *)
theory Rlp_Encode
  imports Prelude
begin

text \<open>
  The RLP encoder, \<open>rlp/encode.go\<close>: the encoding buffer that collects string data and list
  headers separately and joins them at the end, and the reference encoding it implements.

  A Go value handed to the encoder is a \<open>gval\<close>: one constructor per writer that
  \<open>makeWriter\<close> can choose, so the reflective dispatch is the case split of \<open>gwrite\<close>. Struct
  tags (\<open>tail\<close>) and user-defined \<open>EncodeRLP\<close> methods are not part of the model; the caller lays
  the fields out. Sizes are natural numbers where the source uses \<open>int\<close>, and are cast to
  \<open>uint64\<close> where the source casts them.
\<close>

section \<open>Integers and headers\<close>

definition putint :: "u64 \<Rightarrow> bytes" where
  "putint i =
    (if i < 0x100 then [ucast i]
     else if i < 0x10000 then [ucast (drop_bit 8 i), ucast i]
     else if i < 0x1000000 then [ucast (drop_bit 16 i), ucast (drop_bit 8 i), ucast i]
     else if i < 0x100000000 then
       [ucast (drop_bit 24 i), ucast (drop_bit 16 i), ucast (drop_bit 8 i), ucast i]
     else if i < 0x10000000000 then
       [ucast (drop_bit 32 i), ucast (drop_bit 24 i), ucast (drop_bit 16 i),
        ucast (drop_bit 8 i), ucast i]
     else if i < 0x1000000000000 then
       [ucast (drop_bit 40 i), ucast (drop_bit 32 i), ucast (drop_bit 24 i),
        ucast (drop_bit 16 i), ucast (drop_bit 8 i), ucast i]
     else if i < 0x100000000000000 then
       [ucast (drop_bit 48 i), ucast (drop_bit 40 i), ucast (drop_bit 32 i),
        ucast (drop_bit 24 i), ucast (drop_bit 16 i), ucast (drop_bit 8 i), ucast i]
     else
       [ucast (drop_bit 56 i), ucast (drop_bit 48 i), ucast (drop_bit 40 i),
        ucast (drop_bit 32 i), ucast (drop_bit 24 i), ucast (drop_bit 16 i),
        ucast (drop_bit 8 i), ucast i])"

function intsize_loop :: "nat \<Rightarrow> u64 \<Rightarrow> nat" where
  "intsize_loop sz i =
    (let i' = drop_bit 8 i in if i' = 0 then sz else intsize_loop (sz + 1) i')"
  by pat_completeness auto
termination
proof (relation "measure (\<lambda>(sz, i). unat i)")
  fix sz :: nat and i i' :: u64
  assume "i' = drop_bit 8 i" and "i' \<noteq> 0"
  then have "unat i' = unat i div 256" and "unat i' \<noteq> 0"
    by (simp_all add: unat_drop_bit flip: unat_eq_zero)
  then show "((sz + 1, i'), sz, i) \<in> measure (\<lambda>(sz, i). unat i)" by simp
qed simp

declare intsize_loop.simps [simp del]

definition intsize :: "u64 \<Rightarrow> nat" where
  "intsize i = intsize_loop 1 i"

definition headsize :: "u64 \<Rightarrow> nat" where
  "headsize sz = (if sz < 56 then 1 else 1 + intsize sz)"

definition puthead :: "u8 \<Rightarrow> u8 \<Rightarrow> u64 \<Rightarrow> bytes" where
  "puthead smalltag largetag sz =
    (if sz < 56 then [smalltag + ucast sz]
     else (let s = putint sz in (largetag + of_nat (length s)) # s))"

definition ListSize :: "u64 \<Rightarrow> u64" where
  "ListSize contentSize = of_nat (headsize contentSize) + contentSize"

section \<open>The encoding buffer\<close>

record listhead =
  lh_offset :: nat
  lh_size :: nat

record encbuf =
  eb_str :: bytes
  eb_lheads :: "listhead list"
  eb_lhsize :: nat

definition eb_reset :: "encbuf \<Rightarrow> encbuf" where
  "eb_reset w = w\<lparr>eb_lhsize := 0, eb_str := [], eb_lheads := []\<rparr>"

definition eb_write :: "bytes \<Rightarrow> encbuf \<Rightarrow> encbuf" where
  "eb_write b w = w\<lparr>eb_str := eb_str w @ b\<rparr>"

definition encodeStringHeader :: "nat \<Rightarrow> encbuf \<Rightarrow> encbuf" where
  "encodeStringHeader sz w =
    (if sz < 56 then eb_write [0x80 + of_nat sz] w
     else (let s = putint (of_nat sz) in eb_write ((0xB7 + of_nat (length s)) # s) w))"

definition encodeString :: "bytes \<Rightarrow> encbuf \<Rightarrow> encbuf" where
  "encodeString b w =
    (if length b = 1 \<and> b ! 0 \<le> 0x7F then eb_write [b ! 0] w
     else eb_write b (encodeStringHeader (length b) w))"

definition encodeUint :: "u64 \<Rightarrow> encbuf \<Rightarrow> encbuf" where
  "encodeUint i w =
    (if i = 0 then eb_write [0x80] w
     else if i < 128 then eb_write [ucast i] w
     else (let s = putint i in eb_write ((0x80 + of_nat (length s)) # s) w))"

definition eb_size :: "encbuf \<Rightarrow> nat" where
  "eb_size w = length (eb_str w) + eb_lhsize w"

definition eb_list :: "encbuf \<Rightarrow> nat \<times> encbuf" where
  "eb_list w =
    (let w' = w\<lparr>eb_lheads := eb_lheads w @ [\<lparr>lh_offset = length (eb_str w), lh_size = eb_lhsize w\<rparr>]\<rparr>
     in (length (eb_lheads w') - 1, w'))"

definition eb_listEnd :: "nat \<Rightarrow> encbuf \<Rightarrow> encbuf" where
  "eb_listEnd index w =
    (let lh = eb_lheads w ! index;
         sz = eb_size w - lh_offset lh - lh_size lh;
         w' = w\<lparr>eb_lheads := (eb_lheads w)[index := lh\<lparr>lh_size := sz\<rparr>]\<rparr>
     in if sz < 56 then w'\<lparr>eb_lhsize := eb_lhsize w' + 1\<rparr>
        else w'\<lparr>eb_lhsize := eb_lhsize w' + 1 + intsize (of_nat sz)\<rparr>)"

definition listhead_encode :: "listhead \<Rightarrow> bytes" where
  "listhead_encode head = puthead 0xC0 0xF7 (of_nat (lh_size head))"

text \<open>
  \<open>toBytes\<close> fills a buffer of \<open>w.size()\<close> bytes: \<open>out\<close> is the part written so far, \<open>copy\<close> stops
  at the end of the buffer, a header written past the end panics, and bytes never written stay
  zero.
\<close>

datatype rlp_write_error = NegativeBigInt

primrec toBytes_loop :: "nat \<Rightarrow> bytes \<Rightarrow> listhead list \<Rightarrow> nat \<Rightarrow> bytes \<Rightarrow> (rlp_write_error, nat \<times> bytes) res" where
  "toBytes_loop tot str [] strpos out = Ok (strpos, out)"
| "toBytes_loop tot str (head # heads) strpos out =
    (if strpos > lh_offset head \<or> lh_offset head > length str then Panic
     else
       (let seg = take (tot - length out) (take (lh_offset head - strpos) (drop strpos str));
            out' = out @ seg;
            enc = listhead_encode head
        in if length out' + length enc > tot then Panic
           else toBytes_loop tot str heads (strpos + length seg) (out' @ enc)))"

definition toBytes :: "encbuf \<Rightarrow> (rlp_write_error, bytes) res" where
  "toBytes w =
    bind_res (toBytes_loop (eb_size w) (eb_str w) (eb_lheads w) 0 []) (\<lambda>(strpos, out).
      (let out' = out @ take (eb_size w - length out) (drop strpos (eb_str w))
       in Ok (out' @ replicate (eb_size w - length out') 0)))"

section \<open>Writers\<close>

datatype kind = Byte | String | List

datatype gval =
    GRaw bytes \<comment> \<open>\<open>RawValue\<close>\<close>
  | GBig "int option" \<comment> \<open>\<open>*big.Int\<close>, nil allowed\<close>
  | GUint u64
  | GBool bool
  | GString bytes
  | GBytes bytes \<comment> \<open>\<open>[]byte\<close>\<close>
  | GByteArray bytes \<comment> \<open>\<open>[n]byte\<close>\<close>
  | GNilIface
  | GNilPtr kind
  | GSlice "gval list"
  | GStruct "gval list"

fun bitlen :: "nat \<Rightarrow> nat" where
  "bitlen n = (if n = 0 then 0 else Suc (bitlen (n div 2)))"

declare bitlen.simps [simp del]

fun big_Bits :: "nat \<Rightarrow> u64 list" where
  "big_Bits n = (if n = 0 then [] else of_nat n # big_Bits (n div 2 ^ 64))"

declare big_Bits.simps [simp del]

text \<open>The two nested loops of \<open>writeBigInt\<close> that store the words of the integer from the end of
  the buffer backwards: \<open>put_word\<close> is the inner loop (\<open>j\<close> counts down from \<open>wordBytes\<close>).\<close>

fun put_word :: "nat \<Rightarrow> u64 \<Rightarrow> nat \<Rightarrow> bytes \<Rightarrow> nat \<times> bytes" where
  "put_word 0 d index buf = (index, buf)"
| "put_word (Suc j) d index buf =
    (if index > 0 then put_word j (drop_bit 8 d) (index - 1) (buf[index - 1 := ucast d])
     else (index, buf))"

fun put_words :: "u64 list \<Rightarrow> nat \<Rightarrow> bytes \<Rightarrow> bytes" where
  "put_words [] index buf = buf"
| "put_words (d # ds) index buf =
    (let (index', buf') = put_word 8 d index buf in put_words ds index' buf')"

definition writeBigInt :: "int \<Rightarrow> encbuf \<Rightarrow> (rlp_write_error, encbuf) res" where
  "writeBigInt i w =
    (if i < 0 then Err NegativeBigInt
     else
       (let n = nat i; bl = bitlen n
        in if bl \<le> 64 then Ok (encodeUint (of_nat n) w)
           else
             (let len = (bl + 7) div 8;
                  w' = encodeStringHeader len w
              in Ok (eb_write (put_words (big_Bits n) len (replicate len 0)) w'))))"

definition writeByteArray :: "bytes \<Rightarrow> encbuf \<Rightarrow> encbuf" where
  "writeByteArray b w =
    (if length b = 0 then eb_write [0x80] w
     else if length b = 1 then
       (if b ! 0 \<le> 0x7f then eb_write [b ! 0] w else eb_write [0x81, b ! 0] w)
     else eb_write b (encodeStringHeader (length b) w))"

fun gwrite :: "gval \<Rightarrow> encbuf \<Rightarrow> (rlp_write_error, encbuf) res"
and gwrite_all :: "gval list \<Rightarrow> encbuf \<Rightarrow> (rlp_write_error, encbuf) res" where
  "gwrite (GRaw b) w = Ok (eb_write b w)"
| "gwrite (GBig None) w = Ok (eb_write [0x80] w)"
| "gwrite (GBig (Some i)) w = writeBigInt i w"
| "gwrite (GUint i) w = Ok (encodeUint i w)"
| "gwrite (GBool b) w = Ok (eb_write [if b then 0x01 else 0x80] w)"
| "gwrite (GString b) w = Ok (encodeString b w)"
| "gwrite (GBytes b) w = Ok (encodeString b w)"
| "gwrite (GByteArray b) w = Ok (writeByteArray b w)"
| "gwrite GNilIface w = Ok (eb_write [0xC0] w)"
| "gwrite (GNilPtr k) w =
    (if k = String then Ok (eb_write [0x80] w)
     else (let (lh, w') = eb_list w in Ok (eb_listEnd lh w')))"
| "gwrite (GSlice vs) w =
    (let (lh, w') = eb_list w in map_res (eb_listEnd lh) (gwrite_all vs w'))"
| "gwrite (GStruct vs) w =
    (let (lh, w') = eb_list w in map_res (eb_listEnd lh) (gwrite_all vs w'))"
| "gwrite_all [] w = Ok w"
| "gwrite_all (v # vs) w = bind_res (gwrite v w) (gwrite_all vs)"

text \<open>\<open>eb\<close> is the buffer taken from the pool, left in any state by its last user.\<close>

definition EncodeToBytes :: "encbuf \<Rightarrow> gval \<Rightarrow> (rlp_write_error, bytes) res" where
  "EncodeToBytes eb v = bind_res (gwrite v (eb_reset eb)) toBytes"

section \<open>The reference encoding\<close>

text \<open>
  An RLP item is a byte string or a list of items. \<open>rlp\<close> is the encoding of the package
  documentation: a single byte below \<open>0x80\<close> stands for itself, anything else has a header with
  its length, in the header byte itself when it is below 56 and as a minimal big-endian number
  after it otherwise.
\<close>

datatype item = Str bytes | Lst "item list"

definition rlp_head :: "u8 \<Rightarrow> u8 \<Rightarrow> nat \<Rightarrow> bytes" where
  "rlp_head smalltag largetag n =
    (if n < 56 then [smalltag + of_nat n]
     else (largetag + of_nat (length (be_bytes n))) # be_bytes n)"

fun rlp :: "item \<Rightarrow> bytes" and rlp_all :: "item list \<Rightarrow> bytes" where
  "rlp (Str b) = (if length b = 1 \<and> b ! 0 < 0x80 then b else rlp_head 0x80 0xB7 (length b) @ b)"
| "rlp (Lst xs) = rlp_head 0xC0 0xF7 (length (rlp_all xs)) @ rlp_all xs"
| "rlp_all [] = []"
| "rlp_all (x # xs) = rlp x @ rlp_all xs"

text \<open>\<open>big.Int.Bytes\<close>: no byte at all for zero.\<close>

definition int_bytes :: "nat \<Rightarrow> bytes" where
  "int_bytes n = (if n = 0 then [] else be_bytes n)"

text \<open>The reference encoding of a Go value.\<close>

fun genc :: "gval \<Rightarrow> bytes" and genc_all :: "gval list \<Rightarrow> bytes" where
  "genc (GRaw b) = b"
| "genc (GBig None) = rlp (Str [])"
| "genc (GBig (Some i)) = rlp (Str (int_bytes (nat i)))"
| "genc (GUint i) = rlp (Str (int_bytes (unat i)))"
| "genc (GBool b) = rlp (Str (if b then [1] else []))"
| "genc (GString b) = rlp (Str b)"
| "genc (GBytes b) = rlp (Str b)"
| "genc (GByteArray b) = rlp (Str b)"
| "genc GNilIface = rlp (Lst [])"
| "genc (GNilPtr k) = rlp (if k = String then Str [] else Lst [])"
| "genc (GSlice vs) = rlp_head 0xC0 0xF7 (length (genc_all vs)) @ genc_all vs"
| "genc (GStruct vs) = rlp_head 0xC0 0xF7 (length (genc_all vs)) @ genc_all vs"
| "genc_all [] = []"
| "genc_all (v # vs) = genc v @ genc_all vs"

fun has_negative :: "gval \<Rightarrow> bool" where
  "has_negative (GBig (Some i)) = (i < 0)"
| "has_negative (GSlice vs) = (\<exists>v \<in> set vs. has_negative v)"
| "has_negative (GStruct vs) = (\<exists>v \<in> set vs. has_negative v)"
| "has_negative _ = False"

section \<open>Integers and headers, lemmas\<close>

lemma be_bytes_fixed: "(k = 0 \<or> 256 ^ k \<le> n) \<Longrightarrow> n < 256 ^ Suc k \<Longrightarrow> be_bytes n = be_fixed (Suc k) n"
proof (induction k arbitrary: n)
  case 0
  then show ?case by (simp add: be_bytes.simps [of n])
next
  case (Suc k)
  then have ge: "256 ^ Suc k \<le> n" by simp
  moreover have "(256::nat) \<le> 256 ^ Suc k" by simp
  ultimately have "\<not> n < 256" by linarith
  moreover from ge have "256 ^ k \<le> n div 256"
    by (simp add: less_eq_div_iff_mult_less_eq mult.commute)
  moreover from Suc.prems have "n div 256 < 256 ^ Suc k"
    by (simp add: less_mult_imp_div_less mult.commute)
  ultimately show ?case using Suc.IH [of "n div 256"] by (simp add: be_bytes.simps [of n])
qed

lemma ucast_drop_bit_u8: "(ucast (drop_bit k (i :: u64)) :: u8) = of_nat (unat i div 2 ^ k)"
  by (metis of_nat_unat unat_drop_bit)

lemma ucast_u8: "(ucast (i :: u64) :: u8) = of_nat (unat i)"
  by simp

lemma putint_be_bytes: "putint i = be_bytes (unat i)"
proof -
  define n where "n = unat i"
  have lt: "i < k \<longleftrightarrow> n < unat k" for k by (simp add: n_def word_less_nat_alt)
  have top: "n < 256 ^ 8" using unsigned_less [of i, where 'a = nat] by (simp add: n_def)
  note put = putint_def [of i, unfolded lt ucast_drop_bit_u8, unfolded ucast_u8 [of i], folded n_def]
  consider "n < 256" | "256 \<le> n" "n < 256 ^ 2" | "256 ^ 2 \<le> n" "n < 256 ^ 3"
    | "256 ^ 3 \<le> n" "n < 256 ^ 4" | "256 ^ 4 \<le> n" "n < 256 ^ 5" | "256 ^ 5 \<le> n" "n < 256 ^ 6"
    | "256 ^ 6 \<le> n" "n < 256 ^ 7" | "256 ^ 7 \<le> n" using top by linarith
  then have "putint i = be_bytes n"
  proof cases
    case 1
    then show ?thesis by (simp add: put be_bytes.simps [of n])
  next
    case 2
    then show ?thesis using be_bytes_fixed [of 1 n] by (simp add: put div_mult2_eq [symmetric])
  next
    case 3
    then show ?thesis using be_bytes_fixed [of 2 n] by (simp add: put div_mult2_eq [symmetric])
  next
    case 4
    then show ?thesis using be_bytes_fixed [of 3 n] by (simp add: put div_mult2_eq [symmetric])
  next
    case 5
    then show ?thesis using be_bytes_fixed [of 4 n] by (simp add: put div_mult2_eq [symmetric])
  next
    case 6
    then show ?thesis using be_bytes_fixed [of 5 n] by (simp add: put div_mult2_eq [symmetric])
  next
    case 7
    then show ?thesis using be_bytes_fixed [of 6 n] by (simp add: put div_mult2_eq [symmetric])
  next
    case 8
    then show ?thesis using be_bytes_fixed [of 7 n] top by (simp add: put div_mult2_eq [symmetric])
  qed
  then show ?thesis by (simp only: n_def)
qed

lemma intsize_loop_be_bytes: "intsize_loop sz i + 1 = sz + length (be_bytes (unat i))"
proof (induction sz i rule: intsize_loop.induct)
  case (1 sz i)
  have eq: "unat (drop_bit 8 i) = unat i div 256" by (simp add: unat_drop_bit)
  show ?case
  proof (cases "drop_bit 8 i = 0")
    case True
    then have "unat i div 256 = 0" using eq by simp
    then have "unat i < 256" by simp
    with True show ?thesis by (simp add: intsize_loop.simps [of sz i] be_bytes.simps [of "unat i"])
  next
    case False
    then have "unat i div 256 \<noteq> 0" using eq by (metis unat_eq_zero)
    then have "\<not> unat i < 256" by simp
    moreover have "intsize_loop (sz + 1) (drop_bit 8 i) + 1
        = sz + 1 + length (be_bytes (unat i div 256))"
      using 1 False eq by simp
    ultimately show ?thesis
      using False by (simp add: intsize_loop.simps [of sz i] be_bytes.simps [of "unat i"])
  qed
qed

lemma intsize_be_bytes: "intsize i = length (be_bytes (unat i))"
  using intsize_loop_be_bytes [of 1 i] by (simp add: intsize_def)

lemma unat_of_nat_u64: "n < 2 ^ 64 \<Longrightarrow> unat (of_nat n :: u64) = n"
  by (simp add: unat_of_nat)

lemma of_nat_less_56: "n < 2 ^ 64 \<Longrightarrow> (of_nat n :: u64) < 56 \<longleftrightarrow> n < 56"
  by (simp add: word_less_nat_alt unat_of_nat_u64)

lemma ucast_of_nat_u8: "n < 2 ^ 64 \<Longrightarrow> (ucast (of_nat n :: u64) :: u8) = of_nat n"
  by (metis of_nat_unat unat_of_nat_u64)

lemma puthead_rlp_head: "n < 2 ^ 64 \<Longrightarrow> puthead a b (of_nat n) = rlp_head a b n"
  by (simp add: puthead_def rlp_head_def of_nat_less_56 ucast_of_nat_u8 putint_be_bytes
      unat_of_nat_u64 Let_def)

lemma headsize_rlp_head: "n < 2 ^ 64 \<Longrightarrow> headsize (of_nat n) = length (rlp_head a b n)"
  by (simp add: headsize_def rlp_head_def of_nat_less_56 intsize_be_bytes unat_of_nat_u64)

lemma length_puthead: "length (puthead a b s) = headsize s"
  by (simp add: puthead_def headsize_def intsize_be_bytes putint_be_bytes Let_def)

section \<open>Large integers\<close>

lemma be_nat_replicate_0: "be_nat (replicate k 0) = 0"
  by (induction k) (simp_all add: be_nat_Cons)

lemma put_word_shape:
  "index \<le> length buf \<Longrightarrow> put_word j d index buf = (index - min j index,
     take (index - min j index) buf @ be_fixed (min j index) (unat d) @ drop index buf)"
proof (induction j arbitrary: d index buf)
  case 0
  then show ?case by simp
next
  case (Suc j)
  show ?case
  proof (cases index)
    case 0
    then show ?thesis by simp
  next
    case [simp]: (Suc ix)
    let ?buf = "buf[ix := ucast d]"
    let ?m = "min j ix"
    from Suc.prems have len: "ix < length buf" by simp
    have "put_word (Suc j) d index buf = put_word j (drop_bit 8 d) ix ?buf" by simp
    also have "\<dots> = (ix - ?m, take (ix - ?m) ?buf @ be_fixed ?m (unat d div 256) @ drop ix ?buf)"
      using Suc.IH [of ix ?buf "drop_bit 8 d"] len by (simp add: unat_drop_bit)
    also have "take (ix - ?m) ?buf = take (ix - ?m) buf" by simp
    also have "drop ix ?buf = of_nat (unat d) # drop (Suc ix) buf"
      using len by (simp add: upd_conv_take_nth_drop)
    also have "be_fixed ?m (unat d div 256) @ of_nat (unat d) # drop (Suc ix) buf
        = be_fixed (min (Suc j) index) (unat d) @ drop index buf"
      by (simp del: of_nat_unat)
    finally show ?thesis by simp
  qed
qed

lemma be_fixed_append:
  "be_fixed (a + b) n = be_fixed a (n div 256 ^ b) @ be_fixed b n"
proof (induction b arbitrary: n)
  case 0
  show ?case by simp
next
  case (Suc b)
  have "be_fixed (a + b) (n div 256) = be_fixed a (n div 256 div 256 ^ b) @ be_fixed b (n div 256)"
    by (rule Suc.IH)
  moreover have "n div 256 div 256 ^ b = n div 256 ^ Suc b"
    by (simp add: div_mult2_eq)
  ultimately show ?case by simp
qed

lemma be_fixed_cong: "m mod 256 ^ k = n mod 256 ^ k \<Longrightarrow> be_fixed k m = be_fixed k n"
  by (metis be_nat_be_fixed be_nat_inject length_be_fixed)

lemma be_fixed_0_n: "be_fixed k 0 = replicate k 0"
  by (induction k) (simp_all flip: replicate_append_same)

lemma put_words_shape:
  "index \<le> length buf \<Longrightarrow> n < 256 ^ index \<Longrightarrow> take index buf = replicate index 0 \<Longrightarrow>
    put_words (big_Bits n) index buf = be_fixed index n @ drop index buf"
proof (induction n arbitrary: index buf rule: big_Bits.induct)
  case (1 n)
  show ?case
  proof (cases "n = 0")
    case True
    then have "put_words (big_Bits n) index buf = buf" by (simp add: big_Bits.simps [of 0])
    also have "\<dots> = take index buf @ drop index buf" by simp
    finally show ?thesis using 1(4) True by (simp only: be_fixed_0_n)
  next
    case False
    define m where "m = min 8 index"
    let ?buf = "take (index - m) buf @ be_fixed m n @ drop index buf"
    have m: "m \<le> index" "m \<le> 8" by (auto simp: m_def)
    have low: "be_fixed m (unat (of_nat n :: u64)) = be_fixed m n"
    proof (rule be_fixed_cong)
      have "(256::nat) ^ m dvd 256 ^ 8" using m by (intro le_imp_power_dvd)
      then have "(256::nat) ^ m dvd 2 ^ 64" by simp
      then show "unat (of_nat n :: u64) mod 256 ^ m = n mod 256 ^ m"
        by (simp add: unat_of_nat mod_mod_cancel)
    qed
    have step: "put_words (big_Bits n) index buf
        = put_words (big_Bits (n div 2 ^ 64)) (index - m) ?buf"
      using False 1(2) low
      by (simp add: big_Bits.simps [of n] put_word_shape m_def min.commute del: unat_of_nat)
    have len: "index - m \<le> length ?buf" using 1(2) m by simp
    have small: "n div 2 ^ 64 < 256 ^ (index - m)"
    proof (cases "index \<le> 8")
      case True
      then have "n < 256 ^ 8" using 1(3) order_less_le_trans power_increasing [of index 8 "256::nat"]
        by fastforce
      then show ?thesis by simp
    next
      case False
      then have "256 ^ index = (256::nat) ^ (index - m) * 2 ^ 64"
        using power_add [of "256::nat" "index - 8" 8] by (simp add: m_def)
      with 1(3) show ?thesis by (simp add: less_mult_imp_div_less)
    qed
    have zero: "take (index - m) ?buf = replicate (index - m) 0"
    proof -
      have "take (index - m) (take index buf) = take (index - m) (replicate index 0)"
        using 1(4) by simp
      then show ?thesis using 1(2) m by simp
    qed
    have "put_words (big_Bits (n div 2 ^ 64)) (index - m) ?buf
        = be_fixed (index - m) (n div 2 ^ 64) @ drop (index - m) ?buf"
      using 1(1) False len small zero by blast
    moreover have "drop (index - m) ?buf = be_fixed m n @ drop index buf"
      using 1(2) m by simp
    moreover have "be_fixed (index - m) (n div 2 ^ 64) @ be_fixed m n = be_fixed index n"
    proof (cases "index \<le> 8")
      case True
      then show ?thesis by (simp add: m_def)
    next
      case False
      then show ?thesis using be_fixed_append [of "index - 8" 8 n] by (simp add: m_def del: be_fixed_numeral)
    qed
    ultimately show ?thesis using step by (metis append_assoc)
  qed
qed

lemma bitlen_bounds: "0 < n \<Longrightarrow> 2 ^ (bitlen n - 1) \<le> n \<and> n < 2 ^ bitlen n"
proof (induction n rule: bitlen.induct)
  case (1 n)
  show ?case
  proof (cases "n = 1")
    case True
    moreover have "bitlen 1 = 1" by (simp add: bitlen.simps [of 1, unfolded One_nat_def] bitlen.simps [of 0])
    ultimately show ?thesis by simp
  next
    case False
    with 1 have IH: "2 ^ (bitlen (n div 2) - 1) \<le> n div 2" "n div 2 < 2 ^ bitlen (n div 2)" by auto
    from False 1(2) have "0 < bitlen (n div 2)" by (simp add: bitlen.simps [of "n div 2"])
    then obtain b where b: "bitlen (n div 2) = Suc b" by (cases "bitlen (n div 2)") auto
    with IH have "2 ^ b \<le> n div 2" "n div 2 < 2 * 2 ^ b" by simp_all
    then have "2 * 2 ^ b \<le> n" "n < 4 * 2 ^ b" by arith+
    with b 1(2) show ?thesis by (simp add: bitlen.simps [of n])
  qed
qed

lemma bitlen_le_64: "bitlen n \<le> 64 \<longleftrightarrow> n < 2 ^ 64"
proof
  assume "bitlen n \<le> 64"
  show "n < 2 ^ 64"
  proof (cases "n = 0")
    case False
    then have "n < 2 ^ bitlen n" using bitlen_bounds by simp
    also have "(2::nat) ^ bitlen n \<le> 2 ^ 64" using \<open>bitlen n \<le> 64\<close> by (intro power_increasing) auto
    finally show ?thesis .
  qed simp
next
  assume lt: "n < 2 ^ 64"
  show "bitlen n \<le> 64"
  proof (rule ccontr)
    assume "\<not> bitlen n \<le> 64"
    then have "n > 0" by (cases "n = 0") (simp_all add: bitlen.simps [of 0])
    then have "2 ^ (bitlen n - 1) \<le> n" using bitlen_bounds by simp
    moreover have "(2::nat) ^ 64 \<le> 2 ^ (bitlen n - 1)"
      using \<open>\<not> bitlen n \<le> 64\<close> by (intro power_increasing) auto
    ultimately show False using lt by simp
  qed
qed

lemma be_bytes_bitlen:
  assumes "0 < n"
  shows "be_bytes n = be_fixed ((bitlen n + 7) div 8) n"
proof -
  define k where "k = (bitlen n + 7) div 8 - 1"
  have b: "0 < bitlen n" using assms by (simp add: bitlen.simps [of n])
  then have k: "(bitlen n + 7) div 8 = Suc k" "8 * k \<le> bitlen n - 1" "bitlen n \<le> 8 * Suc k"
    by (auto simp: k_def)
  have "(256::nat) ^ k = 2 ^ (8 * k)" by (simp add: power_mult)
  also have "\<dots> \<le> 2 ^ (bitlen n - 1)" using k by (intro power_increasing) auto
  also have "\<dots> \<le> n" using bitlen_bounds [OF assms] by simp
  finally have "256 ^ k \<le> n" .
  moreover have "n < 256 ^ Suc k"
  proof -
    have "n < 2 ^ bitlen n" using bitlen_bounds [OF assms] by simp
    also have "\<dots> \<le> 2 ^ (8 * Suc k)" using k by (intro power_increasing) auto
    also have "\<dots> = 256 ^ Suc k" by (subst power_mult) simp
    finally show ?thesis .
  qed
  ultimately show ?thesis using be_bytes_fixed [of k n] k by simp
qed

section \<open>The buffer implements the reference encoding\<close>

text \<open>What \<open>gwrite\<close> adds to a buffer: string data (\<open>gstr\<close>), list headers at their offsets
  with their final sizes (\<open>gheads\<close>), and the bytes those headers will take (\<open>ghs\<close>).\<close>

fun gstr :: "gval \<Rightarrow> bytes" where
  "gstr (GSlice vs) = concat (map gstr vs)"
| "gstr (GStruct vs) = concat (map gstr vs)"
| "gstr (GNilPtr k) = (if k = String then [0x80] else [])"
| "gstr v = genc v"

fun gheads :: "nat \<Rightarrow> gval \<Rightarrow> listhead list"
and gheads_all :: "nat \<Rightarrow> gval list \<Rightarrow> listhead list" where
  "gheads pos (GSlice vs) =
     \<lparr>lh_offset = pos, lh_size = length (genc_all vs)\<rparr> # gheads_all pos vs"
| "gheads pos (GStruct vs) =
     \<lparr>lh_offset = pos, lh_size = length (genc_all vs)\<rparr> # gheads_all pos vs"
| "gheads pos (GNilPtr k) = (if k = String then [] else [\<lparr>lh_offset = pos, lh_size = 0\<rparr>])"
| "gheads pos v = []"
| "gheads_all pos [] = []"
| "gheads_all pos (v # vs) = gheads pos v @ gheads_all (pos + length (gstr v)) vs"

fun ghs :: "gval \<Rightarrow> nat" where
  "ghs (GSlice vs) = length (rlp_head 0xC0 0xF7 (length (genc_all vs))) + sum_list (map ghs vs)"
| "ghs (GStruct vs) = length (rlp_head 0xC0 0xF7 (length (genc_all vs))) + sum_list (map ghs vs)"
| "ghs (GNilPtr k) = (if k = String then 0 else 1)"
| "ghs v = 0"

definition gadd :: "gval \<Rightarrow> encbuf \<Rightarrow> encbuf" where
  "gadd v w = w\<lparr>eb_str := eb_str w @ gstr v,
     eb_lheads := eb_lheads w @ gheads (length (eb_str w)) v,
     eb_lhsize := eb_lhsize w + ghs v\<rparr>"

definition gadd_all :: "gval list \<Rightarrow> encbuf \<Rightarrow> encbuf" where
  "gadd_all vs w = w\<lparr>eb_str := eb_str w @ concat (map gstr vs),
     eb_lheads := eb_lheads w @ gheads_all (length (eb_str w)) vs,
     eb_lhsize := eb_lhsize w + sum_list (map ghs vs)\<rparr>"

lemma length_genc:
  "length (genc v) = length (gstr v) + ghs v"
  "length (genc_all vs) = length (concat (map gstr vs)) + sum_list (map ghs vs)"
  by (induction v and vs rule: genc_genc_all.induct) (auto simp: rlp_head_def)

lemma gadd_all_Cons: "gadd_all (v # vs) w = gadd_all vs (gadd v w)"
  by (simp add: gadd_all_def gadd_def)

lemma gadd_all_Nil: "gadd_all [] w = w"
  by (simp add: gadd_all_def)

lemma encodeStringHeader_eq:
  "n < 2 ^ 64 \<Longrightarrow> encodeStringHeader n w = eb_write (rlp_head 0x80 0xB7 n) w"
  by (simp add: encodeStringHeader_def rlp_head_def putint_be_bytes unat_of_nat_u64 Let_def)

lemma eb_write_eb_write: "eb_write b (eb_write a w) = eb_write (a @ b) w"
  by (simp add: eb_write_def)

lemma le_7F_iff: "(b :: u8) \<le> 0x7F \<longleftrightarrow> b < 0x80"
  by (simp add: word_le_nat_alt word_less_nat_alt less_Suc_eq_le [symmetric])

lemma encodeString_eq:
  "length b < 2 ^ 64 \<Longrightarrow> encodeString b w = eb_write (rlp (Str b)) w"
  by (cases b) (auto simp: encodeString_def encodeStringHeader_eq eb_write_eb_write le_7F_iff)

lemma writeByteArray_eq:
  "length b < 2 ^ 64 \<Longrightarrow> writeByteArray b w = eb_write (rlp (Str b)) w"
proof (cases "length b = 0 \<or> length b = 1")
  case True
  then consider "b = []" | x where "b = [x]" by (auto simp: length_Suc_conv)
  then show ?thesis
    by cases (auto simp: writeByteArray_def rlp_head_def le_7F_iff)
next
  case False
  assume "length b < 2 ^ 64"
  with False show ?thesis
    by (simp add: writeByteArray_def encodeStringHeader_eq eb_write_eb_write)
qed

lemma encodeUint_eq: "encodeUint i w = eb_write (rlp (Str (int_bytes (unat i)))) w"
proof -
  define n where "n = unat i"
  have i: "i = of_nat n" by (simp add: n_def)
  have n: "n < 256 ^ 8" using unsigned_less [of i, where 'a = nat] by (simp add: n_def)
  have lt: "i < 128 \<longleftrightarrow> n < 128" by (simp add: n_def word_less_nat_alt)
  consider "n = 0" | "0 < n" "n < 128" | "128 \<le> n" by linarith
  then show ?thesis
  proof cases
    case 1
    then show ?thesis by (simp add: encodeUint_def i int_bytes_def rlp_head_def)
  next
    case 2
    have "(of_nat n :: u8) < 0x80" using 2 by (simp add: word_less_nat_alt unat_of_nat)
    moreover have "i \<noteq> 0" using 2 by (simp add: n_def unat_gt_0)
    moreover have "(ucast i :: u8) = of_nat n" by (simp add: n_def)
    ultimately show ?thesis using 2 lt
      by (simp add: encodeUint_def int_bytes_def n_def [symmetric] be_bytes.simps [of n])
  next
    case 3
    have "i \<noteq> 0" using 3 by (auto simp: n_def)
    moreover have "\<not> (length (be_bytes n) = 1 \<and> be_bytes n ! 0 < 0x80)"
    proof (cases "n < 256")
      case True
      with 3 have "\<not> (of_nat n :: u8) < 0x80" by (simp add: word_less_nat_alt unat_of_nat)
      with True show ?thesis by (simp add: be_bytes.simps [of n])
    next
      case False
      then have "1 < length (be_bytes n)" using be_bytes_length_ge [of 1 n] by simp
      then show ?thesis by simp
    qed
    moreover have "length (be_bytes n) < 56" using be_bytes_length_le [OF _ n] by simp
    ultimately show ?thesis using 3 lt
      by (auto simp: encodeUint_def int_bytes_def n_def [symmetric] putint_be_bytes rlp_head_def Let_def)
  qed
qed

lemma writeBigInt_eq:
  assumes "0 \<le> i" "length (rlp (Str (int_bytes (nat i)))) < 2 ^ 64"
  shows "writeBigInt i w = Ok (eb_write (rlp (Str (int_bytes (nat i)))) w)"
proof (cases "bitlen (nat i) \<le> 64")
  case True
  then have "nat i < 2 ^ 64" by (simp add: bitlen_le_64)
  then have "unat (of_nat (nat i) :: u64) = nat i" by (rule unat_of_nat_u64)
  with True assms(1) show ?thesis by (simp add: writeBigInt_def encodeUint_eq Let_def)
next
  case False
  define n where "n = nat i"
  define k where "k = (bitlen n + 7) div 8"
  have n: "2 ^ 64 \<le> n" using False bitlen_le_64 [of n] by (simp add: n_def)
  then have pos: "0 < n" by simp
  have be: "be_bytes n = be_fixed k n" using be_bytes_bitlen [OF pos] by (simp add: k_def)
  have len: "length (be_bytes n) = k" by (simp add: be)
  have "n < 256 ^ k" using be_nat_less [of "be_bytes n"] len by simp
  then have "put_words (big_Bits n) k (replicate k 0) = be_bytes n"
    using put_words_shape [of k "replicate k 0" n] by (simp add: be)
  moreover have "k \<noteq> 1" using be_bytes_length_ge [of 1 n] len n by simp
  moreover have "k < 2 ^ 64" using assms(2) len pos
    by (auto simp: n_def [symmetric] int_bytes_def split: if_splits)
  ultimately show ?thesis
    using assms False pos len
    by (simp add: writeBigInt_def n_def [symmetric] k_def [symmetric] encodeStringHeader_eq
        eb_write_eb_write int_bytes_def Let_def)
qed

lemma rlp_consts: "rlp (Str []) = [0x80]" "rlp (Str [1]) = [1]" "rlp (Lst []) = [0xC0]"
  by (simp_all add: rlp_head_def)

lemma length_rlp_Str: "length (rlp (Str b)) < n \<Longrightarrow> length b < n"
  by (auto split: if_splits)

lemma gadd_leaf: "gstr v = genc v \<Longrightarrow> gheads (length (eb_str w)) v = [] \<Longrightarrow> ghs v = 0 \<Longrightarrow>
    gadd v w = eb_write (genc v) w"
  by (simp add: gadd_def eb_write_def)

text \<open>Closing a list: the size stored at \<open>list\<close> time is the header bytes so far, so what
  \<open>listEnd\<close> computes is the encoded size of the content.\<close>

lemma listEnd_gadd_all:
  assumes "length (genc_all vs) < 2 ^ 64" "eb_list w = (lh, w')"
  shows "eb_listEnd lh (gadd_all vs w') = gadd (GSlice vs) w"
proof -
  let ?n = "length (genc_all vs)"
  have "length (concat (map gstr vs)) + sum_list (map ghs vs) = ?n" by (simp add: length_genc)
  then have size: "eb_size (gadd_all vs w') - length (eb_str w) - eb_lhsize w = ?n"
    using assms(2) by (auto simp: eb_list_def gadd_all_def eb_size_def)
  have lh: "eb_lheads (gadd_all vs w') ! lh = \<lparr>lh_offset = length (eb_str w), lh_size = eb_lhsize w\<rparr>"
    "lh = length (eb_lheads w)"
    using assms(2) by (auto simp: eb_list_def gadd_all_def nth_append)
  have "length (rlp_head 0xC0 0xF7 ?n) = (if ?n < 56 then 1 else 1 + intsize (of_nat ?n))"
    using assms(1) by (simp add: rlp_head_def intsize_be_bytes unat_of_nat_u64)
  then show ?thesis
    using size lh assms(2)
    by (auto simp: eb_listEnd_def Let_def gadd_def gadd_all_def eb_list_def list_update_append)
qed

lemma gadd_GStruct: "gadd (GStruct vs) w = gadd (GSlice vs) w"
  by (simp add: gadd_def)

lemma gwrite_gadd:
  "\<not> has_negative v \<Longrightarrow> length (genc v) < 2 ^ 64 \<Longrightarrow> gwrite v w = Ok (gadd v w)"
  "\<forall>v \<in> set vs. \<not> has_negative v \<Longrightarrow> length (genc_all vs) < 2 ^ 64 \<Longrightarrow>
     gwrite_all vs w = Ok (gadd_all vs w)"
proof (induction v w and vs w rule: gwrite_gwrite_all.induct)
  case (10 k w)
  show ?case
  proof (cases "k = String")
    case True
    then show ?thesis by (simp add: gadd_def eb_write_def)
  next
    case False
    obtain lh w' where l: "eb_list w = (lh, w')" by (cases "eb_list w")
    have "eb_listEnd lh w' = gadd (GSlice []) w"
      using listEnd_gadd_all [of "[]" w lh w'] l by (simp add: gadd_all_Nil)
    moreover have "gadd (GSlice []) w = gadd (GNilPtr k) w"
      using False by (simp add: gadd_def rlp_head_def)
    ultimately show ?thesis using False l by simp
  qed
next
  case (11 vs w)
  obtain lh w' where l: "eb_list w = (lh, w')" by (cases "eb_list w")
  with 11 have "gwrite_all vs w' = Ok (gadd_all vs w')" by simp
  with l 11(3) show ?case using listEnd_gadd_all [of vs w lh w'] by simp
next
  case (12 vs w)
  obtain lh w' where l: "eb_list w = (lh, w')" by (cases "eb_list w")
  with 12 have "gwrite_all vs w' = Ok (gadd_all vs w')" by simp
  with l 12(3) show ?case using listEnd_gadd_all [of vs w lh w'] by (simp add: gadd_GStruct)
next
  case (14 v vs w)
  then show ?case by (simp add: gadd_all_Cons)
qed (auto simp: gadd_leaf gadd_all_Nil encodeUint_eq rlp_consts simp del: rlp.simps
      intro!: writeBigInt_eq encodeString_eq [OF length_rlp_Str] writeByteArray_eq [OF length_rlp_Str])

lemma gwrite_negative:
  "has_negative v \<Longrightarrow> length (genc v) < 2 ^ 64 \<Longrightarrow> gwrite v w = Err NegativeBigInt"
  "\<exists>v \<in> set vs. has_negative v \<Longrightarrow> length (genc_all vs) < 2 ^ 64 \<Longrightarrow>
     gwrite_all vs w = Err NegativeBigInt"
proof (induction v w and vs w rule: gwrite_gwrite_all.induct)
  case (14 v vs w)
  show ?case
  proof (cases "has_negative v")
    case True
    with 14 show ?thesis by simp
  next
    case False
    with 14 have "gwrite v w = Ok (gadd v w)" by (simp add: gwrite_gadd)
    with 14 False show ?thesis by simp
  qed
qed (auto simp: writeBigInt_def split: prod.splits)

text \<open>
  The copying loop of \<open>toBytes\<close>, one value at a time. \<open>pending str sp pos\<close> is the string data
  between the copy position and \<open>pos\<close>: what has been written followed by what is pending
  is exactly the reference encoding of everything before \<open>pos\<close>.
\<close>

definition pending :: "bytes \<Rightarrow> nat \<Rightarrow> nat \<Rightarrow> bytes" where
  "pending str sp pos = take (pos - sp) (drop sp str)"

lemma pending_extend:
  assumes "sp \<le> pos" "take (length d) (drop pos str) = d"
  shows "pending str sp (pos + length d) = pending str sp pos @ d"
proof -
  have "pos + length d - sp = (pos - sp) + length d" using assms(1) by simp
  then have "pending str sp (pos + length d)
      = take (pos - sp) (drop sp str) @ take (length d) (drop (pos - sp) (drop sp str))"
    by (simp only: pending_def take_add)
  with assms show ?thesis by (simp add: pending_def)
qed

lemma pending_same: "pending str sp sp = []"
  by (simp add: pending_def)

definition placed :: "bytes \<Rightarrow> nat \<Rightarrow> bytes \<Rightarrow> bool" where
  "placed str pos d \<longleftrightarrow> pos + length d \<le> length str \<and> take (length d) (drop pos str) = d"

lemma placed_append: "placed str pos (a @ b) \<longleftrightarrow> placed str pos a \<and> placed str (pos + length a) b"
  by (auto simp: placed_def take_add drop_drop add.commute append_eq_append_conv2
      dest: arg_cong [of _ _ length])

lemma listhead_encode_eq:
  "lh_size h < 2 ^ 64 \<Longrightarrow> listhead_encode h = rlp_head 0xC0 0xF7 (lh_size h)"
  by (simp add: listhead_encode_def puthead_rlp_head)

lemma toBytes_loop_head:
  assumes "sp \<le> pos" "pos \<le> length str" "n < 2 ^ 64"
    and "length out + (pos - sp) + length (rlp_head 0xC0 0xF7 n) \<le> tot"
  shows "toBytes_loop tot str (\<lparr>lh_offset = pos, lh_size = n\<rparr> # hs) sp out
    = toBytes_loop tot str hs pos (out @ pending str sp pos @ rlp_head 0xC0 0xF7 n)"
proof -
  have len: "length (pending str sp pos) = pos - sp" using assms(1,2) by (simp add: pending_def)
  then have seg: "take (tot - length out) (pending str sp pos) = pending str sp pos"
    using assms(4) by simp
  show ?thesis
    using assms len seg
    by (simp add: Let_def listhead_encode_eq pending_def [symmetric])
qed

declare toBytes_loop.simps(2) [simp del]

text \<open>\<open>emits tot str hs pos d e\<close>: running the loop over the headers \<open>hs\<close>, for string data \<open>d\<close> placed
  at \<open>pos\<close>, extends written plus pending output by \<open>e\<close>.\<close>

definition emits :: "nat \<Rightarrow> bytes \<Rightarrow> listhead list \<Rightarrow> nat \<Rightarrow> bytes \<Rightarrow> bytes \<Rightarrow> bool" where
  "emits tot str hs pos d e \<longleftrightarrow> (\<forall>sp out rest.
     sp \<le> pos \<longrightarrow> placed str pos d \<longrightarrow> length out + (pos - sp) + length e \<le> tot \<longrightarrow>
     (\<exists>sp' out'. toBytes_loop tot str (hs @ rest) sp out = toBytes_loop tot str rest sp' out' \<and>
        sp' \<le> pos + length d \<and>
        out' @ pending str sp' (pos + length d) = out @ pending str sp pos @ e))"

lemma emits_string: "emits tot str [] pos d d"
  unfolding emits_def placed_def by (metis append_Nil append_assoc pending_extend trans_le_add1)

lemma emits_list:
  assumes "emits tot str hs pos d e" "tot < 2 ^ 64"
  shows "emits tot str (\<lparr>lh_offset = pos, lh_size = length e\<rparr> # hs) pos d
    (rlp_head 0xC0 0xF7 (length e) @ e)"
  unfolding emits_def
proof (intro allI impI)
  fix sp and out :: bytes and rest
  let ?h = "rlp_head 0xC0 0xF7 (length e)"
  let ?out = "out @ pending str sp pos @ ?h"
  assume sp: "sp \<le> pos" and pl: "placed str pos d"
    and room: "length out + (pos - sp) + length (?h @ e) \<le> tot"
  have "pos \<le> length str" using pl by (simp add: placed_def)
  then have "length (pending str sp pos) = pos - sp" using sp by (simp add: pending_def)
  with room have "length ?out + (pos - pos) + length e \<le> tot" by simp
  with assms(1) pl obtain sp' out' where
      "toBytes_loop tot str (hs @ rest) pos ?out = toBytes_loop tot str rest sp' out'"
      "sp' \<le> pos + length d" "out' @ pending str sp' (pos + length d) = ?out @ pending str pos pos @ e"
    unfolding emits_def by blast
  then show "\<exists>sp' out'. toBytes_loop tot str ((\<lparr>lh_offset = pos, lh_size = length e\<rparr> # hs) @ rest) sp out
        = toBytes_loop tot str rest sp' out' \<and> sp' \<le> pos + length d \<and>
      out' @ pending str sp' (pos + length d) = out @ pending str sp pos @ ?h @ e"
    using toBytes_loop_head [OF sp \<open>pos \<le> length str\<close>, of "length e" out tot "hs @ rest"] room assms(2)
    by (auto simp: pending_same)
qed

lemma emits_append:
  assumes "emits tot str hs pos d e" "emits tot str hs' (pos + length d) d' e'"
  shows "emits tot str (hs @ hs') pos (d @ d') (e @ e')"
  unfolding emits_def
proof (intro allI impI)
  fix sp and out :: bytes and rest
  let ?q = "pos + length d"
  assume sp: "sp \<le> pos" and pl: "placed str pos (d @ d')"
    and room: "length out + (pos - sp) + length (e @ e') \<le> tot"
  have pl': "placed str pos d" "placed str ?q d'" using pl by (simp_all add: placed_append)
  have "length out + (pos - sp) + length e \<le> tot" using room by simp
  with assms(1) sp pl'(1) obtain sp1 out1 where 1:
      "toBytes_loop tot str (hs @ hs' @ rest) sp out = toBytes_loop tot str (hs' @ rest) sp1 out1"
      "sp1 \<le> ?q" "out1 @ pending str sp1 ?q = out @ pending str sp pos @ e"
    unfolding emits_def by blast
  have "?q \<le> length str" using pl'(2) by (simp add: placed_def)
  then have "length (pending str sp1 ?q) = ?q - sp1" using 1(2) by (simp add: pending_def)
  moreover have "length (pending str sp pos) \<le> pos - sp" by (simp add: pending_def)
  ultimately have "length out1 + (?q - sp1) + length e' \<le> tot"
    using room arg_cong [OF 1(3), of length] by simp
  with assms(2) 1(2) pl'(2) obtain sp2 out2 where 2:
      "toBytes_loop tot str (hs' @ rest) sp1 out1 = toBytes_loop tot str rest sp2 out2"
      "sp2 \<le> ?q + length d'"
      "out2 @ pending str sp2 (?q + length d') = out1 @ pending str sp1 ?q @ e'"
    unfolding emits_def by blast
  show "\<exists>sp' out'. toBytes_loop tot str ((hs @ hs') @ rest) sp out = toBytes_loop tot str rest sp' out' \<and>
      sp' \<le> pos + length (d @ d') \<and>
      out' @ pending str sp' (pos + length (d @ d')) = out @ pending str sp pos @ e @ e'"
    using 1 2 by (intro exI [of _ sp2] exI [of _ out2]) (simp add: add.assoc)
qed

lemma emits_gval:
  "tot < 2 ^ 64 \<Longrightarrow> emits tot str (gheads pos v) pos (gstr v) (genc v)"
  "tot < 2 ^ 64 \<Longrightarrow> emits tot str (gheads_all pos vs) pos (concat (map gstr vs)) (genc_all vs)"
proof (induction pos v and pos vs rule: gheads_gheads_all.induct)
  case (3 pos k)
  have "genc (GNilPtr k) = rlp_head 0xC0 0xF7 0 @ []" if "k \<noteq> String"
    using that by (simp add: rlp_head_def)
  then show ?case
    using emits_string [of tot str pos "[0x80]"]
      emits_list [OF emits_string [of tot str pos "[]"], OF 3]
    by (cases "k = String") (auto simp: rlp_consts simp del: rlp.simps)
qed (auto simp: emits_list emits_append emits_string simp del: rlp.simps)

lemma toBytes_gadd:
  assumes "length (genc v) < 2 ^ 64"
  shows "toBytes (gadd v (eb_reset eb)) = Ok (genc v)"
proof -
  let ?w = "gadd v (eb_reset eb)"
  have str: "eb_str ?w = gstr v" and heads: "eb_lheads ?w = gheads 0 v"
    by (simp_all add: gadd_def eb_reset_def)
  have tot: "eb_size ?w = length (genc v)"
    by (simp add: gadd_def eb_reset_def eb_size_def length_genc)
  obtain sp out where loop: "toBytes_loop (length (genc v)) (gstr v) (gheads 0 v) 0 []
        = Ok (sp, out)"
      "sp \<le> length (gstr v)" "out @ pending (gstr v) sp (length (gstr v)) = genc v"
    using emits_gval(1) [OF assms, of "gstr v" 0 v, unfolded emits_def, rule_format, of 0 "[]" "[]"]
    by (auto simp: placed_def pending_same)
  have "out @ drop sp (gstr v) = genc v" using loop(3) by (simp add: pending_def)
  moreover from this have "length (drop sp (gstr v)) = length (genc v) - length out"
    by (metis add_diff_cancel_left' length_append)
  then have "take (length (genc v) - length out) (drop sp (gstr v)) = drop sp (gstr v)"
      "length (genc v) - (length out + (length (gstr v) - sp)) = 0" by simp_all
  ultimately show ?thesis
    using loop(1) by (simp add: toBytes_def str heads tot Let_def)
qed

section \<open>The encoder implements the reference encoding\<close>

text \<open>C7: For every Go value whose encoding fits the address space, \<open>EncodeToBytes\<close>, started on a
  pooled buffer in any state, returns exactly the reference RLP encoding of the value (list
  headers in place although the buffer collects them separately), and fails with the
  negative-integer error exactly when the value contains a negative big integer. It never panics.\<close>

theorem EncodeToBytes_correct:
  assumes "length (genc v) < 2 ^ 64"
  shows "EncodeToBytes eb v = (if has_negative v then Err NegativeBigInt else Ok (genc v))"
  using assms by (simp add: EncodeToBytes_def gwrite_negative gwrite_gadd toBytes_gadd)

theorem EncodeToBytes_correct_witness:
  "EncodeToBytes \<lparr>eb_str = [7], eb_lheads = [], eb_lhsize = 3\<rparr>
     (GStruct [GUint 1024, GBytes [99, 97, 116], GSlice [GNilIface, GBig (Some 5)]])
   = Ok [0xCA, 0x82, 4, 0, 0x83, 99, 97, 116, 0xC2, 0xC0, 5]"
proof -
  let ?v = "GStruct [GUint 1024, GBytes [99, 97, 116], GSlice [GNilIface, GBig (Some 5)]]"
  have "genc ?v = [0xCA, 0x82, 4, 0, 0x83, 99, 97, 116, 0xC2, 0xC0, 5]" by code_simp
  then show ?thesis by (subst EncodeToBytes_correct) simp_all
qed

end
