(* ===== verification/Rlp_Decode.thy ===== *)
theory Rlp_Decode
  imports Rlp_Encode
begin

text \<open>
  The RLP decoder: the slice-based header parser of \<open>rlp/raw.go\<close> and \<open>rlp/iterator.go\<close>, and the
  stream decoder of \<open>rlp/decode.go\<close> with its list-limit stack, decoding into \<open>interface{}\<close>
  values (byte strings and lists of such values).

  A stream operation passes the stream state explicitly and returns it also when it fails, since
  the source leaves the stream modified. Context information that \<open>wrapStreamError\<close> and
  \<open>addErrorContext\<close> add to an error message is not modelled: an error is its cause. The scratch
  array \<open>uintbuf\<close> is overwritten before each use and is not part of the state.
\<close>

datatype rlp_error =
    EOF | ErrUnexpectedEOF | EOL
  | ErrExpectedString | ErrExpectedList | ErrCanonInt | ErrCanonSize
  | ErrElemTooLarge | ErrValueTooLarge | ErrMoreThanOneValue
  | errNotInList | errNotAtEOL | errUintOverflow
  | InvalidBool u64 | InputTooLong | InputTooShort
  | OutOfFuel \<comment> \<open>not an error of the source: the recursion bound of the model was hit\<close>

section \<open>Values at the head of a byte slice: \<open>raw.go\<close>\<close>

definition readSize :: "bytes \<Rightarrow> u8 \<Rightarrow> (rlp_error, u64) res" where
  "readSize b slen =
    (if unat slen > length b then Err ErrUnexpectedEOF
     else
       (let at = (\<lambda>i k. push_bit k (ucast (b ! i)) :: u64);
            s = (if slen = 1 then at 0 0
                 else if slen = 2 then at 0 8 OR at 1 0
                 else if slen = 3 then at 0 16 OR at 1 8 OR at 2 0
                 else if slen = 4 then at 0 24 OR at 1 16 OR at 2 8 OR at 3 0
                 else if slen = 5 then at 0 32 OR at 1 24 OR at 2 16 OR at 3 8 OR at 4 0
                 else if slen = 6 then
                   at 0 40 OR at 1 32 OR at 2 24 OR at 3 16 OR at 4 8 OR at 5 0
                 else if slen = 7 then
                   at 0 48 OR at 1 40 OR at 2 32 OR at 3 24 OR at 4 16 OR at 5 8 OR at 6 0
                 else if slen = 8 then
                   at 0 56 OR at 1 48 OR at 2 40 OR at 3 32 OR at 4 24 OR at 5 16 OR at 6 8 OR at 7 0
                 else 0)
        in if s < 56 \<or> b ! 0 = 0 then Err ErrCanonSize else Ok s))"

definition readKind :: "bytes \<Rightarrow> (rlp_error, kind \<times> u64 \<times> u64) res" where
  "readKind buf =
    (case buf of
       [] \<Rightarrow> Err ErrUnexpectedEOF
     | b # bs \<Rightarrow>
         bind_res
           (if b < 0x80 then Ok (Byte, 0, 1)
            else if b < 0xB8 then
              (if ucast (b - 0x80) = (1 :: u64) \<and> bs \<noteq> [] \<and> bs ! 0 < 128 then Err ErrCanonSize
               else Ok (String, 1, ucast (b - 0x80)))
            else if b < 0xC0 then
              map_res (\<lambda>cs. (String, ucast (b - 0xB7) + 1, cs)) (readSize bs (b - 0xB7))
            else if b < 0xF8 then Ok (List, 1, ucast (b - 0xC0))
            else map_res (\<lambda>cs. (List, ucast (b - 0xF7) + 1, cs)) (readSize bs (b - 0xF7)))
           (\<lambda>(k, tagsize, contentsize).
              if contentsize > of_nat (length buf) - tagsize then Err ErrValueTooLarge
              else Ok (k, tagsize, contentsize)))"

definition Split :: "bytes \<Rightarrow> (rlp_error, kind \<times> bytes \<times> bytes) res" where
  "Split b =
    map_res (\<lambda>(k, ts, cs). (k, take (unat cs) (drop (unat ts) b), drop (unat (ts + cs)) b)) (readKind b)"

definition SplitString :: "bytes \<Rightarrow> (rlp_error, bytes \<times> bytes) res" where
  "SplitString b =
    bind_res (Split b) (\<lambda>(k, content, rest).
      if k = List then Err ErrExpectedString else Ok (content, rest))"

definition SplitList :: "bytes \<Rightarrow> (rlp_error, bytes \<times> bytes) res" where
  "SplitList b =
    bind_res (Split b) (\<lambda>(k, content, rest).
      if k \<noteq> List then Err ErrExpectedList else Ok (content, rest))"

definition SplitUint64 :: "bytes \<Rightarrow> (rlp_error, u64 \<times> bytes) res" where
  "SplitUint64 b =
    bind_res (SplitString b) (\<lambda>(content, rest).
      if length content = 0 then Ok (0, rest)
      else if length content = 1 then
        (if content ! 0 = 0 then Err ErrCanonInt else Ok (ucast (content ! 0), rest))
      else if length content > 8 then Err errUintOverflow
      else
        (case readSize content (of_nat (length content)) of
           Ok x \<Rightarrow> Ok (x, rest)
         | Err _ \<Rightarrow> Err ErrCanonInt
         | Panic \<Rightarrow> Panic))"

text \<open>The loop of \<open>CountValues\<close> consumes at least one byte per value, so \<open>length b\<close> rounds are
  enough; running out of them is the value \<open>Err OutOfFuel\<close>.\<close>

fun CountValues_loop :: "nat \<Rightarrow> bytes \<Rightarrow> nat \<Rightarrow> (rlp_error, nat) res" where
  "CountValues_loop fuel b i =
    (if b = [] then Ok i
     else
       (case fuel of
          0 \<Rightarrow> Err OutOfFuel
        | Suc f \<Rightarrow>
            bind_res (readKind b) (\<lambda>(_, tagsize, sz).
              CountValues_loop f (drop (unat (tagsize + sz)) b) (i + 1))))"

declare CountValues_loop.simps [simp del]

definition CountValues :: "bytes \<Rightarrow> (rlp_error, nat) res" where
  "CountValues b = CountValues_loop (length b) b 0"

definition AppendUint64 :: "bytes \<Rightarrow> u64 \<Rightarrow> bytes" where
  "AppendUint64 b i =
    (if i = 0 then b @ [0x80]
     else if i < 128 then b @ [ucast i]
     else if i < 0x100 then b @ [0x81, ucast i]
     else if i < 0x10000 then b @ [0x82, ucast (drop_bit 8 i), ucast i]
     else if i < 0x1000000 then b @ [0x83, ucast (drop_bit 16 i), ucast (drop_bit 8 i), ucast i]
     else if i < 0x100000000 then
       b @ [0x84, ucast (drop_bit 24 i), ucast (drop_bit 16 i), ucast (drop_bit 8 i), ucast i]
     else if i < 0x10000000000 then
       b @ [0x85, ucast (drop_bit 32 i), ucast (drop_bit 24 i), ucast (drop_bit 16 i),
            ucast (drop_bit 8 i), ucast i]
     else if i < 0x1000000000000 then
       b @ [0x86, ucast (drop_bit 40 i), ucast (drop_bit 32 i), ucast (drop_bit 24 i),
            ucast (drop_bit 16 i), ucast (drop_bit 8 i), ucast i]
     else if i < 0x100000000000000 then
       b @ [0x87, ucast (drop_bit 48 i), ucast (drop_bit 40 i), ucast (drop_bit 32 i),
            ucast (drop_bit 24 i), ucast (drop_bit 16 i), ucast (drop_bit 8 i), ucast i]
     else
       b @ [0x88, ucast (drop_bit 56 i), ucast (drop_bit 48 i), ucast (drop_bit 40 i),
            ucast (drop_bit 32 i), ucast (drop_bit 24 i), ucast (drop_bit 16 i),
            ucast (drop_bit 8 i), ucast i])"

record listIterator =
  it_data :: bytes
  it_next :: bytes
  it_err :: "rlp_error option"

definition NewListIterator :: "bytes \<Rightarrow> (rlp_error, listIterator) res" where
  "NewListIterator d =
    bind_res (readKind d) (\<lambda>(k, t, c).
      if k \<noteq> List then Err ErrExpectedList
      else Ok \<lparr>it_data = take (unat c) (drop (unat t) d), it_next = [], it_err = None\<rparr>)"

definition it_Next :: "listIterator \<Rightarrow> bool \<times> listIterator" where
  "it_Next it =
    (if it_data it = [] then (False, it)
     else
       (let (t, c, err) = (case readKind (it_data it) of
                             Ok (_, t, c) \<Rightarrow> (t, c, None)
                           | Err e \<Rightarrow> (0, 0, Some e)
                           | Panic \<Rightarrow> (0, 0, None))
        in (True, it\<lparr>it_next := take (unat (t + c)) (it_data it),
                    it_data := drop (unat (t + c)) (it_data it), it_err := err\<rparr>)))"

section \<open>The stream\<close>

text \<open>\<open>s_r\<close> holds the bytes the underlying reader has left; the head of \<open>s_stack\<close> is the limit
  of the innermost list; \<open>s_kind = None\<close> is the value \<open>-1\<close> of the source.\<close>

record stream =
  s_r :: bytes
  s_remaining :: u64
  s_size :: u64
  s_kinderr :: "rlp_error option"
  s_stack :: "u64 list"
  s_kind :: "kind option"
  s_byteval :: u8
  s_limited :: bool

type_synonym 'a sop = "stream \<Rightarrow> (rlp_error, 'a) res \<times> stream"

definition sret :: "'a \<Rightarrow> 'a sop" where
  "sret x s = (Ok x, s)"

definition sthrow :: "rlp_error \<Rightarrow> 'a sop" where
  "sthrow e s = (Err e, s)"

definition sbind :: "'a sop \<Rightarrow> ('a \<Rightarrow> 'b sop) \<Rightarrow> 'b sop" where
  "sbind m f s =
    (case m s of
       (Ok x, s') \<Rightarrow> f x s'
     | (Err e, s') \<Rightarrow> (Err e, s')
     | (Panic, s') \<Rightarrow> (Panic, s'))"

definition listLimit :: "stream \<Rightarrow> bool \<times> u64" where
  "listLimit s = (case s_stack s of [] \<Rightarrow> (False, 0) | l # _ \<Rightarrow> (True, l))"

definition set_limit :: "u64 \<Rightarrow> stream \<Rightarrow> stream" where
  "set_limit l s = s\<lparr>s_stack := l # tl (s_stack s)\<rparr>"

definition willRead :: "u64 \<Rightarrow> unit sop" where
  "willRead n s0 =
    (let s = s0\<lparr>s_kind := None\<rparr>; (inList, limit) = listLimit s
     in if inList \<and> n > limit then (Err ErrElemTooLarge, s)
        else
          (let s1 = (if inList then set_limit (limit - n) s else s)
           in if s_limited s1 then
                (if n > s_remaining s1 then (Err ErrValueTooLarge, s1)
                 else (Ok (), s1\<lparr>s_remaining := s_remaining s1 - n\<rparr>))
              else (Ok (), s1)))"

definition s_readByte :: "u8 sop" where
  "s_readByte =
    sbind (willRead 1) (\<lambda>_ s.
      (case s_r s of
         [] \<Rightarrow> (Err ErrUnexpectedEOF, s)
       | b # bs \<Rightarrow> (Ok b, s\<lparr>s_r := bs\<rparr>)))"

definition s_readFull :: "u64 \<Rightarrow> bytes sop" where
  "s_readFull n =
    sbind (willRead n) (\<lambda>_ s.
      if unat n \<le> length (s_r s)
      then (Ok (take (unat n) (s_r s)), s\<lparr>s_r := drop (unat n) (s_r s)\<rparr>)
      else (Err ErrUnexpectedEOF, s\<lparr>s_r := []\<rparr>))"

definition s_readUint :: "u8 \<Rightarrow> u64 sop" where
  "s_readUint sz =
    (if sz = 0 then (\<lambda>s. (Ok 0, s\<lparr>s_kind := None\<rparr>))
     else if sz = 1 then sbind s_readByte (\<lambda>b. sret (ucast b))
     else if sz > 8 then (\<lambda>s. (Panic, s))
     else sbind (s_readFull (ucast sz)) (\<lambda>buffer.
            if buffer ! 0 = 0 then sthrow ErrCanonSize else sret (of_nat (be_nat buffer))))"

text \<open>The last case of \<open>s_readKind_long\<close>: a size that follows the tag, minimal and at least 56.\<close>

definition s_readKind_long :: "kind \<Rightarrow> u8 \<Rightarrow> (kind \<times> u64 \<times> rlp_error option) sop" where
  "s_readKind_long k n s =
    (case s_readUint n s of
       (Ok sz, s') \<Rightarrow> (Ok (k, sz, if sz < 56 then Some ErrCanonSize else None), s')
     | (Err e, s') \<Rightarrow> (Ok (k, 0, Some e), s')
     | (Panic, s') \<Rightarrow> (Panic, s'))"

definition s_readKind :: "(kind \<times> u64 \<times> rlp_error option) sop" where
  "s_readKind s =
    (case s_readByte s of
       (Err err, s') \<Rightarrow>
         (let err' = (if s_stack s' = [] \<and> (err = ErrUnexpectedEOF \<or> err = ErrValueTooLarge)
                      then EOF else err)
          in (Ok (Byte, 0, Some err'), s'))
     | (Panic, s') \<Rightarrow> (Panic, s')
     | (Ok b, s1) \<Rightarrow>
         (let s' = s1\<lparr>s_byteval := 0\<rparr>
          in if b < 0x80 then (Ok (Byte, 0, None), s'\<lparr>s_byteval := b\<rparr>)
             else if b < 0xB8 then (Ok (String, ucast (b - 0x80), None), s')
             else if b < 0xC0 then s_readKind_long String (b - 0xB7) s'
             else if b < 0xF8 then (Ok (List, ucast (b - 0xC0), None), s')
             else s_readKind_long List (b - 0xF7) s'))"

definition s_cached :: "stream \<Rightarrow> kind \<Rightarrow> (rlp_error, kind \<times> u64) res \<times> stream" where
  "s_cached s k = (case s_kinderr s of None \<Rightarrow> Ok (k, s_size s) | Some e \<Rightarrow> Err e, s)"

definition s_Kind :: "(kind \<times> u64) sop" where
  "s_Kind s =
    (case s_kind s of
       Some k \<Rightarrow> s_cached s k
     | None \<Rightarrow>
         (let (inList, limit) = listLimit s
          in if inList \<and> limit = 0 then (Err EOL, s)
             else
               (case s_readKind s of
                  (Ok (k, sz, err), s') \<Rightarrow>
                    (let err' = (if err \<noteq> None then err
                                 else if inList \<and> sz > limit then Some ErrElemTooLarge
                                 else if s_limited s' \<and> sz > s_remaining s' then Some ErrValueTooLarge
                                 else None)
                     in s_cached (s'\<lparr>s_kind := Some k, s_size := sz, s_kinderr := err'\<rparr>) k)
                | (Err e, s') \<Rightarrow> (Err e, s')
                | (Panic, s') \<Rightarrow> (Panic, s'))))"

definition rearm :: "unit sop" where
  "rearm s = (Ok (), s\<lparr>s_kind := None\<rparr>)"

definition s_Bytes :: "bytes sop" where
  "s_Bytes =
    sbind s_Kind (\<lambda>(k, sz).
      case k of
        Byte \<Rightarrow> (\<lambda>s. (Ok [s_byteval s], s\<lparr>s_kind := None\<rparr>))
      | String \<Rightarrow>
          sbind (s_readFull sz) (\<lambda>b.
            if sz = 1 \<and> b ! 0 < 128 then sthrow ErrCanonSize else sret b)
      | List \<Rightarrow> sthrow ErrExpectedString)"

definition s_Raw :: "bytes sop" where
  "s_Raw =
    sbind s_Kind (\<lambda>(k, sz).
      if k = Byte then (\<lambda>s. (Ok [s_byteval s], s\<lparr>s_kind := None\<rparr>))
      else
        sbind (s_readFull sz) (\<lambda>b.
          sret ((if k = String then puthead 0x80 0xB7 sz else puthead 0xC0 0xF7 sz) @ b)))"

definition s_uint :: "nat \<Rightarrow> u64 sop" where
  "s_uint maxbits =
    sbind s_Kind (\<lambda>(k, sz).
      case k of
        Byte \<Rightarrow> (\<lambda>s. if s_byteval s = 0 then (Err ErrCanonInt, s)
                      else (Ok (ucast (s_byteval s)), s\<lparr>s_kind := None\<rparr>))
      | String \<Rightarrow>
          if sz > of_nat (maxbits div 8) then sthrow errUintOverflow
          else (\<lambda>s.
            case s_readUint (ucast sz) s of
              (Ok v, s') \<Rightarrow> if sz > 0 \<and> v < 128 then (Err ErrCanonSize, s') else (Ok v, s')
            | (Err e, s') \<Rightarrow> (Err (if e = ErrCanonSize then ErrCanonInt else e), s')
            | (Panic, s') \<Rightarrow> (Panic, s'))
      | List \<Rightarrow> sthrow ErrExpectedString)"

definition s_Bool :: "bool sop" where
  "s_Bool =
    sbind (s_uint 8) (\<lambda>num.
      if num = 0 then sret False else if num = 1 then sret True else sthrow (InvalidBool num))"

definition s_List :: "u64 sop" where
  "s_List =
    sbind s_Kind (\<lambda>(k, sz).
      if k \<noteq> List then sthrow ErrExpectedList
      else (\<lambda>s.
        (let (inList, limit) = listLimit s;
             s' = (if inList then set_limit (limit - sz) s else s)
         in (Ok sz, s'\<lparr>s_stack := sz # s_stack s', s_kind := None, s_size := 0\<rparr>))))"

definition s_ListEnd :: "unit sop" where
  "s_ListEnd s =
    (let (inList, limit) = listLimit s
     in if \<not> inList then (Err errNotInList, s)
        else if limit > 0 then (Err errNotAtEOL, s)
        else (Ok (), s\<lparr>s_stack := tl (s_stack s), s_kind := None, s_size := 0\<rparr>))"

definition s_Reset :: "bytes \<Rightarrow> u64 \<Rightarrow> stream \<Rightarrow> stream" where
  "s_Reset r inputLimit s =
    (let s' = (if inputLimit > 0 then s\<lparr>s_remaining := inputLimit, s_limited := True\<rparr>
               else s\<lparr>s_remaining := of_nat (length r), s_limited := True\<rparr>)
     in s'\<lparr>s_r := r, s_stack := [], s_size := 0, s_kind := None, s_kinderr := None, s_byteval := 0\<rparr>)"

section \<open>Value decoders\<close>

definition decodeBigInt :: "nat sop" where
  "decodeBigInt =
    sbind
      (sbind s_Kind (\<lambda>(k, sz).
         if k = List then sthrow ErrExpectedString
         else if k = Byte then (\<lambda>s. (Ok [s_byteval s], s\<lparr>s_kind := None\<rparr>))
         else if sz = 0 then (\<lambda>s. (Ok [], s\<lparr>s_kind := None\<rparr>))
         else if sz \<le> 32 then
           sbind (s_readFull sz) (\<lambda>b.
             if sz = 1 \<and> b ! 0 < 128 then sthrow ErrCanonSize else sret b)
         else s_readFull sz))
      (\<lambda>buffer. if buffer \<noteq> [] \<and> buffer ! 0 = 0 then sthrow ErrCanonInt else sret (be_nat buffer))"

definition decodeByteArray :: "nat \<Rightarrow> bytes sop" where
  "decodeByteArray len =
    sbind s_Kind (\<lambda>(k, sz).
      case k of
        Byte \<Rightarrow>
          if len = 0 then sthrow InputTooLong
          else if len > 1 then sthrow InputTooShort
          else (\<lambda>s. (Ok [s_byteval s], s\<lparr>s_kind := None\<rparr>))
      | String \<Rightarrow>
          if of_nat len < sz then sthrow InputTooLong
          else if of_nat len > sz then sthrow InputTooShort
          else
            sbind (s_readFull (of_nat len)) (\<lambda>b.
              if sz = 1 \<and> b ! 0 < 128 then sthrow ErrCanonSize else sret b)
      | List \<Rightarrow> sthrow ErrExpectedString)"

text \<open>
  \<open>decodeInterface\<close>, with \<open>decodeListSlice\<close> and the element loop \<open>decodeSliceElems\<close>. The first
  argument bounds the depth of the recursion, the loop included.
\<close>

fun decodeInterface :: "nat \<Rightarrow> item sop"
and decodeSliceElems :: "nat \<Rightarrow> item list sop" where
  "decodeInterface 0 s = (Err OutOfFuel, s)"
| "decodeInterface (Suc f) s =
    sbind s_Kind (\<lambda>(k, _).
      if k = List then
        sbind s_List (\<lambda>sz.
          if sz = 0 then sbind s_ListEnd (\<lambda>_. sret (Lst []))
          else
            sbind (decodeSliceElems f) (\<lambda>xs.
              sbind s_ListEnd (\<lambda>_. sret (Lst xs))))
      else sbind s_Bytes (\<lambda>b. sret (Str b))) s"
| "decodeSliceElems 0 s = (Err OutOfFuel, s)"
| "decodeSliceElems (Suc f) s =
    (case decodeInterface f s of
       (Ok x, s') \<Rightarrow> sbind (decodeSliceElems f) (\<lambda>xs. sret (x # xs)) s'
     | (Err e, s') \<Rightarrow> if e = EOL then (Ok [], s') else (Err e, s')
     | (Panic, s') \<Rightarrow> (Panic, s'))"

definition DecodeBytes :: "'a sop \<Rightarrow> stream \<Rightarrow> bytes \<Rightarrow> (rlp_error, 'a) res" where
  "DecodeBytes dec st b =
    (case dec (s_Reset b (of_nat (length b)) st) of
       (Ok x, s) \<Rightarrow> if length (s_r s) > 0 then Err ErrMoreThanOneValue else Ok x
     | (Err e, _) \<Rightarrow> Err e
     | (Panic, _) \<Rightarrow> Panic)"

definition DecodeBytes_interface :: "stream \<Rightarrow> bytes \<Rightarrow> (rlp_error, item) res" where
  "DecodeBytes_interface st b = DecodeBytes (decodeInterface (2 * length b + 2)) st b"

section \<open>The stream primitives on a limited stream\<close>

text \<open>
  \<open>ready s\<close>: the stream is limited and its limit is what the reader holds, as \<open>DecodeBytes\<close> sets
  it up. \<open>adv n s\<close> is \<open>s\<close> with \<open>n\<close> bytes consumed: the innermost list limit decreases with
  64-bit wrap-around, as in the source. \<open>room n s\<close>: the innermost list admits \<open>n\<close> more bytes.
\<close>

definition ready :: "stream \<Rightarrow> bool" where
  "ready s \<longleftrightarrow> s_limited s \<and> s_remaining s = of_nat (length (s_r s)) \<and> length (s_r s) < 2 ^ 64"

definition adv :: "nat \<Rightarrow> stream \<Rightarrow> stream" where
  "adv n s = s\<lparr>s_r := drop n (s_r s), s_remaining := s_remaining s - of_nat n,
     s_stack := (case s_stack s of [] \<Rightarrow> [] | l # st \<Rightarrow> (l - of_nat n) # st)\<rparr>"

definition room :: "u64 \<Rightarrow> stream \<Rightarrow> bool" where
  "room n s \<longleftrightarrow> (s_stack s = [] \<or> n \<le> hd (s_stack s))"

lemma adv_sel [simp]:
  "s_r (adv n s) = drop n (s_r s)"
  "s_stack (adv n s) = (case s_stack s of [] \<Rightarrow> [] | l # st \<Rightarrow> (l - of_nat n) # st)"
  "s_kind (adv n s) = s_kind s" "s_size (adv n s) = s_size s"
  "s_kinderr (adv n s) = s_kinderr s" "s_byteval (adv n s) = s_byteval s"
  "s_limited (adv n s) = s_limited s" "s_remaining (adv n s) = s_remaining s - of_nat n"
  by (simp_all add: adv_def)

lemma adv_adv: "adv n (adv m s) = adv (m + n) s"
  by (cases s) (simp add: adv_def algebra_simps split: list.split)

lemma adv_0: "adv 0 s = s"
  by (cases s) (simp add: adv_def split: list.split)

lemma adv_upd:
  "adv n (s\<lparr>s_kind := k\<rparr>) = (adv n s)\<lparr>s_kind := k\<rparr>"
  "adv n (s\<lparr>s_byteval := v\<rparr>) = (adv n s)\<lparr>s_byteval := v\<rparr>"
  "adv n (s\<lparr>s_size := z\<rparr>) = (adv n s)\<lparr>s_size := z\<rparr>"
  "adv n (s\<lparr>s_kinderr := e\<rparr>) = (adv n s)\<lparr>s_kinderr := e\<rparr>"
  by (simp_all add: adv_def)

lemma ready_adv: "ready s \<Longrightarrow> n \<le> length (s_r s) \<Longrightarrow> ready (adv n s)"
  by (auto simp: ready_def of_nat_diff)

lemma ready_upd [simp]:
  "ready (s\<lparr>s_kind := k\<rparr>) = ready s" "ready (s\<lparr>s_byteval := v\<rparr>) = ready s"
  "ready (s\<lparr>s_size := z\<rparr>) = ready s" "ready (s\<lparr>s_kinderr := e\<rparr>) = ready s"
  "ready (s\<lparr>s_stack := st\<rparr>) = ready s"
  by (simp_all add: ready_def)

lemma room_upd [simp]:
  "room n (s\<lparr>s_kind := k\<rparr>) = room n s" "room n (s\<lparr>s_byteval := v\<rparr>) = room n s"
  by (simp_all add: room_def)

lemma u64_le_of_nat: "length xs < 2 ^ 64 \<Longrightarrow> (n :: u64) \<le> of_nat (length xs) \<longleftrightarrow> unat n \<le> length xs"
  by (simp add: word_le_nat_alt unat_of_nat_u64)

lemma sbind_Ok: "sbind m f s = (Ok y, t) \<longleftrightarrow> (\<exists>x s'. m s = (Ok x, s') \<and> f x s' = (Ok y, t))"
  by (auto simp: sbind_def split: prod.split res.split)

lemma sret_eq [simp]: "sret x s = (Ok y, t) \<longleftrightarrow> x = y \<and> s = t"
  by (simp add: sret_def)

lemma sthrow_eq [simp]: "sthrow e s \<noteq> (Ok y, t)"
  by (simp add: sthrow_def)

lemma willRead_Ok:
  assumes "ready s"
  shows "willRead n s = (Ok u, t) \<longleftrightarrow> unat n \<le> length (s_r s) \<and> room n s \<and>
    t = (adv (unat n) s)\<lparr>s_r := s_r s, s_kind := None\<rparr>"
  using assms
  by (auto simp: willRead_def listLimit_def set_limit_def room_def ready_def adv_def Let_def
      u64_le_of_nat not_less not_le word_less_nat_alt word_le_nat_alt unat_of_nat_u64
      split: list.splits)

lemma readByte_Ok:
  assumes "ready s"
  shows "s_readByte s = (Ok b, t) \<longleftrightarrow>
    (\<exists>r'. s_r s = b # r') \<and> room 1 s \<and> t = (adv 1 s)\<lparr>s_kind := None\<rparr>"
  using assms unfolding s_readByte_def sbind_Ok
  by (auto simp: willRead_Ok adv_def split: list.splits)

lemma readFull_Ok:
  assumes "ready s"
  shows "s_readFull n s = (Ok b, t) \<longleftrightarrow> unat n \<le> length (s_r s) \<and> room n s \<and>
    b = take (unat n) (s_r s) \<and> t = (adv (unat n) s)\<lparr>s_kind := None\<rparr>"
  using assms unfolding s_readFull_def sbind_Ok
  by (auto simp: willRead_Ok adv_def split: if_splits)

lemma unat_ucast_u8_u64 [simp]: "unat (ucast (b :: u8) :: u64) = unat b"
proof -
  have "unat b < 2 ^ 64" by (rule less_trans [OF unat_u8_lt]) simp
  then show ?thesis by (simp add: unsigned_ucast_eq take_bit_nat_eq_self)
qed

lemma readUint_Ok:
  assumes "ready s" "0 < n" "n \<le> 8"
  shows "s_readUint n s = (Ok v, t) \<longleftrightarrow> unat n \<le> length (s_r s) \<and> room (ucast n) s \<and>
    v = of_nat (be_nat (take (unat n) (s_r s))) \<and> (1 < n \<longrightarrow> s_r s ! 0 \<noteq> 0) \<and>
    t = (adv (unat n) s)\<lparr>s_kind := None\<rparr>"
proof (cases "n = 1")
  case True
  with assms show ?thesis
    by (cases "s_r s") (auto simp: s_readUint_def sbind_Ok readByte_Ok be_nat_Cons)
next
  case False
  then have "unat n \<noteq> 1" by (metis unat_1 word_unat_eq_iff)
  with assms(2) have "1 < n" by (simp add: word_less_nat_alt)
  moreover have "take (unat n) (s_r s) ! 0 = s_r s ! 0" using assms(2) by (simp add: word_less_nat_alt)
  ultimately show ?thesis using assms False
    by (auto simp: s_readUint_def sbind_Ok readFull_Ok not_less [symmetric]
        split: if_splits)
qed

text \<open>The header of a value of kind \<open>k\<close> with content size \<open>n\<close>; a single byte is its own header.\<close>

fun hd_bytes :: "kind \<Rightarrow> nat \<Rightarrow> u8 \<Rightarrow> bytes" where
  "hd_bytes Byte n v = [v]"
| "hd_bytes String n v = rlp_head 0x80 0xB7 n"
| "hd_bytes List n v = rlp_head 0xC0 0xF7 n"

lemma be_bytes_length_8: "n < 2 ^ 64 \<Longrightarrow> length (be_bytes n) \<le> 8"
  by (rule be_bytes_length_le) simp_all

lemma length_be_bytes_pos: "0 < length (be_bytes n)"
  using be_bytes_nonempty [of n] by (simp only: length_greater_0_conv simp_thms)

text \<open>A size read after the tag is the minimal big-endian form of a number from 56 on.\<close>

lemma be_nat_minimal:
  assumes "length bs \<le> 8" "bs \<noteq> []" "length bs \<noteq> 1 \<longrightarrow> hd bs \<noteq> 0" "56 \<le> (of_nat (be_nat bs) :: u64)"
  shows "bs = be_bytes (unat (of_nat (be_nat bs) :: u64))"
proof -
  have "be_nat bs < 256 ^ length bs" by (rule be_nat_less)
  also have "\<dots> \<le> 256 ^ 8" using assms(1) by (intro power_increasing) simp_all
  finally have u: "unat (of_nat (be_nat bs) :: u64) = be_nat bs" by (simp add: unat_of_nat_u64)
  have "hd bs \<noteq> 0"
  proof
    assume "hd bs = 0"
    with assms(2,3) have "bs = [0]" by (cases bs) auto
    with assms(4) show False by simp
  qed
  with assms(2) u show ?thesis by (simp add: be_bytes_be_nat)
qed

lemma readKind_long_Ok:
  assumes "ready s" "0 < n" "n \<le> 8"
  shows "s_readKind_long k n s = (Ok (k', v, None), t) \<longleftrightarrow> k' = k \<and> 56 \<le> v \<and>
    unat n = length (be_bytes (unat v)) \<and> take (unat n) (s_r s) = be_bytes (unat v) \<and>
    room (ucast n) s \<and> t = (adv (unat n) s)\<lparr>s_kind := None\<rparr>"
proof -
  have n: "0 < unat n" "unat n \<le> 8" using assms(2,3) by (simp_all add: word_less_nat_alt word_le_nat_alt)
  have "s_readKind_long k n s = (Ok (k', v, None), t) \<longleftrightarrow> k' = k \<and> 56 \<le> v \<and> s_readUint n s = (Ok v, t)"
    by (auto simp: s_readKind_long_def split: prod.splits res.splits)
  moreover have "56 \<le> v \<and> s_readUint n s = (Ok v, t) \<longleftrightarrow> 56 \<le> v \<and>
    unat n = length (be_bytes (unat v)) \<and> take (unat n) (s_r s) = be_bytes (unat v) \<and>
    room (ucast n) s \<and> t = (adv (unat n) s)\<lparr>s_kind := None\<rparr>" (is "?l \<longleftrightarrow> ?r")
  proof
    assume ?l
    then have l: "56 \<le> v" "unat n \<le> length (s_r s)" "room (ucast n) s"
        "v = of_nat (be_nat (take (unat n) (s_r s)))" "1 < n \<longrightarrow> s_r s ! 0 \<noteq> 0"
        "t = (adv (unat n) s)\<lparr>s_kind := None\<rparr>"
      using readUint_Ok [OF assms] by blast+
    let ?bs = "take (unat n) (s_r s)"
    have "length ?bs = unat n" using l(2) by simp
    moreover from this n have "?bs \<noteq> []" by force
    moreover have "length ?bs \<noteq> 1 \<longrightarrow> hd ?bs \<noteq> 0"
      using l(2,5) n by (cases "s_r s") (auto simp: word_less_nat_alt)
    ultimately have "?bs = be_bytes (unat v)" using l(1,4) n be_nat_minimal [of ?bs] by simp
    moreover from this \<open>length ?bs = unat n\<close> have "unat n = length (be_bytes (unat v))" by metis
    ultimately show ?r using l(1,3,6) by blast
  next
    assume r: ?r
    let ?bs = "take (unat n) (s_r s)"
    have "length ?bs = unat n" using r by metis
    then have len: "unat n \<le> length (s_r s)" by simp
    from r have "be_nat ?bs = unat v" by (metis be_nat_be_bytes)
    then have v: "v = of_nat (be_nat ?bs)" by (simp only: of_nat_unat ucast_id)
    have "hd (be_bytes (unat v)) \<noteq> 0"
      using r by (intro be_bytes_hd) (simp add: word_le_nat_alt)
    moreover have "hd (be_bytes (unat v)) = s_r s ! 0"
      using r len n by (metis hd_conv_nth nth_take take_eq_Nil2 be_bytes_nonempty)
    ultimately have "s_r s ! 0 \<noteq> 0" by metis
    with r len v show ?l unfolding readUint_Ok [OF assms] by blast
  qed
  ultimately show ?thesis by auto
qed

text \<open>The tag byte of a header, by range.\<close>

lemma tag_short:
  fixes b lo :: u8
  assumes "lo \<le> b" "b < lo + 56" "unat lo + 56 < 256"
  shows "rlp_head lo hi (unat (b - lo)) = [b]"
proof -
  have "unat (lo + 56) = unat lo + 56" using assms(3) by (simp add: unat_word_ariths)
  then have "unat (b - lo) < 56"
    using assms(1,2) by (simp add: unat_sub word_less_nat_alt word_le_nat_alt)
  then show ?thesis by (simp add: rlp_head_def)
qed

lemma tag_long:
  fixes b lo :: u8
  assumes "lo < b" "b \<le> lo + 8" "unat lo + 8 < 256"
  shows "0 < b - lo" "b - lo \<le> 8"
proof -
  have "unat (lo + 8) = unat lo + 8" using assms(3) by (simp add: unat_word_ariths)
  moreover have "unat (b - lo) = unat b - unat lo"
    using assms(1) by (simp add: unat_sub order_less_imp_le)
  ultimately show "0 < b - lo" "b - lo \<le> 8"
    using assms(1,2) by (simp_all add: word_less_nat_alt word_le_nat_alt)
qed

lemma room_add:
  assumes "room 1 s" "unat n < 2 ^ 32"
  shows "room n (adv 1 s) \<longleftrightarrow> room (1 + n) s"
proof (cases "s_stack s")
  case Nil
  then show ?thesis by (simp add: room_def)
next
  case (Cons l st)
  with assms(1) have "1 \<le> unat l" by (simp add: room_def word_le_nat_alt)
  moreover have "unat (1 + n) = 1 + unat n" using assms(2) by (simp add: unat_word_ariths)
  moreover from \<open>1 \<le> unat l\<close> have "unat (l - 1) = unat l - 1"
    by (simp add: unat_sub word_le_nat_alt)
  ultimately show ?thesis
    using Cons assms by (auto simp: room_def word_le_nat_alt)
qed

lemma room_mono: "room n s \<Longrightarrow> m \<le> n \<Longrightarrow> room m s"
  by (auto simp: room_def)

definition head_at :: "kind \<Rightarrow> u64 \<Rightarrow> u8 \<Rightarrow> stream \<Rightarrow> bool" where
  "head_at k sz v s \<longleftrightarrow>
    (let h = hd_bytes k (unat sz) v
     in take (length h) (s_r s) = h \<and> room (of_nat (length h)) s \<and>
        (if k = Byte then sz = 0 \<and> v < 0x80 else v = 0))"

lemma readKind_long_head:
  assumes "ready s" "s_r s = b # r'" "room 1 s" "lo < b" "b \<le> lo + 8" "unat lo + 8 < 256"
    and "\<And>n v. hd_bytes k n v = rlp_head a lo n" "k \<noteq> Byte"
    and "s_readKind_long k (b - lo) ((adv 1 s)\<lparr>s_kind := None, s_byteval := 0\<rparr>) = (Ok (k', sz, None), t)"
  shows "k' = k \<and> head_at k sz 0 s \<and>
    t = (adv (length (hd_bytes k (unat sz) 0)) s)\<lparr>s_kind := None, s_byteval := 0\<rparr>"
proof -
  let ?s = "(adv 1 s)\<lparr>s_kind := None, s_byteval := 0\<rparr>"
  have "ready ?s" using assms(1,2) by (simp add: ready_adv)
  note long = readKind_long_Ok [OF this tag_long [OF assms(4-6)]]
  note L = assms(9) [unfolded long]
  let ?n = "unat (b - lo)"
  have n8: "?n \<le> 8" using tag_long(2) [OF assms(4-6)] by (simp add: word_le_nat_alt)
  have h: "hd_bytes k (unat sz) 0 = b # be_bytes (unat sz)"
  proof -
    have "lo + of_nat (length (be_bytes (unat sz))) = b" using L by (metis add_diff_cancel_left' eq_diff_eq of_nat_unat ucast_id add.commute)
    then show ?thesis using L assms(7) by (simp add: rlp_head_def word_le_nat_alt)
  qed
  have "take (length (be_bytes (unat sz))) r' = be_bytes (unat sz)"
    using L assms(2) by (metis drop_Suc_Cons drop0 One_nat_def adv_sel(1) stream.select_convs(1)
      stream.surjective stream.update_convs(6,7))
  moreover have "room (ucast (b - lo)) (adv 1 s)" using L by (simp add: room_def)
  then have "room (1 + ucast (b - lo)) s" using assms(3) n8 by (subst (asm) room_add) simp_all
  moreover have len: "length (hd_bytes k (unat sz) 0) = Suc ?n" using L h by simp
  moreover have "(of_nat (length (hd_bytes k (unat sz) 0)) :: u64) = 1 + ucast (b - lo)"
    unfolding len of_nat_Suc of_nat_unat ..
  ultimately show ?thesis
    using L h assms(2,8) unfolding head_at_def Let_def by (simp add: adv_adv adv_upd)
qed

definition after_head :: "kind \<Rightarrow> u64 \<Rightarrow> u8 \<Rightarrow> stream \<Rightarrow> stream" where
  "after_head k sz v s = (adv (length (hd_bytes k (unat sz) v)) s)\<lparr>s_kind := None, s_byteval := v\<rparr>"

lemma readKind_sound:
  assumes "ready s" "s_readKind s = (Ok (k, sz, None), t)"
  shows "\<exists>v. head_at k sz v s \<and> t = after_head k sz v s"
proof -
  obtain b s1 where rb: "s_readByte s = (Ok b, s1)"
    using assms(2) by (auto simp: s_readKind_def split: prod.splits res.splits)
  then obtain r' where r: "s_r s = b # r'" "room 1 s" and s1: "s1 = (adv 1 s)\<lparr>s_kind := None\<rparr>"
    using readByte_Ok [OF assms(1)] by auto
  note rk = assms(2) [unfolded s_readKind_def rb, simplified Let_def, simplified]
  consider "b < 0x80" | "0x80 \<le> b" "b < 0xB8" | "0xB8 \<le> b" "b < 0xC0" | "0xC0 \<le> b" "b < 0xF8"
    | "0xF8 \<le> b" by (meson not_le)
  then show ?thesis
  proof cases
    case 1
    with rk r s1 show ?thesis by (intro exI [of _ b]) (auto simp: head_at_def after_head_def)
  next
    case 2
    with rk have "k = String" "sz = ucast (b - 0x80)" "t = s1\<lparr>s_byteval := 0\<rparr>"
      by (auto simp: not_less split: if_splits)
    with 2 r s1 tag_short [of "0x80" b "0xB7"] show ?thesis
      by (intro exI [of _ 0]) (auto simp: head_at_def after_head_def)
  next
    case 3
    then have "0xB7 < b" "b \<le> 0xB7 + 8" by (simp_all add: word_less_nat_alt word_le_nat_alt)
    moreover from 3 have "\<not> b < 0x80" "\<not> b < 0xB8" by (simp_all add: word_less_nat_alt word_le_nat_alt)
    ultimately show ?thesis
      using rk 3 s1 readKind_long_head [OF assms(1) r, of "0xB7" String "0x80" k sz t] by (auto simp: after_head_def)
  next
    case 4
    then have "\<not> b < 0x80" "\<not> b < 0xB8" "\<not> b < 0xC0" by (simp_all add: word_less_nat_alt word_le_nat_alt)
    with rk 4 have "k = List" "sz = ucast (b - 0xC0)" "t = s1\<lparr>s_byteval := 0\<rparr>" by auto
    with 4 r s1 tag_short [of "0xC0" b "0xF7"] show ?thesis
      by (intro exI [of _ 0]) (auto simp: head_at_def after_head_def)
  next
    case 5
    have "unat b \<le> 255" using less_Suc_eq_le [of "unat b" 255] by simp
    with 5 have "0xF7 < b" "b \<le> 0xF7 + 8" by (simp_all add: word_less_nat_alt word_le_nat_alt)
    moreover from 5 have "\<not> b < 0x80" "\<not> b < 0xB8" "\<not> b < 0xC0" "\<not> b < 0xF8"
      by (simp_all add: word_less_nat_alt word_le_nat_alt)
    ultimately show ?thesis
      using rk s1 readKind_long_head [OF assms(1) r, of "0xF7" List "0xC0" k sz t] by (auto simp: after_head_def)
  qed
qed

lemma readByte_head:
  assumes "ready s" "take (length (b # h)) (s_r s) = b # h" "room (of_nat (length (b # h))) s" "length h \<le> 8"
  shows "s_readByte s = (Ok b, (adv 1 s)\<lparr>s_kind := None\<rparr>)" "room 1 s" "room (of_nat (length h)) (adv 1 s)"
    "take (length h) (s_r (adv 1 s)) = h"
proof -
  obtain r' where r: "s_r s = b # r'" "take (length h) r' = h" using assms(2) by (cases "s_r s") auto
  have u: "unat (of_nat (length h) :: u64) = length h" using assms(4) by (simp add: unat_of_nat_u64)
  have "(1::u64) \<le> 1 + of_nat (length h)"
    using assms(4) u by (simp add: word_le_nat_alt unat_word_ariths)
  with assms(3) show r1: "room 1 s" by (simp add: room_mono)
  with r show "s_readByte s = (Ok b, (adv 1 s)\<lparr>s_kind := None\<rparr>)" by (simp add: readByte_Ok assms(1))
  show "room (of_nat (length h)) (adv 1 s)" 
    using room_add [OF r1, of "of_nat (length h)"] assms(3,4) u by simp
  show "take (length h) (s_r (adv 1 s)) = h" using r by simp
qed

lemma readKind_complete_long:
  fixes lo a :: u8
  assumes "ready s" "head_at k sz v s" "56 \<le> sz"
    and k: "(k, lo, a) \<in> {(String, 0xB7, 0x80), (List, 0xF7, 0xC0)}"
  shows "s_readKind s = (Ok (k, sz, None), after_head k sz v s)"
proof -
  let ?h = "be_bytes (unat sz)" and ?b = "lo + of_nat (length (be_bytes (unat sz)))"
  have len: "length ?h \<le> 8" "0 < length ?h"
    using unsigned_less [of sz, where 'a = nat] length_be_bytes_pos
    by (simp_all add: be_bytes_length_8)
  have hd: "hd_bytes k (unat sz) v = ?b # ?h" and v: "v = 0" using k assms(2,3)
    by (auto simp: rlp_head_def word_le_nat_alt head_at_def)
  have rb: "s_readByte s = (Ok ?b, (adv 1 s)\<lparr>s_kind := None\<rparr>)" "room 1 s"
      "room (of_nat (length ?h)) (adv 1 s)" "take (length ?h) (s_r (adv 1 s)) = ?h"
    using readByte_head [OF assms(1) _ _ len(1)] assms(2) unfolding head_at_def Let_def hd by blast+
  have un: "unat (of_nat (length ?h) :: u8) = length ?h" using len by (simp add: unat_of_nat_u8)
  have uc: "(ucast (of_nat (length ?h) :: u8) :: u64) = of_nat (length ?h)"
    by (metis of_nat_unat un)
  have rd: "ready ((adv 1 s)\<lparr>s_kind := None, s_byteval := 0\<rparr>)"
    using assms(1) rb(4) len(2) by (cases "s_r s") (auto simp: ready_adv)
  have "0 < (of_nat (length ?h) :: u8)" "(of_nat (length ?h) :: u8) \<le> 8"
    using len un by (simp_all add: word_less_nat_alt word_le_nat_alt)
  from readKind_long_Ok [OF rd this]
  have "s_readKind_long k (of_nat (length ?h)) ((adv 1 s)\<lparr>s_kind := None, s_byteval := 0\<rparr>)
      = (Ok (k, sz, None), (adv (length (?b # ?h)) s)\<lparr>s_kind := None, s_byteval := v\<rparr>)"
    using assms(3) rb v by (simp add: un uc adv_adv adv_upd)
  moreover have "unat ?b = unat lo + length ?h"
    using k un len by (auto simp: unat_word_ariths)
  ultimately show ?thesis
    using k len rb(1) hd by (auto simp: s_readKind_def after_head_def word_less_nat_alt Let_def)
qed

lemma readKind_complete_short:
  assumes "ready s" "head_at k sz v s" "sz < 56" "k \<noteq> Byte"
  shows "s_readKind s = (Ok (k, sz, None), after_head k sz v s)"
proof -
  define a :: u8 where "a = (if k = String then 0x80 else 0xC0)"
  have hd: "hd_bytes k (unat sz) v = [a + ucast sz]"
    using assms(3,4) by (cases k) (auto simp: rlp_head_def word_less_nat_alt a_def)
  have v: "v = 0" using assms(2,4) by (auto simp: head_at_def Let_def)
  have rb: "s_readByte s = (Ok (a + ucast sz), (adv 1 s)\<lparr>s_kind := None\<rparr>)"
    using readByte_head(1) [OF assms(1), of "a + ucast sz" "[]"] assms(2)
    unfolding head_at_def Let_def hd by simp
  have u: "unat (ucast sz :: u8) = unat sz" using assms(3)
    by (simp add: unsigned_ucast_eq take_bit_nat_eq_self word_less_nat_alt)
  have uc: "ucast (ucast sz :: u8) = sz" using u by (metis of_nat_unat ucast_id)
  have "unat (a + ucast sz) = unat a + unat sz"
    using assms(3) u by (auto simp: unat_word_ariths a_def word_less_nat_alt)
  then show ?thesis
    using assms(3,4) rb hd u uc v
    by (cases k) (auto simp: s_readKind_def after_head_def word_less_nat_alt Let_def a_def)
qed

lemma readKind_complete:
  assumes "ready s" "head_at k sz v s"
  shows "s_readKind s = (Ok (k, sz, None), after_head k sz v s)"
proof (cases k)
  case Byte
  with assms readByte_head [OF assms(1), of v "[]"] show ?thesis
    by (auto simp: head_at_def Let_def s_readKind_def after_head_def)
next
  case String
  then show ?thesis
    using assms readKind_complete_short readKind_complete_long [of s k sz v "0xB7" "0x80"]
    by (cases "sz < 56") auto
next
  case List
  then show ?thesis
    using assms readKind_complete_short readKind_complete_long [of s k sz v "0xF7" "0xC0"]
    by (cases "sz < 56") auto
qed

text \<open>\<open>Kind\<close> succeeds exactly on a complete header whose content fits.\<close>

lemma length_hd_bytes: "0 < length (hd_bytes k n v)"
  by (cases k) (auto simp: rlp_head_def)

lemma length_hd_bytes_le: "n < 2 ^ 64 \<Longrightarrow> length (hd_bytes k n v) \<le> 9"
  using be_bytes_length_8 [of n] by (cases k) (auto simp: rlp_head_def)

lemma head_at_length: "head_at k sz v s \<Longrightarrow> length (hd_bytes k (unat sz) v) \<le> length (s_r s)"
  by (auto simp: head_at_def Let_def dest: arg_cong [of _ _ length])

lemma room_pos: "room n s \<Longrightarrow> 0 < n \<Longrightarrow> \<not> (fst (listLimit s) \<and> snd (listLimit s) = 0)"
  by (auto simp: room_def listLimit_def word_less_nat_alt word_le_nat_alt split: list.splits)

definition kind_known :: "kind \<Rightarrow> u64 \<Rightarrow> u8 \<Rightarrow> stream \<Rightarrow> stream" where
  "kind_known k sz v s = (after_head k sz v s)\<lparr>s_kind := Some k, s_size := sz, s_kinderr := None\<rparr>"

lemma Kind_Ok:
  assumes "ready s" "s_kind s = None"
  shows "s_Kind s = (Ok (k, sz), t) \<longleftrightarrow>
    (\<exists>v. head_at k sz v s \<and> room sz s \<and> length (hd_bytes k (unat sz) v) + unat sz \<le> length (s_r s) \<and>
       t = kind_known k sz v s)"
proof -
  have sz: "sz \<le> s_remaining (after_head k sz v s) \<longleftrightarrow>
      length (hd_bytes k (unat sz) v) + unat sz \<le> length (s_r s)" if "head_at k sz v s" for v
  proof -
    let ?h = "length (hd_bytes k (unat sz) v)"
    have "s_remaining (after_head k sz v s) = of_nat (length (s_r s) - ?h)"
      using assms(1) head_at_length [OF that] by (simp add: after_head_def ready_def of_nat_diff)
    moreover have "length (drop ?h (s_r s)) < 2 ^ 64" using assms(1) by (auto simp: ready_def)
    ultimately show ?thesis
      using u64_le_of_nat [of "drop ?h (s_r s)" sz] head_at_length [OF that] by auto
  qed
  have room: "\<not> (fst (listLimit s) \<and> snd (listLimit s) < sz) \<longleftrightarrow> room sz s"
    by (auto simp: room_def listLimit_def not_less split: list.splits)
  have lim: "s_limited (after_head k sz v s)" for v
    using assms(1) by (simp add: after_head_def ready_def)
  show ?thesis (is "?l \<longleftrightarrow> ?r")
  proof
    assume ?l
    then obtain s' where "s_readKind s = (Ok (k, sz, None), s')" and
        t: "\<not> (fst (listLimit s) \<and> snd (listLimit s) < sz)" "\<not> (s_limited s' \<and> s_remaining s' < sz)"
        "t = s'\<lparr>s_kind := Some k, s_size := sz, s_kinderr := None\<rparr>"
      using assms(2) by (auto simp: s_Kind_def s_cached_def Let_def
          split: prod.splits res.splits option.splits if_splits)
    moreover from this(1) obtain v where "head_at k sz v s" "s' = after_head k sz v s"
      using readKind_sound assms(1) by blast
    ultimately show ?r using room sz lim unfolding kind_known_def by (auto simp: not_less)
  next
    assume ?r
    then obtain v where v: "head_at k sz v s" "room sz s"
        "length (hd_bytes k (unat sz) v) + unat sz \<le> length (s_r s)" "t = kind_known k sz v s"
      by blast
    let ?h = "length (hd_bytes k (unat sz) v)"
    have "?h \<le> 9" using unsigned_less [of sz, where 'a = nat] by (simp add: length_hd_bytes_le)
    then have "(0 :: u64) < of_nat ?h"
      using length_hd_bytes [of k "unat sz" v] by (simp add: word_less_nat_alt unat_of_nat_u64)
    with v(1) have "\<not> (fst (listLimit s) \<and> snd (listLimit s) = 0)"
      by (intro room_pos) (auto simp: head_at_def Let_def)
    then show ?l
      using readKind_complete [OF assms(1) v(1)] v(2-4) sz [OF v(1)] room lim assms(2)
      by (auto simp: s_Kind_def s_cached_def Let_def kind_known_def not_less split: prod.splits)
  qed
qed

lemma Kind_cached: "s_Kind (kind_known k sz v s) = (Ok (k, sz), kind_known k sz v s)"
  by (simp add: kind_known_def s_Kind_def s_cached_def)

lemma kind_known_sel [simp]:
  "s_r (kind_known k sz v s) = drop (length (hd_bytes k (unat sz) v)) (s_r s)"
  "s_byteval (kind_known k sz v s) = v"
  "s_stack (kind_known k sz v s) = s_stack (adv (length (hd_bytes k (unat sz) v)) s)"
  by (simp_all add: kind_known_def after_head_def)

lemma ready_kind_known: "ready s \<Longrightarrow> head_at k sz v s \<Longrightarrow> ready (kind_known k sz v s)"
  by (simp add: kind_known_def after_head_def ready_adv head_at_length)

section \<open>Decoding a value\<close>

text \<open>\<open>consumed n s t\<close>: \<open>t\<close> is the stream \<open>s\<close> after \<open>n\<close> bytes, with no header read ahead.\<close>

definition consumed :: "nat \<Rightarrow> stream \<Rightarrow> stream \<Rightarrow> bool" where
  "consumed n s t \<longleftrightarrow> n \<le> length (s_r s) \<and> ready t \<and> s_kind t = None \<and>
     s_r t = drop n (s_r s) \<and> s_stack t = s_stack (adv n s)"

lemma consumed_trans: "consumed n s t \<Longrightarrow> consumed m t u \<Longrightarrow> consumed (n + m) s u"
  by (auto simp: consumed_def add.commute algebra_simps split: list.splits)

definition next_is :: "bytes \<Rightarrow> stream \<Rightarrow> bool" where
  "next_is bs s \<longleftrightarrow> take (length bs) (s_r s) = bs"

lemma next_is_append: "next_is (a @ b) s \<longleftrightarrow> next_is a s \<and> take (length b) (drop (length a) (s_r s)) = b"
proof (cases "length a \<le> length (s_r s)")
  case True
  then show ?thesis by (simp add: next_is_def take_add)
next
  case False
  then show ?thesis by (auto simp: next_is_def dest: arg_cong [of _ _ length])
qed

lemma next_is_length: "next_is bs s \<Longrightarrow> length bs \<le> length (s_r s)"
  by (auto simp: next_is_def dest: arg_cong [of _ _ length])

lemma Bytes_known:
  assumes "ready s" "head_at k sz v s" "k \<noteq> List"
  shows "s_Bytes (kind_known k sz v s) = (Ok b, t) \<longleftrightarrow>
    length (hd_bytes k (unat sz) v) + unat sz \<le> length (s_r s) \<and>
    (if k = Byte then b = [v]
     else room sz (adv (length (hd_bytes k (unat sz) v)) s) \<and>
       b = take (unat sz) (drop (length (hd_bytes k (unat sz) v)) (s_r s)) \<and> \<not> (sz = 1 \<and> b ! 0 < 128)) \<and>
    t = (adv (unat sz) (kind_known k sz v s))\<lparr>s_kind := None\<rparr>"
proof (cases k)
  case Byte
  with assms(2) have "sz = 0" by (simp add: head_at_def)
  with Byte assms head_at_length [OF assms(2)] show ?thesis
    by (auto simp: s_Bytes_def sbind_Ok Kind_cached adv_0)
next
  case String
  have "room sz (kind_known k sz v s) = room sz (adv (length (hd_bytes k (unat sz) v)) s)"
    by (simp add: room_def)
  with String head_at_length [OF assms(2)] show ?thesis
    using readFull_Ok [OF ready_kind_known [OF assms(1,2)]]
    by (auto simp: s_Bytes_def sbind_Ok Kind_cached split: if_splits)
next
  case List
  with assms(3) show ?thesis by simp
qed

lemma Bytes_sound:
  assumes "ready s" "s_kind s = None" "s_Kind s = (Ok (k, sz), s')" "k \<noteq> List" "s_Bytes s' = (Ok b, t)"
  shows "consumed (length (rlp (Str b))) s t \<and> next_is (rlp (Str b)) s"
proof -
  obtain v where v: "head_at k sz v s" "s' = kind_known k sz v s"
      "length (hd_bytes k (unat sz) v) + unat sz \<le> length (s_r s)"
    using assms(1-3) Kind_Ok by blast
  let ?h = "hd_bytes k (unat sz) v"
  have B: "if k = Byte then b = [v]
     else b = take (unat sz) (drop (length ?h) (s_r s)) \<and> \<not> (sz = 1 \<and> b ! 0 < 128)"
    and t: "t = (adv (unat sz) (kind_known k sz v s))\<lparr>s_kind := None\<rparr>"
    using assms(5) v(2) Bytes_known [OF assms(1) v(1) assms(4)] by (auto split: if_splits)
  have enc: "rlp (Str b) = ?h @ take (unat sz) (drop (length ?h) (s_r s))"
  proof (cases "k = Byte")
    case True
    with B v(1) show ?thesis by (auto simp: head_at_def)
  next
    case False
    with assms(4) have k: "k = String" by (cases k) auto
    with B have b: "b = take (unat sz) (drop (length ?h) (s_r s))" "\<not> (sz = 1 \<and> b ! 0 < 128)" by auto
    then have "length b = unat sz" using v(3) by simp
    moreover have "sz = 1 \<longleftrightarrow> unat sz = 1" by (metis unat_1 word_unat_eq_iff)
    ultimately show ?thesis using b k by (auto simp: word_less_nat_alt)
  qed
  then have len: "length (rlp (Str b)) = length ?h + unat sz" using v(3) by simp
  have "s_stack t = s_stack (adv (length ?h + unat sz) s)"
    using t by (simp add: algebra_simps split: list.split)
  moreover have "ready t"
    using t v(3) ready_kind_known [OF assms(1) v(1)] by (simp add: ready_adv)
  ultimately have "consumed (length ?h + unat sz) s t"
    using t v(3) by (simp add: consumed_def add.commute)
  moreover have "next_is (rlp (Str b)) s"
    unfolding enc next_is_append using v by (simp add: next_is_def head_at_def Let_def)
  ultimately show ?thesis unfolding len by simp
qed

lemma room_adv:
  assumes "room (of_nat n) s" "m + k \<le> n" "n < 2 ^ 64"
  shows "room (of_nat k) (adv m s)"
proof (cases "s_stack s")
  case (Cons l st)
  have "unat (of_nat n :: u64) = n" "unat (of_nat m :: u64) = m" "unat (of_nat k :: u64) = k"
    using assms(2,3) by (simp_all add: unat_of_nat_u64)
  moreover from this Cons assms(1) have "n \<le> unat l" by (simp add: room_def word_le_nat_alt)
  ultimately show ?thesis
    using Cons assms(2) by (simp add: room_def word_le_nat_alt unat_sub)
qed (simp add: room_def)

lemmas room_le = room_adv [where m = 0, unfolded adv_0 add_0]

lemma Bytes_complete:
  assumes "ready s" "s_kind s = None" "next_is (rlp (Str b)) s" "room (of_nat (length (rlp (Str b)))) s"
  shows "\<exists>k sz s' t. s_Kind s = (Ok (k, sz), s') \<and> k \<noteq> List \<and> s_Bytes s' = (Ok b, t)"
proof (cases "length b = 1 \<and> b ! 0 < 0x80")
  case True
  then obtain v where b: "b = [v]" "v < 0x80" by (cases b) auto
  with assms have "head_at Byte 0 v s" by (simp add: head_at_def next_is_def)
  moreover have "room 0 s" by (simp add: room_def)
  ultimately show ?thesis
    using Bytes_known [OF assms(1), of Byte 0 v b] Kind_Ok [OF assms(1,2), of Byte 0] head_at_length [of Byte 0 v s] b
    by (intro exI [of _ Byte] exI [of _ 0]) auto
next
  case False
  have len: "length (s_r s) < 2 ^ 64" using assms(1) by (simp add: ready_def)
  define sz :: u64 where "sz = of_nat (length b)"
  have enc: "rlp (Str b) = rlp_head 0x80 0xB7 (length b) @ b" using False by auto
  have "length (rlp (Str b)) \<le> length (s_r s)" using assms(3) by (rule next_is_length)
  then have lb: "length (rlp_head 0x80 0xB7 (length b)) + length b \<le> length (s_r s)" using enc by simp
  then have sz: "unat sz = length b" using len by (simp add: sz_def unat_of_nat_u64)
  let ?h = "hd_bytes String (unat sz) 0"
  have h: "?h = rlp_head 0x80 0xB7 (length b)" by (simp add: sz)
  have n: "length ?h + length b \<le> length (rlp (Str b))" "length (rlp (Str b)) < 2 ^ 64"
    using lb len enc h by simp_all
  have rh: "room (of_nat (length ?h)) s" by (rule room_le [OF assms(4) _ n(2)], rule order_trans [OF _ n(1)]) simp
  have rs: "room sz s" unfolding sz_def
    by (rule room_le [OF assms(4) _ n(2)], rule order_trans [OF _ n(1)]) simp
  have room: "room sz (adv (length ?h) s)"
    by (rule room_adv [OF assms(4) n, folded sz_def])
  have "next_is ?h s" and take: "take (length b) (drop (length ?h) (s_r s)) = b"
    using assms(3) unfolding enc next_is_append h by auto
  then have hd: "head_at String sz 0 s" unfolding head_at_def Let_def next_is_def using rh by simp
  have canon: "\<not> (sz = 1 \<and> b ! 0 < 128)" using False sz by (auto simp: word_less_nat_alt)
  have fits: "length ?h + unat sz \<le> length (s_r s)" using lb h sz by simp
  have content: "b = take (unat sz) (drop (length ?h) (s_r s))" using take sz by metis
  have neq: "String \<noteq> List" "String \<noteq> Byte" by simp_all
  have "s_Bytes (kind_known String sz 0 s) =
      (Ok b, (adv (unat sz) (kind_known String sz 0 s))\<lparr>s_kind := None\<rparr>)"
    unfolding Bytes_known [OF assms(1) hd neq(1)] if_not_P [OF neq(2)]
    by (intro conjI refl fits room content canon)
  moreover have "s_Kind s = (Ok (String, sz), kind_known String sz 0 s)"
    using Kind_Ok [OF assms(1,2)] hd rs fits by blast
  ultimately show ?thesis by blast
qed

text \<open>Opening a list moves its size from the enclosing limit to a new limit; closing it needs the
  new limit to be used up.\<close>

definition opened :: "u64 \<Rightarrow> u8 \<Rightarrow> stream \<Rightarrow> stream" where
  "opened sz v s = (kind_known List sz v s)\<lparr>s_stack := sz # s_stack (adv (length (hd_bytes List (unat sz) v) + unat sz) s),
     s_kind := None, s_size := 0\<rparr>"

lemma List_known: "s_List (kind_known List sz v s) = (Ok sz, opened sz v s)"
  unfolding s_List_def sbind_def Kind_cached
  by (cases "s_stack s") (auto simp: listLimit_def set_limit_def opened_def Let_def
      kind_known_def after_head_def algebra_simps)

lemma opened_sel [simp]:
  "s_r (opened sz v s) = drop (length (hd_bytes List (unat sz) v)) (s_r s)"
  "s_kind (opened sz v s) = None"
  "s_stack (opened sz v s) = sz # s_stack (adv (length (hd_bytes List (unat sz) v) + unat sz) s)"
  by (simp_all add: opened_def)

lemma ready_opened: "ready s \<Longrightarrow> head_at List sz v s \<Longrightarrow> ready (opened sz v s)"
  by (simp add: opened_def ready_kind_known)

lemma ListEnd_Ok: "s_ListEnd t = (Ok u, t') \<longleftrightarrow>
    (\<exists>st. s_stack t = 0 # st \<and> t' = t\<lparr>s_stack := st, s_kind := None, s_size := 0\<rparr>)"
  by (auto simp: s_ListEnd_def listLimit_def word_gt_0 split: list.splits if_splits)

lemma decodeInterface_Ok:
  "decodeInterface (Suc f) s = (Ok x, t) \<longleftrightarrow>
    (\<exists>k sz s'. s_Kind s = (Ok (k, sz), s') \<and>
      (if k = List then
         (\<exists>sz' u. s_List s' = (Ok sz', u) \<and>
            (if sz' = 0 then x = Lst [] \<and> s_ListEnd u = (Ok (), t)
             else (\<exists>xs w. decodeSliceElems f u = (Ok xs, w) \<and> s_ListEnd w = (Ok (), t) \<and> x = Lst xs)))
       else (\<exists>b. s_Bytes s' = (Ok b, t) \<and> x = Str b)))"
  unfolding decodeInterface.simps sbind_Ok by (auto simp: sbind_Ok split: if_splits; blast)

lemma decodeSliceElems_Ok:
  "decodeSliceElems (Suc f) s = (Ok xs, t) \<longleftrightarrow>
    (\<exists>x xs' s'. decodeInterface f s = (Ok x, s') \<and> decodeSliceElems f s' = (Ok xs', t) \<and> xs = x # xs')
    \<or> (decodeInterface f s = (Err EOL, t) \<and> xs = [])"
  by (auto simp: sbind_Ok split: prod.splits res.splits if_splits)

lemma sound_list:
  assumes "ready s" "head_at List sz v s"
    and closed: "s_ListEnd w = (Ok (), t)"
    and IH: "consumed (length (rlp_all xs)) (opened sz v s) w" "next_is (rlp_all xs) (opened sz v s)"
  shows "consumed (length (rlp (Lst xs))) s t \<and> next_is (rlp (Lst xs)) s"
proof -
  let ?h = "hd_bytes List (unat sz) v" and ?n = "length (rlp_all xs)"
  obtain st where st: "s_stack w = 0 # st" "t = w\<lparr>s_stack := st, s_kind := None, s_size := 0\<rparr>"
    using closed unfolding ListEnd_Ok by blast
  have w: "?n \<le> length (s_r s) - length ?h" "ready w" "s_r w = drop (length ?h + ?n) (s_r s)"
      "s_stack w = (sz - of_nat ?n) # s_stack (adv (length ?h + unat sz) s)"
    using IH(1) by (simp_all add: consumed_def add.commute)
  have "sz = of_nat ?n" using w(4) st(1) by simp
  moreover have "?n < 2 ^ 64" using w(1) assms(1) by (auto simp: ready_def)
  ultimately have sz: "unat sz = ?n" by (simp add: unat_of_nat_u64)
  have enc: "rlp (Lst xs) = ?h @ rlp_all xs" by (simp add: sz)
  have "s_stack t = s_stack (adv (length ?h + ?n) s)" using w(4) st sz by simp
  then have "consumed (length ?h + ?n) s t"
    using w st(2) head_at_length [OF assms(2)] by (simp add: consumed_def)
  moreover have "next_is (rlp (Lst xs)) s"
    unfolding enc next_is_append using assms(2) IH(2) by (simp add: next_is_def head_at_def Let_def)
  ultimately show ?thesis unfolding enc by simp
qed

text \<open>No operation other than \<open>Kind\<close> at the end of a list reports \<open>EOL\<close>, and none panics or hits
  the recursion bound.\<close>

definition proper :: "(rlp_error, 'a) res \<Rightarrow> bool" where
  "proper r \<longleftrightarrow> r \<noteq> Panic \<and> r \<noteq> Err OutOfFuel \<and> r \<noteq> Err EOL"

lemma proper_simps [simp]: "proper (Ok x)" "proper (Err e) \<longleftrightarrow> e \<noteq> OutOfFuel \<and> e \<noteq> EOL" "\<not> proper Panic"
  by (auto simp: proper_def)

lemma proper_sbind:
  "proper (fst (m s)) \<Longrightarrow> (\<And>x s'. m s = (Ok x, s') \<Longrightarrow> proper (fst (f x s'))) \<Longrightarrow> proper (fst (sbind m f s))"
  by (auto simp: sbind_def split: prod.splits res.splits)

lemma proper_willRead: "proper (fst (willRead n s))"
  by (auto simp: willRead_def Let_def split: prod.splits if_splits)

lemma proper_readByte: "proper (fst (s_readByte s))"
  unfolding s_readByte_def by (intro proper_sbind proper_willRead) (auto split: list.splits)

lemma proper_readFull: "proper (fst (s_readFull n s))"
  unfolding s_readFull_def by (intro proper_sbind proper_willRead) auto

lemma proper_readUint: "n \<le> 8 \<Longrightarrow> proper (fst (s_readUint n s))"
  by (auto simp: s_readUint_def sret_def sthrow_def not_less [symmetric]
      intro!: proper_sbind proper_readByte proper_readFull)

lemma proper_readKind_long:
  assumes "n \<le> 8" "s_readKind_long k n s = (r, t)"
  shows "\<exists>k' sz err. r = Ok (k', sz, err) \<and> err \<noteq> Some EOL \<and> err \<noteq> Some OutOfFuel"
  using proper_readUint [OF assms(1), of s] assms(2)
  by (auto simp: s_readKind_long_def split: prod.splits res.splits)

lemma proper_readKind:
  "s_readKind s = (r, t) \<Longrightarrow> \<exists>k' sz err. r = Ok (k', sz, err) \<and> err \<noteq> Some EOL \<and> err \<noteq> Some OutOfFuel"
proof -
  have *: "b < 0xC0 \<Longrightarrow> \<not> b < 0xB8 \<Longrightarrow> b - 0xB7 \<le> 8" "\<not> b < 0xF8 \<Longrightarrow> b - 0xF7 \<le> 8" for b :: u8
  proof -
    have "unat b \<le> 255" using less_Suc_eq_le [of "unat b" 255] by simp
    then show "b < 0xC0 \<Longrightarrow> \<not> b < 0xB8 \<Longrightarrow> b - 0xB7 \<le> 8" "\<not> b < 0xF8 \<Longrightarrow> b - 0xF7 \<le> 8"
      by (simp_all add: word_less_nat_alt word_le_nat_alt unat_sub)
  qed
  assume "s_readKind s = (r, t)"
  then show ?thesis
    using proper_readByte [of s]
    by (auto simp: s_readKind_def Let_def dest: proper_readKind_long [OF *(1)] proper_readKind_long [OF *(2)]
        split: prod.splits res.splits if_splits)
qed

lemma Kind_EOL: "s_Kind s = (Err EOL, t) \<Longrightarrow> s_kind s = None \<Longrightarrow> t = s \<and> (\<exists>st. s_stack s = 0 # st)"
  by (auto simp: s_Kind_def s_cached_def Let_def listLimit_def
      split: prod.splits res.splits option.splits list.splits if_splits dest!: proper_readKind)

lemma Kind_benign: "s_kind s = None \<Longrightarrow> s_Kind s = (r, t) \<Longrightarrow> r \<noteq> Panic \<and> r \<noteq> Err OutOfFuel"
  by (auto simp: s_Kind_def s_cached_def Let_def listLimit_def
      split: prod.splits res.splits option.splits list.splits if_splits dest!: proper_readKind)

lemma proper_ListEnd: "proper (fst (s_ListEnd s))"
  by (auto simp: s_ListEnd_def split: prod.splits)

lemma proper_Bytes: "proper (fst (s_Bytes (kind_known k sz v s)))"
proof -
  have "proper (fst (sbind (s_readFull sz) (\<lambda>b. if sz = 1 \<and> b ! 0 < 128 then sthrow ErrCanonSize else sret b) s'))" for s'
    by (intro proper_sbind proper_readFull) (auto simp: sthrow_def sret_def)
  then show ?thesis
    unfolding s_Bytes_def sbind_def [of s_Kind] Kind_cached by (cases k) (auto simp: sthrow_def)
qed

lemma Elems_not_EOL: "decodeSliceElems f s \<noteq> (Err EOL, t)"
  by (induction f arbitrary: s t) (auto simp: sbind_def sret_def split: prod.splits res.splits)

text \<open>What \<open>decodeInterface\<close> does after \<open>Kind\<close> has succeeded.\<close>

lemma decodeInterface_known:
  assumes "s_Kind s = (Ok (k, sz), kind_known k sz v s)"
  shows "decodeInterface (Suc f) s =
    (if k = List then
       (if sz = 0 then sbind s_ListEnd (\<lambda>_. sret (Lst [])) (opened sz v s)
        else sbind (decodeSliceElems f) (\<lambda>xs. sbind s_ListEnd (\<lambda>_. sret (Lst xs))) (opened sz v s))
     else sbind s_Bytes (\<lambda>b. sret (Str b)) (kind_known k sz v s))"
  by (simp add: sbind_def [of s_Kind] assms List_known sbind_def [of s_List])

declare decodeInterface.simps(2) [simp del] decodeSliceElems.simps(2) [simp del]

lemma sbind_Err: "sbind m f s = (Err e, t) \<longleftrightarrow> m s = (Err e, t) \<or> (\<exists>x s'. m s = (Ok x, s') \<and> f x s' = (Err e, t))"
  by (auto simp: sbind_def split: prod.split res.split)

lemma sbind_Panic: "sbind m f s = (Panic, t) \<longleftrightarrow> m s = (Panic, t) \<or> (\<exists>x s'. m s = (Ok x, s') \<and> f x s' = (Panic, t))"
  by (auto simp: sbind_def split: prod.split res.split)

lemma proper_not: "proper (fst p) \<Longrightarrow> p \<noteq> (Err EOL, t)" "proper (fst p) \<Longrightarrow> p \<noteq> (Err OutOfFuel, t)"
    "proper (fst p) \<Longrightarrow> p \<noteq> (Panic, t)"
  by auto

lemma decode_EOL:
  assumes "ready s" "s_kind s = None" "decodeInterface f s = (Err EOL, t)"
  shows "t = s \<and> (\<exists>st. s_stack s = 0 # st)"
proof (cases f)
  case 0
  with assms(3) show ?thesis by simp
next
  case (Suc f')
  show ?thesis
  proof (cases "s_Kind s = (Err EOL, t)")
    case True
    with assms(2) show ?thesis using Kind_EOL by blast
  next
    case False
    with assms(3) Suc obtain k sz s' where k: "s_Kind s = (Ok (k, sz), s')" by (auto simp: sbind_Err decodeInterface.simps)
    then obtain v where "s' = kind_known k sz v s" using Kind_Ok [OF assms(1,2)] by blast
    with k assms(3) Suc show ?thesis
      using proper_not(1) [OF proper_ListEnd] proper_not(1) [OF proper_Bytes] Elems_not_EOL
      by (auto simp: decodeInterface_known sbind_Err sret_def split: if_splits)
  qed
qed

lemma decode_sound:
  "ready s \<Longrightarrow> s_kind s = None \<Longrightarrow> decodeInterface f s = (Ok x, t) \<Longrightarrow>
     consumed (length (rlp x)) s t \<and> next_is (rlp x) s"
  "ready s \<Longrightarrow> s_kind s = None \<Longrightarrow> decodeSliceElems f s = (Ok xs, t) \<Longrightarrow>
     consumed (length (rlp_all xs)) s t \<and> next_is (rlp_all xs) s"
proof (induction f arbitrary: s t x xs)
  case 0
  { case 1 then show ?case by simp }
  { case 2 then show ?case by simp }
next
  case (Suc f)
  { case (1 s t x)
    then obtain k sz v where kd: "s_Kind s = (Ok (k, sz), kind_known k sz v s)" and hd: "head_at k sz v s"
      unfolding decodeInterface_Ok using Kind_Ok [OF 1(1,2)] by blast
    show ?case
    proof (cases "k = List")
      case False
      with 1 kd show ?thesis by (auto simp: decodeInterface_known sbind_Ok simp del: rlp.simps dest: Bytes_sound)
    next
      case True
      note ro = ready_opened [OF 1(1) hd [unfolded True]]
      have "\<exists>xs w. x = Lst xs \<and> s_ListEnd w = (Ok (), t) \<and>
          consumed (length (rlp_all xs)) (opened sz v s) w \<and> next_is (rlp_all xs) (opened sz v s)"
      proof (cases "sz = 0")
        case True
        with 1 kd ro \<open>k = List\<close> show ?thesis
          by (intro exI [of _ "[]"] exI [of _ "opened sz v s"])
            (auto simp: decodeInterface_known sbind_Ok consumed_def next_is_def split: list.splits)
      next
        case False
        with 1 kd \<open>k = List\<close> show ?thesis
          using Suc.IH(2) [OF ro] by (auto simp: decodeInterface_known sbind_Ok)
      qed
      then show ?thesis using sound_list [OF 1(1) hd [unfolded True]] by blast
    qed }
  { case (2 s t xs)
    then consider (more) x xs' s' where "decodeInterface f s = (Ok x, s')" "decodeSliceElems f s' = (Ok xs', t)" "xs = x # xs'"
      | (eol) "decodeInterface f s = (Err EOL, t)" "xs = []"
      unfolding decodeSliceElems_Ok by blast
    then show ?case
    proof cases
      case more
      then have a: "consumed (length (rlp x)) s s'" "next_is (rlp x) s" using Suc.IH(1) 2(1,2) by blast+
      then have "ready s'" "s_kind s' = None" "s_r s' = drop (length (rlp x)) (s_r s)" by (auto simp: consumed_def)
      moreover from this have "consumed (length (rlp_all xs')) s' t" "next_is (rlp_all xs') s'"
        using Suc.IH(2) more(2) by blast+
      ultimately show ?thesis
        using a more(3) consumed_trans unfolding next_is_def [of _ s'] by (auto simp: next_is_append)
    next
      case eol
      then have "t = s" using decode_EOL 2(1,2) by blast
      with eol 2(1,2) show ?thesis by (auto simp: consumed_def next_is_def split: list.splits)
    qed }
qed

lemma length_rlp_pos: "0 < length (rlp x)"
  using length_be_bytes_pos by (cases x) (auto simp: rlp_head_def)

lemma complete_Kind_List:
  assumes "ready s" "s_kind s = None" "next_is (rlp (Lst xs)) s" "room (of_nat (length (rlp (Lst xs)))) s"
    and n: "sz = of_nat (length (rlp_all xs))"
  shows "unat sz = length (rlp_all xs)" "s_Kind s = (Ok (List, sz), kind_known List sz 0 s)"
    "ready (opened sz 0 s)" "next_is (rlp_all xs) (opened sz 0 s)"
    "length (s_r (opened sz 0 s)) < length (s_r s)"
proof -
  let ?h = "hd_bytes List (unat sz) 0"
  have len: "length (rlp (Lst xs)) \<le> length (s_r s)" "length (s_r s) < 2 ^ 64"
    using assms(1,3) next_is_length by (auto simp: ready_def simp del: rlp.simps)
  then show sz: "unat sz = length (rlp_all xs)" by (simp add: n unat_of_nat_u64)
  have enc: "rlp (Lst xs) = ?h @ rlp_all xs" by (simp add: sz)
  have N: "length ?h + unat sz \<le> length (rlp (Lst xs))" "length (rlp (Lst xs)) < 2 ^ 64"
    using len unfolding enc sz by auto
  have "next_is ?h s" using assms(3) unfolding enc next_is_append ..
  moreover have "room (of_nat (length ?h)) s"
    by (rule room_le [OF assms(4) _ N(2)], rule order_trans [OF _ N(1)]) simp
  ultimately have hd: "head_at List sz 0 s" unfolding head_at_def next_is_def Let_def by simp
  have "room (of_nat (unat sz)) s"
    by (rule room_le [OF assms(4) _ N(2)], rule order_trans [OF _ N(1)]) simp
  then have "room sz s" by simp
  moreover have "length ?h + unat sz \<le> length (s_r s)" using N(1) len(1) by linarith
  ultimately show "s_Kind s = (Ok (List, sz), kind_known List sz 0 s)"
    using hd Kind_Ok [OF assms(1,2)] by blast
  show "ready (opened sz 0 s)" by (rule ready_opened [OF assms(1) hd])
  show "next_is (rlp_all xs) (opened sz 0 s)"
    using assms(3) unfolding enc next_is_append by (simp add: next_is_def)
  show "length (s_r (opened sz 0 s)) < length (s_r s)"
    using length_hd_bytes [of List "unat sz" 0] head_at_length [OF hd] by (cases "s_r s") auto
qed

lemma decode_complete:
  "ready s \<Longrightarrow> s_kind s = None \<Longrightarrow> next_is (rlp x) s \<Longrightarrow> room (of_nat (length (rlp x))) s \<Longrightarrow>
     2 * length (rlp x) < f \<Longrightarrow> \<exists>t. decodeInterface f s = (Ok x, t)"
  "ready s \<Longrightarrow> s_kind s = None \<Longrightarrow> next_is (rlp_all xs) s \<Longrightarrow>
     s_stack s = of_nat (length (rlp_all xs)) # st \<Longrightarrow>
     2 * length (rlp_all xs) + 1 < f \<Longrightarrow> \<exists>t. decodeSliceElems f s = (Ok xs, t)"
proof (induction x and xs arbitrary: s f and s f st rule: rlp_rlp_all.induct)
  case (1 b)
  then obtain f' where f: "f = Suc f'" by (cases f) auto
  obtain k sz s' t where b: "s_Kind s = (Ok (k, sz), s')" "k \<noteq> List" "s_Bytes s' = (Ok b, t)"
    using Bytes_complete [OF 1(1-4)] by blast
  then show ?case unfolding f decodeInterface_Ok by auto
next
  case (2 xs)
  then obtain f' where f: "f = Suc f'" by (cases f) auto
  define sz :: u64 where "sz = of_nat (length (rlp_all xs))"
  note K = complete_Kind_List [OF "2.prems"(1-4) sz_def]
  let ?u = "opened sz 0 s"
  have stk: "s_stack ?u = of_nat (length (rlp_all xs)) # s_stack (adv (length (hd_bytes List (unat sz) 0) + unat sz) s)"
    using sz_def by simp
  show ?case
  proof (cases "sz = 0")
    case True
    then have "length (rlp_all xs) = 0" using K(1) by simp
    then have "xs = []" using length_rlp_pos by (cases xs) auto
    with True K(2) show ?thesis
      unfolding f decodeInterface_known [OF K(2)] by (simp add: sbind_Ok ListEnd_Ok)
  next
    case False
    have "2 * length (rlp_all xs) + 1 < f'"
      using "2.prems"(5) length_hd_bytes [of List "length (rlp_all xs)" 0] f
      by (simp del: length_greater_0_conv)
    then obtain w where w: "decodeSliceElems f' ?u = (Ok xs, w)"
      using "2.IH"(1) [OF K(3) _ K(4) stk] by auto
    have "s_stack w = 0 # s_stack (adv (length (hd_bytes List (unat sz) 0) + unat sz) s)"
      using decode_sound(2) [OF K(3) _ w] stk by (auto simp: consumed_def)
    with False w show ?thesis
      unfolding f decodeInterface_known [OF K(2)] by (auto simp: sbind_Ok ListEnd_Ok)
  qed
next
  case 3
  then obtain f' where f: "f = Suc (Suc f')" by (metis Suc_less_eq2 Suc_eq_plus1 less_imp_Suc_add)
  from 3 have "s_Kind s = (Err EOL, s)" by (simp add: s_Kind_def listLimit_def)
  then have "decodeInterface (Suc f') s = (Err EOL, s)" by (simp add: decodeInterface.simps sbind_def)
  then show ?case unfolding f decodeSliceElems_Ok by blast
next
  case (4 x xs)
  then obtain f' where f: "f = Suc f'" by (cases f) auto
  let ?n = "length (rlp x)" and ?m = "length (rlp_all xs)"
  have lt: "?n + ?m < 2 ^ 64" using next_is_length [OF "4.prems"(3)] "4.prems"(1) by (simp add: ready_def)
  have nx: "next_is (rlp x) s" "take ?m (drop ?n (s_r s)) = rlp_all xs"
    using "4.prems"(3) by (simp_all add: next_is_append)
  have "unat (of_nat (?n + ?m) :: u64) = ?n + ?m" "unat (of_nat ?n :: u64) = ?n"
    using lt by (simp_all add: unat_of_nat_u64 del: of_nat_add)
  then have "room (of_nat ?n) s" using "4.prems"(4) by (simp add: room_def word_le_nat_alt del: of_nat_add)
  moreover have "2 * ?n < f'" using "4.prems"(5) length_rlp_pos [of x] f by (simp del: length_greater_0_conv)
  ultimately obtain t where t: "decodeInterface f' s = (Ok x, t)" using "4.IH"(1) "4.prems"(1,2) nx(1) by blast
  then have "consumed ?n s t" using decode_sound(1) "4.prems"(1,2) by blast
  then have "ready t" "s_kind t = None" "next_is (rlp_all xs) t" "s_stack t = of_nat ?m # st"
    using nx(2) "4.prems"(4) by (auto simp: consumed_def next_is_def)
  moreover have "2 * ?m + 1 < f'" using "4.prems"(5) length_rlp_pos [of x] f by (simp del: length_greater_0_conv)
  ultimately obtain t' where "decodeSliceElems f' t = (Ok xs, t')" using "4.IH"(2) by blast
  with t show ?case unfolding f decodeSliceElems_Ok by blast
qed

lemma decode_proper:
  "ready s \<Longrightarrow> s_kind s = None \<Longrightarrow> 2 * length (s_r s) < f \<Longrightarrow>
     fst (decodeInterface f s) \<noteq> Err OutOfFuel \<and> fst (decodeInterface f s) \<noteq> Panic"
  "ready s \<Longrightarrow> s_kind s = None \<Longrightarrow> 2 * length (s_r s) + 1 < f \<Longrightarrow>
     fst (decodeSliceElems f s) \<noteq> Err OutOfFuel \<and> fst (decodeSliceElems f s) \<noteq> Panic"
proof (induction f arbitrary: s)
  case 0
  { case 1 then show ?case by simp }
  { case 2 then show ?case by simp }
next
  case (Suc f)
  { case (1 s)
    show ?case
    proof (cases "\<exists>k sz s'. s_Kind s = (Ok (k, sz), s')")
      case False
      then have "decodeInterface (Suc f) s = (case s_Kind s of (r, s') \<Rightarrow> (case r of Err e \<Rightarrow> Err e | _ \<Rightarrow> Panic, s'))"
        by (auto simp: decodeInterface.simps sbind_def split: prod.splits res.splits)
      then show ?thesis using Kind_benign [OF 1(2)] False by (auto split: prod.splits res.splits)
    next
      case True
      then obtain k sz v where kd: "s_Kind s = (Ok (k, sz), kind_known k sz v s)" and hd: "head_at k sz v s"
        using Kind_Ok [OF 1(1,2)] by blast
      have P: "proper (fst (sbind s_Bytes (\<lambda>b. sret (Str b)) (kind_known k sz v s)))"
        "proper (fst (sbind s_ListEnd (\<lambda>_. sret y) u))" for y :: item and u
        by (auto intro!: proper_sbind proper_Bytes proper_ListEnd simp: sret_def)
      have E: "fst (decodeSliceElems f (opened sz v s)) \<noteq> Err OutOfFuel \<and> fst (decodeSliceElems f (opened sz v s)) \<noteq> Panic"
        if "k = List"
      proof -
        have "length (s_r (opened sz v s)) < length (s_r s)"
          using length_hd_bytes [of List "unat sz" v] head_at_length [OF hd] that by (cases "s_r s") auto
        then show ?thesis using Suc.IH(2) [OF ready_opened [OF 1(1)]] hd that 1(3) by simp
      qed
      show ?thesis
      proof (cases "k = List \<and> sz \<noteq> 0")
        case False
        then show ?thesis using P by (auto simp: decodeInterface_known [OF kd] proper_def)
      next
        case True
        then show ?thesis using P(2) E
          by (auto simp: decodeInterface_known [OF kd] proper_def sbind_def [of "decodeSliceElems f"] split: prod.splits res.splits)
      qed
    qed }
  { case (2 s)
    then have I: "fst (decodeInterface f s) \<noteq> Err OutOfFuel \<and> fst (decodeInterface f s) \<noteq> Panic"
      using Suc.IH(1) by simp
    have "fst (decodeSliceElems f s') \<noteq> Err OutOfFuel \<and> fst (decodeSliceElems f s') \<noteq> Panic"
      if "decodeInterface f s = (Ok x, s')" for x s'
    proof -
      have c: "consumed (length (rlp x)) s s'" using decode_sound(1) 2(1,2) that by blast
      then have "length (s_r s') < length (s_r s)" using length_rlp_pos [of x]
        by (auto simp: consumed_def simp del: length_greater_0_conv)
      with c 2(3) show ?thesis using Suc.IH(2) [of s'] by (simp add: consumed_def)
    qed
    with I show ?case
      by (auto simp: decodeSliceElems.simps sbind_def sret_def split: prod.splits res.splits) }
qed

section \<open>Decoding bytes\<close>

lemma ready_Reset: "length b < 2 ^ 64 \<Longrightarrow> ready (s_Reset b (of_nat (length b)) st)"
  by (auto simp: ready_def s_Reset_def Let_def)

lemma Reset_sel: "s_r (s_Reset b n st) = b" "s_kind (s_Reset b n st) = None" "s_stack (s_Reset b n st) = []"
  by (simp_all add: s_Reset_def Let_def)

text \<open>C1: Decoding into \<open>interface{}\<close> accepts exactly the canonical encodings: \<open>DecodeBytes\<close>, on a pooled
  stream in any state, returns the value \<open>x\<close> if and only if the input is the reference encoding of
  \<open>x\<close>. So decoding inverts encoding, no two byte strings decode to the same value, and every
  non-canonical header, trailing byte or truncated value is rejected.\<close>

theorem DecodeBytes_iff_encoding:
  assumes "length b < 2 ^ 64"
  shows "DecodeBytes_interface st b = Ok x \<longleftrightarrow> b = rlp x"
proof -
  let ?s = "s_Reset b (of_nat (length b)) st" and ?f = "2 * length b + 2"
  have rd: "ready ?s" using assms by (rule ready_Reset)
  have "DecodeBytes_interface st b = Ok x \<longleftrightarrow> (\<exists>t. decodeInterface ?f ?s = (Ok x, t) \<and> s_r t = [])"
    by (auto simp: DecodeBytes_interface_def DecodeBytes_def split: prod.splits res.splits)
  also have "\<dots> \<longleftrightarrow> b = rlp x"
  proof
    assume "\<exists>t. decodeInterface ?f ?s = (Ok x, t) \<and> s_r t = []"
    then obtain t where "consumed (length (rlp x)) ?s t" "next_is (rlp x) ?s" "s_r t = []"
      using decode_sound(1) [OF rd Reset_sel(2)] by blast
    then show "b = rlp x" by (auto simp: consumed_def next_is_def Reset_sel)
  next
    assume b: "b = rlp x"
    then have "next_is (rlp x) ?s" "room (of_nat (length (rlp x))) ?s" "2 * length (rlp x) < ?f"
      by (simp_all add: next_is_def Reset_sel room_def)
    then obtain t where t: "decodeInterface ?f ?s = (Ok x, t)"
      using decode_complete(1) [OF rd Reset_sel(2)] by blast
    then have "s_r t = []" using decode_sound(1) [OF rd Reset_sel(2)] b by (auto simp: consumed_def Reset_sel)
    with t show "\<exists>t. decodeInterface ?f ?s = (Ok x, t) \<and> s_r t = []" by blast
  qed
  finally show ?thesis .
qed

theorem DecodeBytes_iff_encoding_witness:
  "DecodeBytes_interface
     \<lparr>s_r = [1, 2], s_remaining = 2, s_size = 9, s_kinderr = Some EOL, s_stack = [4], s_kind = Some List,
      s_byteval = 3, s_limited = False\<rparr>
     [0xC7, 0xC0, 0x84, 0x64, 0x61, 0x74, 0x61, 0x05] = Ok (Lst [Lst [], Str [0x64, 0x61, 0x74, 0x61], Str [5]])"
proof -
  have "[0xC7, 0xC0, 0x84, 0x64, 0x61, 0x74, 0x61, 0x05] = rlp (Lst [Lst [], Str [0x64, 0x61, 0x74, 0x61], Str [5]])"
    by code_simp
  then show ?thesis by (subst DecodeBytes_iff_encoding) simp_all
qed

text \<open>C21: Decoding is total: on every input that fits the address space \<open>DecodeBytes\<close> returns a value
  or one of the errors of the source. It never panics, and the recursion bound of the model, twice
  the input length plus two, is never hit.\<close>

theorem DecodeBytes_total:
  assumes "length b < 2 ^ 64"
  shows "DecodeBytes_interface st b \<noteq> Panic \<and> DecodeBytes_interface st b \<noteq> Err OutOfFuel"
  using decode_proper(1) [OF ready_Reset [OF assms, of st] Reset_sel(2), of "2 * length b + 2"]
  by (auto simp: DecodeBytes_interface_def DecodeBytes_def Reset_sel split: prod.splits res.splits)

theorem DecodeBytes_total_witness:
  "DecodeBytes_interface
     \<lparr>s_r = [], s_remaining = 0, s_size = 0, s_kinderr = None, s_stack = [], s_kind = None,
      s_byteval = 0, s_limited = False\<rparr> [0xC2, 0xC2, 1, 2] \<noteq> Panic"
  using DecodeBytes_total [of "[0xC2, 0xC2, 1, 2]"] by simp

section \<open>Headers in byte slices\<close>

lemma AppendUint64_putint:
  assumes "i \<noteq> 0" "\<not> i < 128"
  shows "AppendUint64 b i = b @ (0x80 + of_nat (length (putint i))) # putint i"
  unfolding AppendUint64_def putint_def if_not_P [OF assms(1)] if_not_P [OF assms(2)]
  by (cases "i < 0x100", simp, cases "i < 0x10000", simp, cases "i < 0x1000000", simp,
      cases "i < 0x100000000", simp, cases "i < 0x10000000000", simp, cases "i < 0x1000000000000", simp,
      cases "i < 0x100000000000000", simp, simp)

lemma AppendUint64_eq: "AppendUint64 b i = b @ rlp (Str (int_bytes (unat i)))"
proof -
  have "AppendUint64 b i = eb_str (encodeUint i \<lparr>eb_str = b, eb_lheads = [], eb_lhsize = 0\<rparr>)"
    using AppendUint64_putint [of i b]
    by (auto simp: encodeUint_def eb_write_def Let_def AppendUint64_def)
  then show ?thesis by (simp add: encodeUint_eq eb_write_def del: rlp.simps)
qed

primrec or_bytes :: "bytes \<Rightarrow> u64" where
  "or_bytes [] = 0"
| "or_bytes (b # bs) = push_bit (8 * length bs) (ucast b) OR or_bytes bs"

lemma or_push_bit:
  assumes "unat (y :: u64) < 2 ^ k"
  shows "push_bit k x OR y = push_bit k x + y"
proof -
  have "\<not> bit (push_bit k x) n \<or> \<not> bit y n" for n
  proof (cases "n < k")
    case True
    then show ?thesis by (simp add: bit_push_bit_iff)
  next
    case False
    then have "unat y < 2 ^ n" using assms by (meson less_le_trans not_le one_le_numeral power_increasing)
    then have "\<not> bit (unat y) n" by (simp add: bit_iff_odd)
    then show ?thesis by (simp add: bit_unsigned_iff)
  qed
  then have "push_bit k x AND y = 0" by (intro bit_eqI) (auto simp: bit_and_iff)
  then show ?thesis by (simp add: disjunctive_add_eq_or)
qed

lemma or_bytes_be_nat: "length bs \<le> 8 \<Longrightarrow> unat (or_bytes bs) = be_nat bs"
proof (induction bs)
  case Nil
  show ?case by simp
next
  case (Cons b bs)
  have p: "(2::nat) ^ (8 * length bs) = 256 ^ length bs" by (simp add: power_mult)
  have IH: "unat (or_bytes bs) = be_nat bs" using Cons by simp
  then have lt: "unat (or_bytes bs) < 2 ^ (8 * length bs)" using be_nat_less [of bs] p by simp
  have "be_nat (b # bs) < 256 ^ length (b # bs)" by (rule be_nat_less)
  also have "\<dots> \<le> 256 ^ 8" using Cons.prems by (intro power_increasing) simp_all
  finally have "unat b * 256 ^ length bs + be_nat bs < 2 ^ 64" by (simp add: be_nat_Cons)
  moreover have "or_bytes (b # bs) = of_nat (unat b * 256 ^ length bs + be_nat bs)"
    unfolding or_bytes.simps or_push_bit [OF lt] IH [symmetric]
    by (simp add: push_bit_eq_mult power_mult)
  ultimately show ?case unfolding be_nat_Cons by (simp only: unat_of_nat_u64)
qed

lemma take_nth: "n \<le> length xs \<Longrightarrow> take n xs = map ((!) xs) [0..<n]"
  by (rule nth_equalityI) simp_all

lemma u8_upto_8: "0 < n \<Longrightarrow> n \<le> 8 \<Longrightarrow> n \<in> {1, 2, 3, 4, 5, 6, 7, 8 :: u8}"
proof -
  assume "0 < n" "n \<le> 8"
  then have "unat n \<in> {1, 2, 3, 4, 5, 6, 7, 8}" by (auto simp: word_less_nat_alt word_le_nat_alt)
  then show ?thesis by (auto simp: word_unat_eq_iff)
qed

lemma readSize_eq:
  assumes "unat n \<le> length b" "0 < n" "n \<le> 8"
  shows "readSize b n = (if be_nat (take (unat n) b) < 56 \<or> b ! 0 = 0 then Err ErrCanonSize
    else Ok (of_nat (be_nat (take (unat n) b))))"
proof -
  have "length (take (unat n) b) \<le> 8" using assms(3) by (simp add: word_le_nat_alt)
  then have ob: "unat (or_bytes (take (unat n) b)) = be_nat (take (unat n) b)" by (rule or_bytes_be_nat)
  then have o: "of_nat (be_nat (take (unat n) b)) = or_bytes (take (unat n) b)"
    by (metis of_nat_unat ucast_id)
  have upt: "[0..<2] = [0, 1]" "[0..<3] = [0, 1, 2]" "[0..<4] = [0, 1, 2, 3]" "[0..<5] = [0, 1, 2, 3, 4]"
      "[0..<6] = [0, 1, 2, 3, 4, 5]" "[0..<7] = [0, 1, 2, 3, 4, 5, 6]" "[0..<8] = [0, 1, 2, 3, 4, 5, 6, 7]"
    by (simp_all add: upt_rec)
  have "readSize b n = (let s = or_bytes (take (unat n) b) in if s < 56 \<or> b ! 0 = 0 then Err ErrCanonSize else Ok s)"
    using u8_upto_8 [OF assms(2,3)] assms(1)
    by (elim insertE emptyE; cases b) (auto simp: readSize_def take_nth Let_def upt)
  then show ?thesis unfolding o by (simp add: Let_def word_less_nat_alt ob)
qed

definition fit_check :: "nat \<Rightarrow> kind \<times> u64 \<times> u64 \<Rightarrow> (rlp_error, kind \<times> u64 \<times> u64) res" where
  "fit_check len = (\<lambda>(k, tagsize, contentsize).
     if contentsize > of_nat len - tagsize then Err ErrValueTooLarge else Ok (k, tagsize, contentsize))"

lemma readKind_ranges:
  "unat b < 0x80 \<Longrightarrow> readKind (b # bs) = fit_check (length (b # bs)) (Byte, 0, 1)"
  "0x80 \<le> unat b \<Longrightarrow> unat b < 0xB8 \<Longrightarrow> readKind (b # bs) =
     (if ucast (b - 0x80) = (1 :: u64) \<and> bs \<noteq> [] \<and> bs ! 0 < 128 then Err ErrCanonSize
      else fit_check (length (b # bs)) (String, 1, ucast (b - 0x80)))"
  "0xB8 \<le> unat b \<Longrightarrow> unat b < 0xC0 \<Longrightarrow> readKind (b # bs) =
     bind_res (map_res (\<lambda>cs. (String, ucast (b - 0xB7) + 1, cs)) (readSize bs (b - 0xB7))) (fit_check (length (b # bs)))"
  "0xC0 \<le> unat b \<Longrightarrow> unat b < 0xF8 \<Longrightarrow> readKind (b # bs) = fit_check (length (b # bs)) (List, 1, ucast (b - 0xC0))"
  "0xF8 \<le> unat b \<Longrightarrow> readKind (b # bs) =
     bind_res (map_res (\<lambda>cs. (List, ucast (b - 0xF7) + 1, cs)) (readSize bs (b - 0xF7))) (fit_check (length (b # bs)))"
  by (simp_all add: readKind_def word_less_nat_alt [of b] fit_check_def)

lemma readKind_short:
  assumes "(k, a) \<in> {(String, 0x80), (List, 0xC0 :: u8)}" "n < 56" "n \<le> length bs" "length bs < 2 ^ 63"
    and "\<not> (k = String \<and> n = 1 \<and> bs ! 0 < 128)"
  shows "readKind ((a + of_nat n) # bs) = Ok (k, 1, of_nat n)"
proof -
  have u: "unat (of_nat n :: u8) = n" "unat (of_nat n :: u64) = n"
    using assms(2) by (simp_all add: unat_of_nat_u8 unat_of_nat_u64)
  have c: "ucast (of_nat n :: u8) = (of_nat n :: u64)" using u(1) by (metis of_nat_unat)
  have b: "unat (a + of_nat n) = unat a + n" using assms(1,2) u(1) by (auto simp: unat_word_ariths)
  have one: "(of_nat n :: u64) = 1 \<longleftrightarrow> n = 1" using u(2) by (metis of_nat_1 unat_1)
  have fits: "\<not> (of_nat (length ((a + of_nat n) # bs)) - 1 :: u64) < of_nat n"
    using assms(3,4) u(2) by (simp add: word_less_nat_alt unat_of_nat_u64 not_less)
  then have "fit_check (length ((a + of_nat n) # bs)) (k, 1, of_nat n) = Ok (k, 1, of_nat n)"
    by (simp only: fit_check_def case_prod_conv if_False)
  moreover have d: "a + of_nat n - a = of_nat n" by simp
  ultimately show ?thesis
    using assms(1,2,5) b one readKind_ranges(2,4) [of "a + of_nat n" bs, unfolded d c] c by auto
qed

lemma readKind_long:
  assumes "(k, lo) \<in> {(String, 0xB7), (List, 0xF7 :: u8)}" "56 \<le> n" "n < 2 ^ 63"
    and "take (length (be_bytes n)) bs = be_bytes n" "length (be_bytes n) + n \<le> length bs" "length bs < 2 ^ 63"
  shows "readKind ((lo + of_nat (length (be_bytes n))) # bs) = Ok (k, of_nat (length (be_bytes n)) + 1, of_nat n)"
proof -
  let ?l = "length (be_bytes n)" and ?b = "lo + of_nat (length (be_bytes n))"
  have l: "?l \<le> 8" "0 < ?l" using be_bytes_length_8 [of n] assms(3) length_be_bytes_pos by auto
  have u: "unat (of_nat ?l :: u8) = ?l" "unat (of_nat n :: u64) = n"
    using l assms(3) by (simp_all add: unat_of_nat_u8 unat_of_nat_u64)
  have c: "ucast (of_nat ?l :: u8) = (of_nat ?l :: u64)" using u(1) by (metis of_nat_unat)
  have "unat ?b = unat lo + ?l" using assms(1) u(1) l by (auto simp: unat_word_ariths)
  moreover have "bs ! 0 \<noteq> 0"
    using be_bytes_hd [of n] assms(2,4) l(2) by (metis hd_conv_nth less_le_trans nth_take be_bytes_nonempty zero_less_numeral)
  then have "readSize bs (of_nat ?l) = Ok (of_nat n)"
    using l u assms(2,4,5) by (subst readSize_eq) (simp_all add: word_less_nat_alt word_le_nat_alt)
  moreover have "\<not> (of_nat (length (?b # bs)) - (of_nat ?l + 1) :: u64) < of_nat n"
  proof -
    have "(of_nat (length (?b # bs)) - (of_nat ?l + 1) :: u64) = of_nat (length bs - ?l)"
      using assms(5) by (simp add: of_nat_diff)
    moreover have "unat (of_nat (length bs - ?l) :: u64) = length bs - ?l"
      using assms(6) by (intro unat_of_nat_u64) simp
    ultimately show ?thesis using assms(5) u(2) by (simp add: word_less_nat_alt)
  qed
  then have "fit_check (length (?b # bs)) (k, of_nat ?l + 1, of_nat n) = Ok (k, of_nat ?l + 1, of_nat n)"
    by (simp only: fit_check_def case_prod_conv if_False)
  moreover have d: "?b - lo = of_nat ?l" by simp
  ultimately show ?thesis
    using assms(1) l(1) Suc_leI [OF l(2)] readKind_ranges(3,5) [of ?b bs] by (auto simp: d c)
qed

text \<open>The header parser of \<open>raw.go\<close> on an encoded value followed by anything.\<close>

definition head_size :: "item \<Rightarrow> nat" where
  "head_size x = (case x of
     Str b \<Rightarrow> if length b = 1 \<and> b ! 0 < 0x80 then 0 else length (rlp_head 0x80 0xB7 (length b))
   | Lst xs \<Rightarrow> length (rlp_head 0xC0 0xF7 (length (rlp_all xs))))"

definition content :: "item \<Rightarrow> bytes" where
  "content x = (case x of Str b \<Rightarrow> b | Lst xs \<Rightarrow> rlp_all xs)"

definition kind_of :: "item \<Rightarrow> kind" where
  "kind_of x = (case x of Str b \<Rightarrow> if length b = 1 \<and> b ! 0 < 0x80 then Byte else String | Lst xs \<Rightarrow> List)"

lemma readKind_head:
  assumes "(k, a, lo) \<in> {(String, 0x80, 0xB7), (List, 0xC0, 0xF7)}"
    and "length (rlp_head a lo (length c) @ c @ rest) < 2 ^ 63" "\<not> (k = String \<and> length c = 1 \<and> c ! 0 < 128)"
  shows "readKind (rlp_head a lo (length c) @ c @ rest) = Ok (k, of_nat (length (rlp_head a lo (length c))), of_nat (length c))"
proof (cases "length c < 56")
  case True
  moreover have "length c = 1 \<Longrightarrow> (c @ rest) ! 0 = c ! 0" by (simp add: nth_append)
  ultimately show ?thesis
    using readKind_short [of k a "length c" "c @ rest"] assms by (auto simp: rlp_head_def)
next
  case False
  then show ?thesis
    using readKind_long [of k lo "length c" "be_bytes (length c) @ c @ rest"] assms
    by (auto simp: rlp_head_def)
qed

lemma readKind_rlp:
  assumes "length (rlp x @ rest) < 2 ^ 63"
  shows "readKind (rlp x @ rest) = Ok (kind_of x, of_nat (head_size x), of_nat (length (content x)))"
    and "length (rlp x) = head_size x + length (content x)" "drop (head_size x) (rlp x) = content x"
proof -
  show "length (rlp x) = head_size x + length (content x)" "drop (head_size x) (rlp x) = content x"
    by (auto simp: head_size_def content_def split: item.splits)
  show "readKind (rlp x @ rest) = Ok (kind_of x, of_nat (head_size x), of_nat (length (content x)))"
  proof (cases x)
    case (Lst xs)
    then show ?thesis
      using readKind_head [of List "0xC0" "0xF7" "rlp_all xs" rest] assms
      by (simp add: kind_of_def head_size_def content_def)
  next
    case (Str b)
    show ?thesis
    proof (cases "length b = 1 \<and> b ! 0 < 0x80")
      case True
      then obtain v where v: "b = [v]" "unat v < 0x80" by (cases b) (auto simp: word_less_nat_alt)
      have "\<not> (of_nat (length (v # rest)) :: u64) - 0 < 1"
        using assms Str True v(1) by (simp add: word_less_nat_alt unat_word_ariths unat_of_nat_u64)
      then show ?thesis
        using Str True v readKind_ranges(1) [of v rest]
        by (simp add: kind_of_def head_size_def content_def fit_check_def)
    next
      case False
      then show ?thesis
        using readKind_head [of String "0x80" "0xB7" b rest] assms Str
        by (auto simp: kind_of_def head_size_def content_def)
    qed
  qed
qed

lemma Split_rlp:
  assumes "length (rlp x @ rest) < 2 ^ 63"
  shows "Split (rlp x @ rest) = Ok (kind_of x, content x, rest)"
proof -
  note K = readKind_rlp [OF assms]
  have "unat (of_nat (head_size x) :: u64) = head_size x" "unat (of_nat (length (content x)) :: u64) = length (content x)"
      "unat (of_nat (head_size x) + of_nat (length (content x)) :: u64) = head_size x + length (content x)"
    using assms K(2) by (simp_all add: unat_of_nat_u64 flip: of_nat_add)
  then show ?thesis using K by (simp add: Split_def)
qed

lemma SplitString_rlp: "length (rlp (Str b) @ rest) < 2 ^ 63 \<Longrightarrow> SplitString (rlp (Str b) @ rest) = Ok (b, rest)"
  by (simp add: SplitString_def Split_rlp del: rlp.simps) (simp add: kind_of_def content_def)

lemma SplitList_rlp: "length (rlp (Lst xs) @ rest) < 2 ^ 63 \<Longrightarrow> SplitList (rlp (Lst xs) @ rest) = Ok (rlp_all xs, rest)"
  by (simp add: SplitList_def Split_rlp del: rlp.simps) (simp add: kind_of_def content_def)

lemma CountValues_loop_rlp:
  "length (rlp_all xs) < 2 ^ 63 \<Longrightarrow> length xs \<le> f \<Longrightarrow> CountValues_loop f (rlp_all xs) i = Ok (i + length xs)"
proof (induction xs arbitrary: f i)
  case Nil
  show ?case by (simp add: CountValues_loop.simps)
next
  case (Cons x xs)
  then obtain f' where f: "f = Suc f'" by (cases f) auto
  have ne: "rlp x \<noteq> []" using length_rlp_pos [of x] by simp
  have lt: "length (rlp x @ rlp_all xs) < 2 ^ 63" using Cons.prems by simp
  note K = readKind_rlp [OF lt]
  have "unat (of_nat (head_size x) + of_nat (length (content x)) :: u64) = length (rlp x)"
    using lt K(2) by (simp add: unat_of_nat_u64 flip: of_nat_add)
  then show ?case
    using Cons f ne K(1) by (simp add: CountValues_loop.simps [of "Suc f'"])
qed

lemma length_le_rlp_all: "length xs \<le> length (rlp_all xs)"
proof (induction xs)
  case (Cons x xs)
  then show ?case using length_rlp_pos [of x] by (simp del: length_greater_0_conv)
qed simp

text \<open>C22: Values written one after another are found again by the slice parser of \<open>raw.go\<close>: for the
  encodings of any list of values, \<open>CountValues\<close> counts them, and \<open>Split\<close> on an encoding followed by
  any bytes returns the kind, the content and exactly the bytes that follow.\<close>

theorem raw_split_encoding:
  assumes "length (rlp x @ rest) < 2 ^ 63" "length (rlp_all xs) < 2 ^ 63"
  shows "Split (rlp x @ rest) = Ok (kind_of x, content x, rest) \<and> CountValues (rlp_all xs) = Ok (length xs)"
  using Split_rlp [OF assms(1)] CountValues_loop_rlp [OF assms(2) length_le_rlp_all, of 0]
  by (simp add: CountValues_def)

theorem raw_split_encoding_witness:
  "Split (rlp (Str [1, 2]) @ [7]) = Ok (String, [1, 2], [7]) \<and> CountValues (rlp_all [Str [1], Lst []]) = Ok 2"
proof -
  have "length (rlp (Str [1, 2]) @ [7]) < 2 ^ 63" "length (rlp_all [Str [1], Lst []]) < 2 ^ 63"
      "kind_of (Str [1, 2]) = String" "content (Str [1, 2]) = [1, 2]"
    by (simp_all add: rlp_head_def kind_of_def content_def)
  then show ?thesis using raw_split_encoding [of "Str [1, 2]" "[7]" "[Str [1], Lst []]"]
    by (simp del: rlp.simps rlp_all.simps)
qed

lemma int_bytes_facts:
  "be_nat (int_bytes n) = n" "n \<noteq> 0 \<Longrightarrow> int_bytes n \<noteq> [] \<and> int_bytes n ! 0 \<noteq> 0"
  "n < 2 ^ 64 \<Longrightarrow> length (int_bytes n) \<le> 8"
  using be_bytes_hd [of n] be_bytes_length_8 [of n] by (auto simp: int_bytes_def hd_conv_nth)

lemma length_int_bytes_2: "1 < length (int_bytes n) \<Longrightarrow> 256 \<le> n"
  by (rule ccontr) (auto simp: int_bytes_def be_bytes.simps [of n] split: if_splits)

text \<open>C23: Integers round-trip through the slice codec: \<open>SplitUint64\<close> on what \<open>AppendUint64\<close> appended returns
  the integer and the rest, for every 64-bit integer.\<close>

theorem SplitUint64_AppendUint64:
  assumes "length rest < 2 ^ 62"
  shows "SplitUint64 (AppendUint64 [] i @ rest) = Ok (i, rest)"
proof -
  let ?c = "int_bytes (unat i)"
  have c8: "length ?c \<le> 8" using unsigned_less [of i, where 'a = nat] by (simp add: int_bytes_facts)
  then have "length (rlp (Str ?c)) \<le> 9" by (auto simp: rlp_head_def)
  then have "length (rlp (Str ?c) @ rest) < 2 ^ 63" using assms by simp
  then have S: "SplitString (AppendUint64 [] i @ rest) = Ok (?c, rest)"
    by (simp add: AppendUint64_eq SplitString_rlp del: rlp.simps)
  consider "i = 0" | "i \<noteq> 0" "length ?c = 1" | "i \<noteq> 0" "1 < length ?c"
    using int_bytes_facts(2) [of "unat i"] by (cases "length ?c = 1") (auto simp: unat_eq_zero Suc_lessI)
  then show ?thesis
  proof cases
    case 1
    then show ?thesis using S by (simp add: SplitUint64_def int_bytes_def)
  next
    case 2
    then obtain v where v: "?c = [v]" "v \<noteq> 0"
      using int_bytes_facts(2) [of "unat i"] by (cases ?c) (auto simp: unat_eq_zero)
    then have "unat v = unat i" using int_bytes_facts(1) [of "unat i"] by simp
    then have "ucast v = i" by (metis of_nat_unat ucast_id)
    then show ?thesis using S v by (simp add: SplitUint64_def)
  next
    case 3
    have l: "unat (of_nat (length ?c) :: u8) = length ?c" using c8 by (simp add: unat_of_nat_u8)
    have "readSize ?c (of_nat (length ?c)) = Ok i"
      using l 3 c8 length_int_bytes_2 [OF 3(2)] int_bytes_facts(1,2) [of "unat i"]
      by (subst readSize_eq) (auto simp: word_less_nat_alt word_le_nat_alt unat_eq_zero)
    moreover from 3(2) have "?c \<noteq> []" by auto
    ultimately show ?thesis using S 3 c8 by (simp add: SplitUint64_def)
  qed
qed

theorem SplitUint64_AppendUint64_witness:
  "SplitUint64 (AppendUint64 [] 1024 @ [0xC0]) = Ok (1024, [0xC0])"
  using SplitUint64_AppendUint64 [of "[0xC0]" 1024] by simp

end
