(* ===== verification/Params_Config.thy ===== *)
theory Params_Config
  imports Prelude
begin

text \<open>
  The chain configuration, \<open>params/config.go\<close>: the fork schedule, the predicates that say which
  forks are active at a block, and the compatibility check of a stored configuration with a new
  one. A \<open>*big.Int\<close> block number is an \<open>int option\<close>, nil being \<open>None\<close>. The \<open>String\<close> methods and
  the configurations of the other consensus engines are not modelled.
\<close>

section \<open>The configuration\<close>

record ParliaConfig =
  Period :: u64
  Epoch :: u64

record ChainConfig =
  ChainID :: "int option"
  HomesteadBlock :: "int option"
  DAOForkBlock :: "int option"
  DAOForkSupport :: bool
  EIP150Block :: "int option"
  EIP150Hash :: hash
  EIP155Block :: "int option"
  EIP158Block :: "int option"
  ByzantiumBlock :: "int option"
  ConstantinopleBlock :: "int option"
  PetersburgBlock :: "int option"
  IstanbulBlock :: "int option"
  MuirGlacierBlock :: "int option"
  BerlinBlock :: "int option"
  YoloV3Block :: "int option"
  EWASMBlock :: "int option"
  CatalystBlock :: "int option"
  RamanujanBlock :: "int option"
  NielsBlock :: "int option"
  MirrorSyncBlock :: "int option"
  BrunoBlock :: "int option"
  EulerBlock :: "int option"
  ClassicBlock :: "int option"
  Parlia :: "ParliaConfig option"

definition isForked :: "int option \<Rightarrow> int option \<Rightarrow> bool" where
  "isForked s head = (case (s, head) of (Some a, Some h) \<Rightarrow> a \<le> h | _ \<Rightarrow> False)"

definition configNumEqual :: "int option \<Rightarrow> int option \<Rightarrow> bool" where
  "configNumEqual x y =
    (case x of None \<Rightarrow> y = None | Some a \<Rightarrow> (case y of None \<Rightarrow> False | Some b \<Rightarrow> a = b))"

definition isForkIncompatible :: "int option \<Rightarrow> int option \<Rightarrow> int option \<Rightarrow> bool" where
  "isForkIncompatible s1 s2 head = ((isForked s1 head \<or> isForked s2 head) \<and> \<not> configNumEqual s1 s2)"

definition IsHomestead :: "ChainConfig \<Rightarrow> int option \<Rightarrow> bool" where
  "IsHomestead c num = isForked (HomesteadBlock c) num"

definition IsDAOFork :: "ChainConfig \<Rightarrow> int option \<Rightarrow> bool" where
  "IsDAOFork c num = isForked (DAOForkBlock c) num"

definition IsEIP150 :: "ChainConfig \<Rightarrow> int option \<Rightarrow> bool" where
  "IsEIP150 c num = isForked (EIP150Block c) num"

definition IsEIP155 :: "ChainConfig \<Rightarrow> int option \<Rightarrow> bool" where
  "IsEIP155 c num = isForked (EIP155Block c) num"

definition IsEIP158 :: "ChainConfig \<Rightarrow> int option \<Rightarrow> bool" where
  "IsEIP158 c num = isForked (EIP158Block c) num"

definition IsByzantium :: "ChainConfig \<Rightarrow> int option \<Rightarrow> bool" where
  "IsByzantium c num = isForked (ByzantiumBlock c) num"

definition IsConstantinople :: "ChainConfig \<Rightarrow> int option \<Rightarrow> bool" where
  "IsConstantinople c num = isForked (ConstantinopleBlock c) num"

definition IsRamanujan :: "ChainConfig \<Rightarrow> int option \<Rightarrow> bool" where
  "IsRamanujan c num = isForked (RamanujanBlock c) num"

definition IsOnRamanujan :: "ChainConfig \<Rightarrow> int option \<Rightarrow> bool" where
  "IsOnRamanujan c num = configNumEqual (RamanujanBlock c) num"

definition IsNiels :: "ChainConfig \<Rightarrow> int option \<Rightarrow> bool" where
  "IsNiels c num = isForked (NielsBlock c) num"

definition IsOnNiels :: "ChainConfig \<Rightarrow> int option \<Rightarrow> bool" where
  "IsOnNiels c num = configNumEqual (NielsBlock c) num"

definition IsMirrorSync :: "ChainConfig \<Rightarrow> int option \<Rightarrow> bool" where
  "IsMirrorSync c num = isForked (MirrorSyncBlock c) num"

definition IsOnMirrorSync :: "ChainConfig \<Rightarrow> int option \<Rightarrow> bool" where
  "IsOnMirrorSync c num = configNumEqual (MirrorSyncBlock c) num"

definition IsBruno :: "ChainConfig \<Rightarrow> int option \<Rightarrow> bool" where
  "IsBruno c num = isForked (BrunoBlock c) num"

definition IsOnBruno :: "ChainConfig \<Rightarrow> int option \<Rightarrow> bool" where
  "IsOnBruno c num = configNumEqual (BrunoBlock c) num"

definition IsEuler :: "ChainConfig \<Rightarrow> int option \<Rightarrow> bool" where
  "IsEuler c num = isForked (EulerBlock c) num"

definition IsOnEuler :: "ChainConfig \<Rightarrow> int option \<Rightarrow> bool" where
  "IsOnEuler c num = configNumEqual (EulerBlock c) num"

definition IsClassic :: "ChainConfig \<Rightarrow> int option \<Rightarrow> bool" where
  "IsClassic c num = isForked (ClassicBlock c) num"

definition IsOnClassic :: "ChainConfig \<Rightarrow> int option \<Rightarrow> bool" where
  "IsOnClassic c num = configNumEqual (ClassicBlock c) num"

definition IsMuirGlacier :: "ChainConfig \<Rightarrow> int option \<Rightarrow> bool" where
  "IsMuirGlacier c num = isForked (MuirGlacierBlock c) num"

definition IsPetersburg :: "ChainConfig \<Rightarrow> int option \<Rightarrow> bool" where
  "IsPetersburg c num =
    (isForked (PetersburgBlock c) num \<or> PetersburgBlock c = None \<and> isForked (ConstantinopleBlock c) num)"

definition IsIstanbul :: "ChainConfig \<Rightarrow> int option \<Rightarrow> bool" where
  "IsIstanbul c num = isForked (IstanbulBlock c) num"

definition IsBerlin :: "ChainConfig \<Rightarrow> int option \<Rightarrow> bool" where
  "IsBerlin c num = (isForked (BerlinBlock c) num \<or> isForked (YoloV3Block c) num)"

definition IsCatalyst :: "ChainConfig \<Rightarrow> int option \<Rightarrow> bool" where
  "IsCatalyst c num = isForked (CatalystBlock c) num"

definition IsEWASM :: "ChainConfig \<Rightarrow> int option \<Rightarrow> bool" where
  "IsEWASM c num = isForked (EWASMBlock c) num"

record Rules =
  r_ChainID :: int
  r_IsHomestead :: bool
  r_IsEIP150 :: bool
  r_IsEIP155 :: bool
  r_IsEIP158 :: bool
  r_IsByzantium :: bool
  r_IsConstantinople :: bool
  r_IsPetersburg :: bool
  r_IsIstanbul :: bool
  r_IsBerlin :: bool
  r_IsCatalyst :: bool

definition config_Rules :: "ChainConfig \<Rightarrow> int option \<Rightarrow> Rules" where
  "config_Rules c num =
    \<lparr>r_ChainID = (case ChainID c of None \<Rightarrow> 0 | Some i \<Rightarrow> i),
     r_IsHomestead = IsHomestead c num, r_IsEIP150 = IsEIP150 c num,
     r_IsEIP155 = IsEIP155 c num, r_IsEIP158 = IsEIP158 c num,
     r_IsByzantium = IsByzantium c num, r_IsConstantinople = IsConstantinople c num,
     r_IsPetersburg = IsPetersburg c num, r_IsIstanbul = IsIstanbul c num,
     r_IsBerlin = IsBerlin c num, r_IsCatalyst = IsCatalyst c num\<rparr>"

section \<open>Compatibility of a stored and a new configuration\<close>

record ConfigCompatError =
  What :: string
  StoredConfig :: "int option"
  NewConfig :: "int option"
  RewindTo :: u64

definition newCompatError :: "string \<Rightarrow> int option \<Rightarrow> int option \<Rightarrow> ConfigCompatError" where
  "newCompatError what storedblock newblock =
    (let rew = (case storedblock of
                  None \<Rightarrow> newblock
                | Some s \<Rightarrow> (case newblock of
                      None \<Rightarrow> storedblock
                    | Some n \<Rightarrow> if s < n then storedblock else newblock))
     in \<lparr>What = what, StoredConfig = storedblock, NewConfig = newblock,
         RewindTo = (case rew of
             Some r \<Rightarrow> if r > 0 then of_int r - 1 else 0
           | None \<Rightarrow> 0)\<rparr>)"

definition checkCompatible :: "ChainConfig \<Rightarrow> ChainConfig \<Rightarrow> int option \<Rightarrow> ConfigCompatError option" where
  "checkCompatible c newcfg head =
    (if isForkIncompatible (HomesteadBlock c) (HomesteadBlock newcfg) head then
       Some (newCompatError ''Homestead fork block'' (HomesteadBlock c) (HomesteadBlock newcfg))
     else if isForkIncompatible (DAOForkBlock c) (DAOForkBlock newcfg) head then
       Some (newCompatError ''DAO fork block'' (DAOForkBlock c) (DAOForkBlock newcfg))
     else if IsDAOFork c head \<and> DAOForkSupport c \<noteq> DAOForkSupport newcfg then
       Some (newCompatError ''DAO fork support flag'' (DAOForkBlock c) (DAOForkBlock newcfg))
     else if isForkIncompatible (EIP150Block c) (EIP150Block newcfg) head then
       Some (newCompatError ''EIP150 fork block'' (EIP150Block c) (EIP150Block newcfg))
     else if isForkIncompatible (EIP155Block c) (EIP155Block newcfg) head then
       Some (newCompatError ''EIP155 fork block'' (EIP155Block c) (EIP155Block newcfg))
     else if isForkIncompatible (EIP158Block c) (EIP158Block newcfg) head then
       Some (newCompatError ''EIP158 fork block'' (EIP158Block c) (EIP158Block newcfg))
     else if IsEIP158 c head \<and> \<not> configNumEqual (ChainID c) (ChainID newcfg) then
       Some (newCompatError ''EIP158 chain ID'' (EIP158Block c) (EIP158Block newcfg))
     else if isForkIncompatible (ByzantiumBlock c) (ByzantiumBlock newcfg) head then
       Some (newCompatError ''Byzantium fork block'' (ByzantiumBlock c) (ByzantiumBlock newcfg))
     else if isForkIncompatible (ConstantinopleBlock c) (ConstantinopleBlock newcfg) head then
       Some (newCompatError ''Constantinople fork block'' (ConstantinopleBlock c) (ConstantinopleBlock newcfg))
     else if isForkIncompatible (PetersburgBlock c) (PetersburgBlock newcfg) head \<and>
        isForkIncompatible (ConstantinopleBlock c) (PetersburgBlock newcfg) head then
       Some (newCompatError ''Petersburg fork block'' (PetersburgBlock c) (PetersburgBlock newcfg))
     else if isForkIncompatible (IstanbulBlock c) (IstanbulBlock newcfg) head then
       Some (newCompatError ''Istanbul fork block'' (IstanbulBlock c) (IstanbulBlock newcfg))
     else if isForkIncompatible (MuirGlacierBlock c) (MuirGlacierBlock newcfg) head then
       Some (newCompatError ''Muir Glacier fork block'' (MuirGlacierBlock c) (MuirGlacierBlock newcfg))
     else if isForkIncompatible (BerlinBlock c) (BerlinBlock newcfg) head then
       Some (newCompatError ''Berlin fork block'' (BerlinBlock c) (BerlinBlock newcfg))
     else if isForkIncompatible (YoloV3Block c) (YoloV3Block newcfg) head then
       Some (newCompatError ''YOLOv3 fork block'' (YoloV3Block c) (YoloV3Block newcfg))
     else if isForkIncompatible (EWASMBlock c) (EWASMBlock newcfg) head then
       Some (newCompatError ''ewasm fork block'' (EWASMBlock c) (EWASMBlock newcfg))
     else if isForkIncompatible (RamanujanBlock c) (RamanujanBlock newcfg) head then
       Some (newCompatError ''ramanujan fork block'' (RamanujanBlock c) (RamanujanBlock newcfg))
     else if isForkIncompatible (MirrorSyncBlock c) (MirrorSyncBlock newcfg) head then
       Some (newCompatError ''mirrorSync fork block'' (MirrorSyncBlock c) (MirrorSyncBlock newcfg))
     else if isForkIncompatible (BrunoBlock c) (BrunoBlock newcfg) head then
       Some (newCompatError ''bruno fork block'' (BrunoBlock c) (BrunoBlock newcfg))
     else if isForkIncompatible (EulerBlock c) (EulerBlock newcfg) head then
       Some (newCompatError ''euler fork block'' (EulerBlock c) (EulerBlock newcfg))
     else if isForkIncompatible (ClassicBlock c) (ClassicBlock newcfg) head then
       Some (newCompatError ''ClassicBlock fork block'' (ClassicBlock c) (ClassicBlock newcfg))
     else None)"



datatype fork_order_error = NotEnabled string string int | OutOfOrder string int string int

fun forkOrder_loop :: "(string \<times> int option) option \<Rightarrow> (string \<times> int option) list \<Rightarrow> fork_order_error option" where
  "forkOrder_loop lf [] = None"
| "forkOrder_loop None (cur # rest) = forkOrder_loop (Some cur) rest"
| "forkOrder_loop (Some (lname, lblock)) ((cname, cblock) # rest) =
    (case (lblock, cblock) of
       (None, Some b) \<Rightarrow> Some (NotEnabled lname cname b)
     | (Some a, Some b) \<Rightarrow>
         if a > b then Some (OutOfOrder lname a cname b) else forkOrder_loop (Some (cname, cblock)) rest
     | (_, None) \<Rightarrow> forkOrder_loop (Some (cname, cblock)) rest)"

definition CheckConfigForkOrder :: "ChainConfig \<Rightarrow> fork_order_error option" where
  "CheckConfigForkOrder c = forkOrder_loop None
    [(''mirrorSyncBlock'', MirrorSyncBlock c), (''brunoBlock'', BrunoBlock c),
     (''berlinBlock'', BerlinBlock c), (''classicBlock'', ClassicBlock c)]"

section \<open>Configurations of the networks\<close>

definition BSCChainConfig :: ChainConfig where
  "BSCChainConfig =
    \<lparr>ChainID = Some 56, HomesteadBlock = Some 0, DAOForkBlock = None, DAOForkSupport = False,
     EIP150Block = Some 0, EIP150Hash = 0, EIP155Block = Some 0, EIP158Block = Some 0,
     ByzantiumBlock = Some 0, ConstantinopleBlock = Some 0, PetersburgBlock = Some 0,
     IstanbulBlock = Some 0, MuirGlacierBlock = Some 0, BerlinBlock = None, YoloV3Block = None,
     EWASMBlock = None, CatalystBlock = None, RamanujanBlock = Some 0, NielsBlock = Some 0,
     MirrorSyncBlock = Some 5184000, BrunoBlock = Some 13082000, EulerBlock = None,
     ClassicBlock = None, Parlia = Some \<lparr>Period = 3, Epoch = 200\<rparr>\<rparr>"

definition ChapelChainConfig :: ChainConfig where
  "ChapelChainConfig =
    \<lparr>ChainID = Some 97, HomesteadBlock = Some 0, DAOForkBlock = None, DAOForkSupport = False,
     EIP150Block = Some 0, EIP150Hash = 0, EIP155Block = Some 0, EIP158Block = Some 0,
     ByzantiumBlock = Some 0, ConstantinopleBlock = Some 0, PetersburgBlock = Some 0,
     IstanbulBlock = Some 0, MuirGlacierBlock = Some 0, BerlinBlock = None, YoloV3Block = None,
     EWASMBlock = None, CatalystBlock = None, RamanujanBlock = Some 1010000,
     NielsBlock = Some 1014369, MirrorSyncBlock = Some 5582500, BrunoBlock = Some 13837000,
     EulerBlock = Some 19203503, ClassicBlock = None,
     Parlia = Some \<lparr>Period = 3, Epoch = 200\<rparr>\<rparr>"

definition DexitChainTestNetConfig :: ChainConfig where
  "DexitChainTestNetConfig =
    \<lparr>ChainID = Some 908, HomesteadBlock = Some 0, DAOForkBlock = None, DAOForkSupport = False,
     EIP150Block = Some 0, EIP150Hash = 0, EIP155Block = Some 0, EIP158Block = Some 0,
     ByzantiumBlock = Some 0, ConstantinopleBlock = Some 0, PetersburgBlock = Some 0,
     IstanbulBlock = Some 0, MuirGlacierBlock = Some 350, BerlinBlock = Some 350, YoloV3Block = None,
     EWASMBlock = None, CatalystBlock = None, RamanujanBlock = Some 350, NielsBlock = Some 350,
     MirrorSyncBlock = Some 350, BrunoBlock = Some 350, EulerBlock = Some 350,
     ClassicBlock = Some 350, Parlia = Some \<lparr>Period = 3, Epoch = 50\<rparr>\<rparr>"

definition RialtoChainConfig :: ChainConfig where
  "RialtoChainConfig =
    \<lparr>ChainID = Some 1417, HomesteadBlock = Some 0, DAOForkBlock = None, DAOForkSupport = False,
     EIP150Block = Some 0, EIP150Hash = 0, EIP155Block = Some 0, EIP158Block = Some 0,
     ByzantiumBlock = Some 0, ConstantinopleBlock = Some 0, PetersburgBlock = Some 0,
     IstanbulBlock = Some 0, MuirGlacierBlock = Some 0, BerlinBlock = None, YoloV3Block = None,
     EWASMBlock = None, CatalystBlock = None, RamanujanBlock = Some 400, NielsBlock = Some 0,
     MirrorSyncBlock = Some 400, BrunoBlock = Some 400, EulerBlock = None, ClassicBlock = None,
     Parlia = Some \<lparr>Period = 3, Epoch = 200\<rparr>\<rparr>"

section \<open>Lemmas\<close>

lemma isForked_simps [simp]:
  "isForked None x = False" "isForked s None = False" "isForked (Some a) (Some h) \<longleftrightarrow> a \<le> h"
  by (auto simp: isForked_def split: option.splits)

lemma configNumEqual_iff [simp]: "configNumEqual x y \<longleftrightarrow> x = y"
  by (auto simp: configNumEqual_def split: option.splits)






text \<open>C28: The Niels and Catalyst switch blocks are not covered by the compatibility check: a
  configuration that moves either of them, even to a block already passed, is reported as
  compatible at every height.\<close>

theorem checkCompatible_ignores_Niels_Catalyst:
  "checkCompatible c (c\<lparr>NielsBlock := x, CatalystBlock := y\<rparr>) (Some h) = None"
  by (simp add: checkCompatible_def isForkIncompatible_def)

end
