(* ===== verification/Chain_Types.thy ===== *)
theory Chain_Types
  imports Rlp_Encode Params_Config
begin

text \<open>
  Block headers, \<open>core/types/block.go\<close> and \<open>core/types/hashing.go\<close>, and the view of the chain that a
  consensus engine has. Keccak-256 and the recovery of a secp256k1 public key are cryptographic
  libraries outside the sources: they are parameters, collected in \<open>crypto\<close>.
\<close>

section \<open>Headers\<close>

record header =
  h_ParentHash :: hash
  h_UncleHash :: hash
  h_Coinbase :: address
  h_Root :: hash
  h_TxHash :: hash
  h_ReceiptHash :: hash
  h_Bloom :: bytes
  h_Difficulty :: "int option"
  h_Number :: "int option"
  h_GasLimit :: u64
  h_GasUsed :: u64
  h_Time :: u64
  h_Extra :: bytes
  h_MixDigest :: hash
  h_Nonce :: u64

text \<open>\<open>header.Number.Uint64()\<close>. A decoded header always has a number; only \<open>verifyHeader\<close> is handed a
  header without one, and checks it first.\<close>

definition hnum :: "header \<Rightarrow> u64" where
  "hnum h = (case h_Number h of None \<Rightarrow> 0 | Some n \<Rightarrow> of_int n)"

record crypto =
  keccak256 :: "bytes \<Rightarrow> hash"
  Ecrecover :: "hash \<Rightarrow> bytes \<Rightarrow> bytes option"

definition empty_encbuf :: encbuf where
  "empty_encbuf = \<lparr>eb_str = [], eb_lheads = [], eb_lhsize = 0\<rparr>"

text \<open>\<open>rlpHash\<close> hashes what the encoder writes; when encoding fails nothing is written.\<close>

definition rlpHash :: "crypto \<Rightarrow> gval \<Rightarrow> hash" where
  "rlpHash cr x = (case EncodeToBytes empty_encbuf x of Ok b \<Rightarrow> keccak256 cr b | _ \<Rightarrow> keccak256 cr [])"

definition header_gval :: "header \<Rightarrow> gval" where
  "header_gval h = GStruct
    [GByteArray (hash_bytes (h_ParentHash h)), GByteArray (hash_bytes (h_UncleHash h)),
     GByteArray (addr_bytes (h_Coinbase h)), GByteArray (hash_bytes (h_Root h)),
     GByteArray (hash_bytes (h_TxHash h)), GByteArray (hash_bytes (h_ReceiptHash h)),
     GByteArray (h_Bloom h), GBig (h_Difficulty h), GBig (h_Number h), GUint (h_GasLimit h),
     GUint (h_GasUsed h), GUint (h_Time h), GBytes (h_Extra h), GByteArray (hash_bytes (h_MixDigest h)),
     GByteArray (be_fixed 8 (unat (h_Nonce h)))]"

definition Hash :: "crypto \<Rightarrow> header \<Rightarrow> hash" where
  "Hash cr h = rlpHash cr (header_gval h)"

datatype sanity_error = TooLargeNumber | TooLargeDifficulty | TooLargeExtra

text \<open>\<open>BitLen\<close> of a big integer is that of its absolute value.\<close>

definition SanityCheck :: "header \<Rightarrow> sanity_error option" where
  "SanityCheck h =
    (if (case h_Number h of None \<Rightarrow> False | Some n \<Rightarrow> \<not> (0 \<le> n \<and> n < 2 ^ 64)) then Some TooLargeNumber
     else if (case h_Difficulty h of None \<Rightarrow> False | Some d \<Rightarrow> bitlen (nat \<bar>d\<bar>) > 80) then Some TooLargeDifficulty
     else if length (h_Extra h) > 100 * 1024 then Some TooLargeExtra
     else None)"

definition EmptyRootHash :: hash where
  "EmptyRootHash = 0x56e81f171bcc55a6ff8345e692c0f86e5b48e01b996cadc001622fb5e363b421"

definition CalcUncleHash_nil :: "crypto \<Rightarrow> hash" where
  "CalcUncleHash_nil cr = rlpHash cr (GSlice [])"

definition EmptyBody :: "crypto \<Rightarrow> header \<Rightarrow> bool" where
  "EmptyBody cr h = (h_TxHash h = EmptyRootHash \<and> h_UncleHash h = CalcUncleHash_nil cr)"

section \<open>The chain as the engine sees it\<close>

record chain_reader =
  c_Config :: ChainConfig
  c_GetHeader :: "hash \<Rightarrow> u64 \<Rightarrow> header option"
  c_GetHeaderByNumber :: "u64 \<Rightarrow> header option"
  c_GetHighestVerifiedHeader :: "header option"

datatype forkhash_error = WrongForkHash

definition VerifyForkHashes :: "crypto \<Rightarrow> ChainConfig \<Rightarrow> header \<Rightarrow> bool \<Rightarrow> forkhash_error option" where
  "VerifyForkHashes cr config h uncle =
    (if uncle then None
     else if EIP150Block config \<noteq> None \<and> EIP150Block config = h_Number h \<and>
       EIP150Hash config \<noteq> 0 \<and> EIP150Hash config \<noteq> Hash cr h then Some WrongForkHash
     else None)"

section \<open>Lemmas\<close>

text \<open>A header that passes the sanity check has a block number that fits 64 bits, so its number is read
  without truncation, and a difficulty below two to the power eighty.\<close>

theorem SanityCheck_bounds:
  assumes "SanityCheck h = None" "h_Number h = Some n" "h_Difficulty h = Some d"
  shows "int (unat (hnum h)) = n \<and> \<bar>d\<bar> < 2 ^ 80 \<and> length (h_Extra h) \<le> 102400"
proof -
  have n: "0 \<le> n" "n < 2 ^ 64" and d: "bitlen (nat \<bar>d\<bar>) \<le> 80" and "length (h_Extra h) \<le> 102400"
    using assms by (auto simp: SanityCheck_def split: if_splits)
  have "uint (of_int n :: u64) = n" using n by (simp add: unsigned_of_int take_bit_int_eq_self)
  then have "int (unat (hnum h)) = n" using assms(2) by (simp add: hnum_def)
  moreover have "nat \<bar>d\<bar> < 2 ^ 80"
  proof (cases "nat \<bar>d\<bar> = 0")
    case False
    then have "nat \<bar>d\<bar> < 2 * 2 ^ (bitlen (nat \<bar>d\<bar>) - 1)" "0 < bitlen (nat \<bar>d\<bar>)"
      using bitlen_bounds [of "nat \<bar>d\<bar>"] by (auto simp: bitlen.simps [of "nat \<bar>d\<bar>"])
    moreover have "2 * 2 ^ (bitlen (nat \<bar>d\<bar>) - 1) \<le> (2 :: nat) ^ 80"
      using d \<open>0 < bitlen (nat \<bar>d\<bar>)\<close> by (metis One_nat_def Suc_pred one_le_numeral power_Suc power_increasing)
    ultimately show ?thesis by linarith
  qed simp
  then have "\<bar>d\<bar> < 2 ^ 80" by (simp add: nat_less_iff)
  ultimately show ?thesis using \<open>length (h_Extra h) \<le> 102400\<close> by simp
qed

theorem SanityCheck_bounds_witness:
  "int (unat (hnum \<lparr>h_ParentHash = 0, h_UncleHash = 0, h_Coinbase = 0, h_Root = 0, h_TxHash = 0,
     h_ReceiptHash = 0, h_Bloom = [], h_Difficulty = Some 2, h_Number = Some 12, h_GasLimit = 5000,
     h_GasUsed = 0, h_Time = 3, h_Extra = [], h_MixDigest = 0, h_Nonce = 0\<rparr>)) = 12"
proof -
  let ?h = "\<lparr>h_ParentHash = 0, h_UncleHash = 0, h_Coinbase = 0, h_Root = 0, h_TxHash = 0,
     h_ReceiptHash = 0, h_Bloom = [], h_Difficulty = Some 2, h_Number = Some 12, h_GasLimit = 5000,
     h_GasUsed = 0, h_Time = 3, h_Extra = [], h_MixDigest = 0, h_Nonce = 0\<rparr> :: header"
  have "SanityCheck ?h = None"
    by (simp add: SanityCheck_def bitlen.simps)
  then show ?thesis using SanityCheck_bounds [of ?h 12 2] by simp
qed

end
