(* ===== verification/Transactions.thy ===== *)
theory Transactions
  imports Chain_Types
begin

text \<open>
  Transactions and their signers, \<open>core/types/transaction.go\<close>, \<open>legacy_tx.go\<close>, \<open>access_list_tx.go\<close> and
  \<open>transaction_signing.go\<close>, with \<open>ValidateSignatureValues\<close> of \<open>crypto/crypto.go\<close>. \<open>copy\<close> turns a nil big
  integer into zero, so a transaction's amounts are plain integers here. The caches of a
  transaction (its hash, its size, its sender) only repeat values computed from it. The signer
  interface has four implementations, the constructors of \<open>signer\<close>.
\<close>

section \<open>Transactions\<close>

datatype tx_error = ErrInvalidSig | ErrUnexpectedProtection | ErrTxTypeNotSupported | ErrInvalidChainId | InvalidPublicKey | EcrecoverFailed

type_synonym AccessList = "(address \<times> hash list) list"

definition StorageKeys :: "AccessList \<Rightarrow> nat" where
  "StorageKeys al = sum_list (map (\<lambda>(a, ks). length ks) al)"

record LegacyTx =
  l_Nonce :: u64
  l_GasPrice :: int
  l_Gas :: u64
  l_To :: "address option"
  l_Value :: int
  l_Data :: bytes
  l_V :: int
  l_R :: int
  l_S :: int

record AccessListTx =
  a_ChainID :: int
  a_Nonce :: u64
  a_GasPrice :: int
  a_Gas :: u64
  a_To :: "address option"
  a_Value :: int
  a_Data :: bytes
  a_AccessList :: AccessList
  a_V :: int
  a_R :: int
  a_S :: int

datatype Transaction = Legacy LegacyTx | ALTx AccessListTx

definition NewTransaction :: "u64 \<Rightarrow> address \<Rightarrow> int \<Rightarrow> u64 \<Rightarrow> int \<Rightarrow> bytes \<Rightarrow> Transaction" where
  "NewTransaction nonce to amount gasLimit gasPrice data =
    Legacy \<lparr>l_Nonce = nonce, l_GasPrice = gasPrice, l_Gas = gasLimit, l_To = Some to, l_Value = amount, l_Data = data,
      l_V = 0, l_R = 0, l_S = 0\<rparr>"

definition NewContractCreation :: "u64 \<Rightarrow> int \<Rightarrow> u64 \<Rightarrow> int \<Rightarrow> bytes \<Rightarrow> Transaction" where
  "NewContractCreation nonce amount gasLimit gasPrice data =
    Legacy \<lparr>l_Nonce = nonce, l_GasPrice = gasPrice, l_Gas = gasLimit, l_To = None, l_Value = amount, l_Data = data,
      l_V = 0, l_R = 0, l_S = 0\<rparr>"

fun tx_Type :: "Transaction \<Rightarrow> u8" where
  "tx_Type (Legacy t) = 0"
| "tx_Type (ALTx t) = 1"

fun tx_Nonce :: "Transaction \<Rightarrow> u64" where
  "tx_Nonce (Legacy t) = l_Nonce t"
| "tx_Nonce (ALTx t) = a_Nonce t"

fun tx_GasPrice :: "Transaction \<Rightarrow> int" where
  "tx_GasPrice (Legacy t) = l_GasPrice t"
| "tx_GasPrice (ALTx t) = a_GasPrice t"

fun tx_Gas :: "Transaction \<Rightarrow> u64" where
  "tx_Gas (Legacy t) = l_Gas t"
| "tx_Gas (ALTx t) = a_Gas t"

fun tx_To :: "Transaction \<Rightarrow> address option" where
  "tx_To (Legacy t) = l_To t"
| "tx_To (ALTx t) = a_To t"

fun tx_Value :: "Transaction \<Rightarrow> int" where
  "tx_Value (Legacy t) = l_Value t"
| "tx_Value (ALTx t) = a_Value t"

fun tx_Data :: "Transaction \<Rightarrow> bytes" where
  "tx_Data (Legacy t) = l_Data t"
| "tx_Data (ALTx t) = a_Data t"

fun tx_AccessList :: "Transaction \<Rightarrow> AccessList" where
  "tx_AccessList (Legacy t) = []"
| "tx_AccessList (ALTx t) = a_AccessList t"

fun RawSignatureValues :: "Transaction \<Rightarrow> int \<times> int \<times> int" where
  "RawSignatureValues (Legacy t) = (l_V t, l_R t, l_S t)"
| "RawSignatureValues (ALTx t) = (a_V t, a_R t, a_S t)"

fun setSignatureValues :: "int option \<Rightarrow> int \<Rightarrow> int \<Rightarrow> int \<Rightarrow> Transaction \<Rightarrow> Transaction" where
  "setSignatureValues chainID v r s (Legacy t) = Legacy (t\<lparr>l_V := v, l_R := r, l_S := s\<rparr>)"
| "setSignatureValues chainID v r s (ALTx t) =
    ALTx (t\<lparr>a_ChainID := (case chainID of None \<Rightarrow> 0 | Some c \<Rightarrow> c), a_V := v, a_R := r, a_S := s\<rparr>)"

definition Cost :: "Transaction \<Rightarrow> int" where
  "Cost tx = tx_GasPrice tx * int (unat (tx_Gas tx)) + tx_Value tx"

text \<open>\<open>BitLen\<close> and \<open>Uint64\<close> of a big integer are those of its absolute value.\<close>

definition big_BitLen :: "int \<Rightarrow> nat" where
  "big_BitLen x = bitlen (nat \<bar>x\<bar>)"

definition big_Uint64 :: "int \<Rightarrow> u64" where
  "big_Uint64 x = of_nat (nat \<bar>x\<bar>)"

text \<open>\<open>Div\<close> of big integers is Euclidean, which is HOL's division for a positive divisor.\<close>

definition deriveChainId :: "int \<Rightarrow> int" where
  "deriveChainId v =
    (if big_BitLen v \<le> 64 then
       (let w = big_Uint64 v
        in if w = 27 \<or> w = 28 then 0 else int (unat ((w - 35) div 2)))
     else (v - 35) div 2)"

fun tx_ChainId :: "Transaction \<Rightarrow> int" where
  "tx_ChainId (Legacy t) = deriveChainId (l_V t)"
| "tx_ChainId (ALTx t) = a_ChainID t"

definition isProtectedV :: "int \<Rightarrow> bool" where
  "isProtectedV V =
    (if big_BitLen V \<le> 8 then
       (let v = big_Uint64 V in v \<noteq> 27 \<and> v \<noteq> 28 \<and> v \<noteq> 1 \<and> v \<noteq> 0)
     else True)"

fun Protected :: "Transaction \<Rightarrow> bool" where
  "Protected (Legacy t) = isProtectedV (l_V t)"
| "Protected (ALTx t) = True"

section \<open>Signature values\<close>

definition secp256k1N :: int where
  "secp256k1N = 0xfffffffffffffffffffffffffffffffebaaedce6af48a03bbfd25e8cd0364141"

definition secp256k1halfN :: int where
  "secp256k1halfN = secp256k1N div 2"

definition ValidateSignatureValues :: "u8 \<Rightarrow> int \<Rightarrow> int \<Rightarrow> bool \<Rightarrow> bool" where
  "ValidateSignatureValues v r s homestead =
    (if r < 1 \<or> s < 1 then False
     else if homestead \<and> s > secp256k1halfN then False
     else r < secp256k1N \<and> s < secp256k1N \<and> (v = 0 \<or> v = 1))"

definition sanityCheckSignature :: "int \<Rightarrow> int \<Rightarrow> int \<Rightarrow> bool \<Rightarrow> tx_error option" where
  "sanityCheckSignature v r s maybeProtected =
    (if isProtectedV v \<and> \<not> maybeProtected then Some ErrUnexpectedProtection
     else
       (let plainV =
          (if isProtectedV v then
             (let chainID = big_Uint64 (deriveChainId v) in ucast (big_Uint64 v - 35 - 2 * chainID))
           else if maybeProtected then ucast (big_Uint64 v - 27)
           else ucast (big_Uint64 v))
        in if \<not> ValidateSignatureValues plainV r s False then Some ErrInvalidSig else None))"

text \<open>\<open>decodeSignature\<close> panics unless the signature has 65 bytes; the addition to the last byte wraps.\<close>

definition decodeSignature :: "bytes \<Rightarrow> (tx_error, int \<times> int \<times> int) res" where
  "decodeSignature sig =
    (if length sig \<noteq> 65 then Panic
     else Ok (int (be_nat (take 32 sig)), int (be_nat (take 32 (drop 32 sig))), int (unat (sig ! 64 + 27))))"

definition recoverPlain :: "crypto \<Rightarrow> hash \<Rightarrow> int \<Rightarrow> int \<Rightarrow> int \<Rightarrow> bool \<Rightarrow> (tx_error, address) res" where
  "recoverPlain cr sighash R S Vb homestead =
    (if big_BitLen Vb > 8 then Err ErrInvalidSig
     else
       (let V = ucast (big_Uint64 Vb - 27) :: u8
        in if \<not> ValidateSignatureValues V R S homestead then Err ErrInvalidSig
           else
             (let sig = be_fixed 32 (nat R) @ be_fixed 32 (nat S) @ [V]
              in case Ecrecover cr sighash sig of
                   None \<Rightarrow> Err EcrecoverFailed
                 | Some pub \<Rightarrow>
                     if length pub = 0 \<or> pub ! 0 \<noteq> 4 then Err InvalidPublicKey
                     else Ok (ucast (keccak256 cr (drop 1 pub))))))"

section \<open>Signers\<close>

datatype signer = FrontierSigner | HomesteadSigner | EIP155Signer int | EIP2930Signer int

definition NewEIP155Signer :: "int option \<Rightarrow> signer" where
  "NewEIP155Signer chainId = EIP155Signer (case chainId of None \<Rightarrow> 0 | Some c \<Rightarrow> c)"

definition NewEIP2930Signer :: "int option \<Rightarrow> signer" where
  "NewEIP2930Signer chainId = EIP2930Signer (case chainId of None \<Rightarrow> 0 | Some c \<Rightarrow> c)"

definition MakeSigner :: "ChainConfig \<Rightarrow> int option \<Rightarrow> signer" where
  "MakeSigner config blockNumber =
    (if IsBerlin config blockNumber then NewEIP2930Signer (ChainID config)
     else if IsEIP155 config blockNumber then NewEIP155Signer (ChainID config)
     else if IsHomestead config blockNumber then HomesteadSigner
     else FrontierSigner)"

definition LatestSigner :: "ChainConfig \<Rightarrow> signer" where
  "LatestSigner config =
    (if ChainID config \<noteq> None \<and> (BerlinBlock config \<noteq> None \<or> YoloV3Block config \<noteq> None)
     then NewEIP2930Signer (ChainID config)
     else if ChainID config \<noteq> None \<and> EIP155Block config \<noteq> None then NewEIP155Signer (ChainID config)
     else HomesteadSigner)"

definition LatestSignerForChainID :: "int option \<Rightarrow> signer" where
  "LatestSignerForChainID chainID = (case chainID of None \<Rightarrow> HomesteadSigner | Some c \<Rightarrow> NewEIP2930Signer chainID)"

fun signer_ChainID :: "signer \<Rightarrow> int option" where
  "signer_ChainID (EIP2930Signer c) = Some c"
| "signer_ChainID (EIP155Signer c) = Some c"
| "signer_ChainID HomesteadSigner = None"
| "signer_ChainID FrontierSigner = None"

text \<open>The encoded values a signature covers. A nil recipient is a nil pointer to a byte array.\<close>

definition to_gval :: "address option \<Rightarrow> gval" where
  "to_gval a = (case a of None \<Rightarrow> GNilPtr String | Some x \<Rightarrow> GByteArray (addr_bytes x))"

definition access_gval :: "AccessList \<Rightarrow> gval" where
  "access_gval al = GSlice (map (\<lambda>(a, ks). GStruct [GByteArray (addr_bytes a), GSlice (map (\<lambda>k. GByteArray (hash_bytes k)) ks)]) al)"

definition plain_fields :: "Transaction \<Rightarrow> gval list" where
  "plain_fields tx =
    [GUint (tx_Nonce tx), GBig (Some (tx_GasPrice tx)), GUint (tx_Gas tx), to_gval (tx_To tx),
     GBig (Some (tx_Value tx)), GBytes (tx_Data tx)]"

definition prefixedRlpHash :: "crypto \<Rightarrow> u8 \<Rightarrow> gval \<Rightarrow> hash" where
  "prefixedRlpHash cr prefix x =
    (case EncodeToBytes empty_encbuf x of Ok b \<Rightarrow> keccak256 cr (prefix # b) | _ \<Rightarrow> keccak256 cr [prefix])"

definition frontier_Hash :: "crypto \<Rightarrow> Transaction \<Rightarrow> hash" where
  "frontier_Hash cr tx = rlpHash cr (GSlice (plain_fields tx))"

definition eip155_Hash :: "crypto \<Rightarrow> int \<Rightarrow> Transaction \<Rightarrow> hash" where
  "eip155_Hash cr c tx = rlpHash cr (GSlice (plain_fields tx @ [GBig (Some c), GUint 0, GUint 0]))"

definition eip2930_Hash :: "crypto \<Rightarrow> int \<Rightarrow> Transaction \<Rightarrow> hash" where
  "eip2930_Hash cr c tx =
    (case tx of
       Legacy t \<Rightarrow> rlpHash cr (GSlice (plain_fields tx @ [GBig (Some c), GUint 0, GUint 0]))
     | ALTx t \<Rightarrow> prefixedRlpHash cr (tx_Type tx) (GSlice (GBig (Some c) # plain_fields tx @ [access_gval (tx_AccessList tx)])))"

fun signer_Hash :: "crypto \<Rightarrow> signer \<Rightarrow> Transaction \<Rightarrow> hash" where
  "signer_Hash cr FrontierSigner tx = frontier_Hash cr tx"
| "signer_Hash cr HomesteadSigner tx = frontier_Hash cr tx"
| "signer_Hash cr (EIP155Signer c) tx = eip155_Hash cr c tx"
| "signer_Hash cr (EIP2930Signer c) tx = eip2930_Hash cr c tx"

definition frontier_SignatureValues :: "Transaction \<Rightarrow> bytes \<Rightarrow> (tx_error, int \<times> int \<times> int) res" where
  "frontier_SignatureValues tx sig =
    (if tx_Type tx \<noteq> 0 then Err ErrTxTypeNotSupported else decodeSignature sig)"

definition eip155_SignatureValues :: "int \<Rightarrow> Transaction \<Rightarrow> bytes \<Rightarrow> (tx_error, int \<times> int \<times> int) res" where
  "eip155_SignatureValues c tx sig =
    (if tx_Type tx \<noteq> 0 then Err ErrTxTypeNotSupported
     else map_res (\<lambda>(R, S, V). (R, S, if c \<noteq> 0 then int (unat (sig ! 64 + 35)) + 2 * c else V)) (decodeSignature sig))"

definition eip2930_SignatureValues :: "int \<Rightarrow> Transaction \<Rightarrow> bytes \<Rightarrow> (tx_error, int \<times> int \<times> int) res" where
  "eip2930_SignatureValues c tx sig =
    (case tx of
       Legacy t \<Rightarrow> eip155_SignatureValues c tx sig
     | ALTx t \<Rightarrow>
         if a_ChainID t \<noteq> 0 \<and> a_ChainID t \<noteq> c then Err ErrInvalidChainId
         else map_res (\<lambda>(R, S, V). (R, S, int (unat (sig ! 64)))) (decodeSignature sig))"

fun SignatureValues :: "signer \<Rightarrow> Transaction \<Rightarrow> bytes \<Rightarrow> (tx_error, int \<times> int \<times> int) res" where
  "SignatureValues FrontierSigner tx sig = frontier_SignatureValues tx sig"
| "SignatureValues HomesteadSigner tx sig = frontier_SignatureValues tx sig"
| "SignatureValues (EIP155Signer c) tx sig = eip155_SignatureValues c tx sig"
| "SignatureValues (EIP2930Signer c) tx sig = eip2930_SignatureValues c tx sig"

definition frontier_Sender :: "crypto \<Rightarrow> Transaction \<Rightarrow> (tx_error, address) res" where
  "frontier_Sender cr tx =
    (if tx_Type tx \<noteq> 0 then Err ErrTxTypeNotSupported
     else (let (v, r, s) = RawSignatureValues tx in recoverPlain cr (frontier_Hash cr tx) r s v False))"

definition homestead_Sender :: "crypto \<Rightarrow> Transaction \<Rightarrow> (tx_error, address) res" where
  "homestead_Sender cr tx =
    (if tx_Type tx \<noteq> 0 then Err ErrTxTypeNotSupported
     else (let (v, r, s) = RawSignatureValues tx in recoverPlain cr (frontier_Hash cr tx) r s v True))"

definition eip155_Sender :: "crypto \<Rightarrow> int \<Rightarrow> Transaction \<Rightarrow> (tx_error, address) res" where
  "eip155_Sender cr c tx =
    (if tx_Type tx \<noteq> 0 then Err ErrTxTypeNotSupported
     else if \<not> Protected tx then homestead_Sender cr tx
     else if tx_ChainId tx \<noteq> c then Err ErrInvalidChainId
     else (let (V, R, S) = RawSignatureValues tx
           in recoverPlain cr (eip155_Hash cr c tx) R S (V - 2 * c - 8) True))"

definition eip2930_Sender :: "crypto \<Rightarrow> int \<Rightarrow> Transaction \<Rightarrow> (tx_error, address) res" where
  "eip2930_Sender cr c tx =
    (let (V, R, S) = RawSignatureValues tx
     in case tx of
          Legacy t \<Rightarrow>
            if \<not> Protected tx then homestead_Sender cr tx
            else if tx_ChainId tx \<noteq> c then Err ErrInvalidChainId
            else recoverPlain cr (eip2930_Hash cr c tx) R S (V - 2 * c - 8) True
        | ALTx t \<Rightarrow>
            if tx_ChainId tx \<noteq> c then Err ErrInvalidChainId
            else recoverPlain cr (eip2930_Hash cr c tx) R S (V + 27) True)"

fun signer_Sender :: "crypto \<Rightarrow> signer \<Rightarrow> Transaction \<Rightarrow> (tx_error, address) res" where
  "signer_Sender cr FrontierSigner tx = frontier_Sender cr tx"
| "signer_Sender cr HomesteadSigner tx = homestead_Sender cr tx"
| "signer_Sender cr (EIP155Signer c) tx = eip155_Sender cr c tx"
| "signer_Sender cr (EIP2930Signer c) tx = eip2930_Sender cr c tx"

lemmas sender_defs = frontier_Sender_def homestead_Sender_def eip155_Sender_def eip2930_Sender_def

text \<open>\<open>Sender\<close> with its cache: the cached address of an equal signer, or a fresh one that is cached.\<close>

definition Sender :: "crypto \<Rightarrow> signer \<Rightarrow> (signer \<times> address) option \<Rightarrow> Transaction \<Rightarrow>
    (tx_error, address) res \<times> (signer \<times> address) option" where
  "Sender cr sg cache tx =
    (case cache of
       Some (sg', from) \<Rightarrow> if sg' = sg then (Ok from, cache)
         else (case signer_Sender cr sg tx of Ok a \<Rightarrow> (Ok a, Some (sg, a)) | r \<Rightarrow> (r, cache))
     | None \<Rightarrow> (case signer_Sender cr sg tx of Ok a \<Rightarrow> (Ok a, Some (sg, a)) | r \<Rightarrow> (r, cache)))"

definition WithSignature :: "signer \<Rightarrow> bytes \<Rightarrow> Transaction \<Rightarrow> (tx_error, Transaction) res" where
  "WithSignature sg sig tx =
    map_res (\<lambda>(r, s, v). setSignatureValues (signer_ChainID sg) v r s tx) (SignatureValues sg tx sig)"

text \<open>\<open>SignTx\<close>; the library function that signs a hash with the private key is the parameter \<open>sign\<close>.\<close>

definition SignTx :: "crypto \<Rightarrow> (hash \<Rightarrow> bytes option) \<Rightarrow> signer \<Rightarrow> Transaction \<Rightarrow> (tx_error, Transaction) res" where
  "SignTx cr sign sg tx =
    (case sign (signer_Hash cr sg tx) of
       None \<Rightarrow> Err ErrInvalidSig
     | Some sig \<Rightarrow> WithSignature sg sig tx)"

definition inner_gval :: "Transaction \<Rightarrow> gval" where
  "inner_gval tx =
    (case tx of
       Legacy t \<Rightarrow> GStruct (plain_fields tx @ [GBig (Some (l_V t)), GBig (Some (l_R t)), GBig (Some (l_S t))])
     | ALTx t \<Rightarrow> GStruct (GBig (Some (a_ChainID t)) # plain_fields tx @
         [access_gval (a_AccessList t), GBig (Some (a_V t)), GBig (Some (a_R t)), GBig (Some (a_S t))]))"

definition tx_Hash :: "crypto \<Rightarrow> Transaction \<Rightarrow> hash" where
  "tx_Hash cr tx =
    (if tx_Type tx = 0 then rlpHash cr (inner_gval tx) else prefixedRlpHash cr (tx_Type tx) (inner_gval tx))"

definition MarshalBinary :: "Transaction \<Rightarrow> (rlp_write_error, bytes) res" where
  "MarshalBinary tx =
    (if tx_Type tx = 0 then EncodeToBytes empty_encbuf (inner_gval tx)
     else map_res (\<lambda>b. tx_Type tx # b) (EncodeToBytes empty_encbuf (inner_gval tx)))"

definition TxDifference :: "crypto \<Rightarrow> Transaction list \<Rightarrow> Transaction list \<Rightarrow> Transaction list" where
  "TxDifference cr a b =
    (let remove = fset_of_list (map (tx_Hash cr) b)
     in filter (\<lambda>tx. tx_Hash cr tx |\<notin>| remove) a)"

section \<open>Messages\<close>

record Message =
  m_to :: "address option"
  m_from :: address
  m_nonce :: u64
  m_amount :: int
  m_gasLimit :: u64
  m_gasPrice :: int
  m_data :: bytes
  m_accessList :: AccessList
  m_checkNonce :: bool

definition AsMessage :: "crypto \<Rightarrow> signer \<Rightarrow> Transaction \<Rightarrow> (tx_error, Message) res" where
  "AsMessage cr sg tx =
    map_res (\<lambda>from.
      \<lparr>m_to = tx_To tx, m_from = from, m_nonce = tx_Nonce tx, m_amount = tx_Value tx, m_gasLimit = tx_Gas tx,
       m_gasPrice = tx_GasPrice tx, m_data = tx_Data tx, m_accessList = tx_AccessList tx, m_checkNonce = True\<rparr>)
      (signer_Sender cr sg tx)"

definition AsMessageNoNonceCheck :: "crypto \<Rightarrow> signer \<Rightarrow> Transaction \<Rightarrow> (tx_error, Message) res" where
  "AsMessageNoNonceCheck cr sg tx = map_res (\<lambda>m. m\<lparr>m_checkNonce := False\<rparr>) (AsMessage cr sg tx)"

section \<open>Lemmas\<close>

lemma bitlen_le_iff: "bitlen n \<le> k \<longleftrightarrow> n < 2 ^ k"
proof (induction k arbitrary: n)
  case 0
  then show ?case by (simp add: bitlen.simps [of n])
next
  case (Suc k)
  show ?case
  proof (cases "n = 0")
    case False
    then have "bitlen n \<le> Suc k \<longleftrightarrow> n div 2 < 2 ^ k" using Suc.IH [of "n div 2"] by (simp add: bitlen.simps [of n])
    then show ?thesis by (auto simp: less_mult_imp_div_less div_less_iff_less_mult mult.commute)
  qed (simp add: bitlen.simps [of 0])
qed

lemma big_BitLen_nonneg: "0 \<le> x \<Longrightarrow> big_BitLen x \<le> k \<longleftrightarrow> x < 2 ^ k"
  by (simp add: big_BitLen_def bitlen_le_iff nat_less_iff)

lemma big_Uint64_int [simp]: "big_Uint64 (int n) = of_nat n"
  by (simp add: big_Uint64_def)

lemma be_fixed_take: "length bs = n \<Longrightarrow> be_fixed n (be_nat bs) = bs"
  using be_fixed_be_nat by auto

text \<open>The value \<open>V\<close> of a protected signature encodes the chain identifier and the recovery bit.\<close>

lemma protected_V_nat:
  assumes "37 \<le> v"
  shows "isProtectedV (int v)" "deriveChainId (int v) = int ((v - 35) div 2)"
proof -
  have w: "(of_nat v :: u64) \<noteq> w" if "v < 2 ^ 64" "unat w < 37" for w
    using that assms unat_of_nat_u64 [of v] by auto
  show "isProtectedV (int v)"
    using w [of 27] w [of 28] w [of 1] w [of 0] big_BitLen_nonneg [of "int v" 8] by (simp add: isProtectedV_def Let_def)
  show "deriveChainId (int v) = int ((v - 35) div 2)"
  proof (cases "v < 2 ^ 64")
    case True
    have "unat ((of_nat v :: u64) - 35) = v - 35"
      using unat_of_nat_u64 [OF True] assms unat_sub [of 35 "of_nat v :: u64"] by (simp add: word_le_nat_alt)
    then have "unat (((of_nat v :: u64) - 35) div 2) = (v - 35) div 2" by (simp add: unat_div)
    then show ?thesis
      using True w [of 27] w [of 28] big_BitLen_nonneg [of "int v" 64] by (simp add: deriveChainId_def Let_def flip: uint_nat)
  next
    case False
    then have "\<not> big_BitLen (int v) \<le> 64" using big_BitLen_nonneg [of "int v" 64] by simp
    moreover have "(int v - 35) div 2 = int ((v - 35) div 2)" using assms by (simp add: zdiv_int of_nat_diff)
    ultimately show ?thesis by (simp add: deriveChainId_def)
  qed
qed

lemma protected_V:
  assumes "0 < c" "b = 0 \<or> b = (1 :: u8)"
  shows "isProtectedV (int (unat (b + 35)) + 2 * c)" "deriveChainId (int (unat (b + 35)) + 2 * c) = c"
    "int (unat (b + 35)) + 2 * c - 2 * c - 8 = 27 + int (unat b)"
proof -
  obtain k where k: "c = int k" "0 < k" using assms(1) by (metis pos_int_cases)
  have u: "unat (b + 35) = 35 + unat b" "unat b \<le> 1" using assms(2) by auto
  have V: "int (unat (b + 35)) + 2 * c = int (35 + unat b + 2 * k)" using u(1) k(1) by (simp del: uint_nat)
  have "37 \<le> 35 + unat b + 2 * k" using k(2) by simp
  from protected_V_nat [OF this] have "isProtectedV (int (35 + unat b + 2 * k))"
      "deriveChainId (int (35 + unat b + 2 * k)) = int ((35 + unat b + 2 * k - 35) div 2)" .
  moreover have "(35 + unat b + 2 * k - 35) div 2 = k" using u(2) by auto
  ultimately show "isProtectedV (int (unat (b + 35)) + 2 * c)" "deriveChainId (int (unat (b + 35)) + 2 * c) = c"
    unfolding V by (metis, metis k(1))
  show "int (unat (b + 35)) + 2 * c - 2 * c - 8 = 27 + int (unat b)" using assms(2) by auto
qed

lemma plain_fields_set [simp]: "plain_fields (setSignatureValues c v r s tx) = plain_fields tx"
  by (cases tx) (simp_all add: plain_fields_def)

lemma signer_Hash_set: "signer_Hash cr sg (setSignatureValues c v r s tx) = signer_Hash cr sg tx"
  by (cases sg; cases tx) (simp_all add: frontier_Hash_def eip155_Hash_def eip2930_Hash_def plain_fields_def)

text \<open>The address a 65-byte signature over a hash stands for.\<close>

definition sig_address :: "crypto \<Rightarrow> hash \<Rightarrow> bytes \<Rightarrow> (tx_error, address) res" where
  "sig_address cr h sig =
    (case Ecrecover cr h sig of
       None \<Rightarrow> Err EcrecoverFailed
     | Some pub \<Rightarrow> if length pub = 0 \<or> pub ! 0 \<noteq> 4 then Err InvalidPublicKey
         else Ok (ucast (keccak256 cr (drop 1 pub))))"

lemma recoverPlain_sig:
  assumes "length sig = 65" "sig ! 64 = 0 \<or> sig ! 64 = 1"
    and "ValidateSignatureValues (sig ! 64) (int (be_nat (take 32 sig))) (int (be_nat (take 32 (drop 32 sig)))) hom"
  shows "recoverPlain cr h (int (be_nat (take 32 sig))) (int (be_nat (take 32 (drop 32 sig)))) (27 + int (unat (sig ! 64))) hom =
    sig_address cr h sig"
proof -
  let ?V = "27 + int (unat (sig ! 64))"
  have V: "?V = 27 \<or> ?V = 28" using assms(2) by auto
  then have "\<not> big_BitLen ?V > 8" using big_BitLen_nonneg [of ?V 8] by auto
  moreover have "(ucast (big_Uint64 ?V - 27) :: u8) = sig ! 64"
    using assms(2) by (auto simp: big_Uint64_def)
  moreover have "be_fixed 32 (be_nat (take 32 sig)) @ be_fixed 32 (be_nat (take 32 (drop 32 sig))) @ [sig ! 64] = sig"
  proof -
    have "drop 64 sig = [sig ! 64]" using assms(1) Cons_nth_drop_Suc [of 64 sig] by simp
    moreover have "take 64 sig = take 32 sig @ take 32 (drop 32 sig)" using take_add [of 32 32 sig] by simp
    ultimately have "take 32 sig @ take 32 (drop 32 sig) @ [sig ! 64] = sig" using append_take_drop_id [of 64 sig] by simp
    moreover have "length (take 32 sig) = 32" "length (take 32 (drop 32 sig)) = 32" using assms(1) by simp_all
    ultimately show ?thesis by (simp only: be_fixed_take)
  qed
  moreover have "nat (int (be_nat x)) = be_nat x" for x by simp
  ultimately show ?thesis
    unfolding recoverPlain_def Let_def sig_address_def using assms(3) by (simp only: if_False if_True not_True_eq_False)
qed

section \<open>Properties\<close>

fun chain_signer :: "signer \<Rightarrow> bool" where
  "chain_signer (EIP155Signer c) = (0 < c)"
| "chain_signer (EIP2930Signer c) = (0 < c)"
| "chain_signer _ = True"

lemma unprotected_V: "b = 0 \<or> b = (1 :: u8) \<Longrightarrow> int (unat (b + 27)) = 27 + int (unat b)"
  by auto

lemma decodeSignature_Ok:
  "decodeSignature sig = Ok (R, S, V) \<longleftrightarrow> length sig = 65 \<and> R = int (be_nat (take 32 sig)) \<and>
    S = int (be_nat (take 32 (drop 32 sig))) \<and> V = int (unat (sig ! 64 + 27))"
  by (auto simp: decodeSignature_def simp del: uint_nat)

lemma eip155_WithSignature:
  assumes "0 < c" "sig ! 64 = 0 \<or> sig ! 64 = 1" "eip155_SignatureValues c tx sig = Ok (R, S, V)"
  shows "length sig = 65" "R = int (be_nat (take 32 sig))" "S = int (be_nat (take 32 (drop 32 sig)))"
    "isProtectedV V" "deriveChainId V = c" "V - 2 * c - 8 = 27 + int (unat (sig ! 64))" "tx_Type tx = 0"
proof -
  obtain V' where d: "decodeSignature sig = Ok (R, S, V')" "V = int (unat (sig ! 64 + 35)) + 2 * c" "tx_Type tx = 0"
    using assms(1,3) by (auto simp: eip155_SignatureValues_def simp del: uint_nat split: if_splits)
  then show "length sig = 65" "R = int (be_nat (take 32 sig))" "S = int (be_nat (take 32 (drop 32 sig)))" "tx_Type tx = 0"
    by (simp_all add: decodeSignature_Ok)
  show "isProtectedV V" "deriveChainId V = c" "V - 2 * c - 8 = 27 + int (unat (sig ! 64))"
    using protected_V [OF assms(1,2)] d(2) by metis+
qed

text \<open>C9: Signing and recovering agree: for every kind of signer and every 65-byte signature with recovery bit 0 or 1
  and values in range, the sender that the signed transaction yields is the address the signature stands for,
  over the hash the signer computed of the unsigned transaction.\<close>

theorem WithSignature_Sender:
  assumes "WithSignature sg sig tx = Ok tx'" "chain_signer sg" "sig ! 64 = 0 \<or> sig ! 64 = 1"
    and "ValidateSignatureValues (sig ! 64) (int (be_nat (take 32 sig))) (int (be_nat (take 32 (drop 32 sig)))) True"
  shows "signer_Sender cr sg tx' = sig_address cr (signer_Hash cr sg tx) sig"
proof -
  obtain R S V where v: "SignatureValues sg tx sig = Ok (R, S, V)" "tx' = setSignatureValues (signer_ChainID sg) V R S tx"
    using assms(1) by (auto simp: WithSignature_def)
  have anyhom: "ValidateSignatureValues (sig ! 64) (int (be_nat (take 32 sig))) (int (be_nat (take 32 (drop 32 sig)))) False"
    using assms(4) by (auto simp: ValidateSignatureValues_def split: if_splits)
  note hash = signer_Hash_set [of cr sg "signer_ChainID sg" V R S tx, folded v(2)]
  show ?thesis
  proof (cases sg)
    case FrontierSigner
    then obtain t where "tx = Legacy t" "decodeSignature sig = Ok (R, S, V)"
      using v(1) by (cases tx) (auto simp: frontier_SignatureValues_def)
    then show ?thesis
      using FrontierSigner v(2) hash recoverPlain_sig [OF _ assms(3) anyhom] unprotected_V [OF assms(3)]
      by (simp add: sender_defs decodeSignature_Ok del: uint_nat)
  next
    case HomesteadSigner
    then obtain t where "tx = Legacy t" "decodeSignature sig = Ok (R, S, V)"
      using v(1) by (cases tx) (auto simp: frontier_SignatureValues_def)
    then show ?thesis
      using HomesteadSigner v(2) hash recoverPlain_sig [OF _ assms(3,4)] unprotected_V [OF assms(3)]
      by (simp add: sender_defs decodeSignature_Ok del: uint_nat)
  next
    case (EIP155Signer c)
    then have c: "0 < c" "eip155_SignatureValues c tx sig = Ok (R, S, V)" using assms(2) v(1) by simp_all
    note e = eip155_WithSignature [OF c(1) assms(3) c(2)]
    then obtain t where "tx = Legacy t" by (cases tx) auto
    then show ?thesis
      using EIP155Signer v(2) hash e recoverPlain_sig [OF e(1) assms(3,4)] by (simp add: sender_defs del: uint_nat)
  next
    case (EIP2930Signer c)
    then have c: "0 < c" using assms(2) by simp
    show ?thesis
    proof (cases tx)
      case (Legacy t)
      then have "eip155_SignatureValues c tx sig = Ok (R, S, V)" using v(1) EIP2930Signer by (simp add: eip2930_SignatureValues_def)
      note e = eip155_WithSignature [OF c assms(3) this]
      show ?thesis using Legacy EIP2930Signer v(2) hash e recoverPlain_sig [OF e(1) assms(3,4)] by (simp add: sender_defs del: uint_nat)
    next
      case (ALTx t)
      then obtain V' where "decodeSignature sig = Ok (R, S, V')" "V = int (unat (sig ! 64))"
        using v(1) EIP2930Signer by (auto simp: eip2930_SignatureValues_def simp del: uint_nat split: if_splits)
      then show ?thesis
        using ALTx EIP2930Signer v(2) hash recoverPlain_sig [OF _ assms(3,4), of cr] by (simp add: sender_defs decodeSignature_Ok add.commute del: uint_nat)
    qed
  qed
qed

definition sample_sig :: bytes where
  "sample_sig = replicate 31 0 @ [7] @ replicate 31 0 @ [9] @ [1]"

definition sample_tx :: Transaction where
  "sample_tx = NewTransaction 3 0x1000 5 21000 10 [1, 2]"

lemma be_nat_zeros: "be_nat (replicate n 0 @ bs) = be_nat bs"
  by (induction n) (simp_all add: be_nat_Cons)

lemma sample_sig_facts: "length sample_sig = 65" "sample_sig ! 64 = 1" "be_nat (take 32 sample_sig) = 7"
  "be_nat (take 32 (drop 32 sample_sig)) = 9"
  by (simp_all add: sample_sig_def be_nat_zeros be_nat_zeros [of _ "[]", simplified] nth_append)

lemma sample_signed: "\<exists>tx'. WithSignature (EIP155Signer 56) sample_sig sample_tx = Ok tx'"
  by (simp add: WithSignature_def eip155_SignatureValues_def sample_tx_def NewTransaction_def decodeSignature_def sample_sig_facts)

theorem WithSignature_Sender_witness:
  "\<exists>tx'. WithSignature (EIP155Signer 56) sample_sig sample_tx = Ok tx' \<and>
    signer_Sender \<lparr>keccak256 = \<lambda>_. 5, Ecrecover = \<lambda>_ _. Some [4]\<rparr> (EIP155Signer 56) tx' = Ok 5"
proof -
  obtain tx' where "WithSignature (EIP155Signer 56) sample_sig sample_tx = Ok tx'" using sample_signed by blast
  moreover have "ValidateSignatureValues 1 7 9 True"
    by (simp add: ValidateSignatureValues_def secp256k1halfN_def secp256k1N_def)
  ultimately show ?thesis
    using WithSignature_Sender [of "EIP155Signer 56" sample_sig sample_tx tx' "\<lparr>keccak256 = \<lambda>_. 5, Ecrecover = \<lambda>_ _. Some [4]\<rparr>"]
    by (simp add: sample_sig_facts sig_address_def)
qed



end
