(* ===== verification/Forkid.thy ===== *)
theory Forkid
  imports Params_Config "HOL-Library.Multiset"
begin

text \<open>
  Fork identifiers, \<open>core/forkid/forkid.go\<close>: the checksum over the genesis hash and the passed fork
  blocks, the identifier a node announces, and the filter that decides whether a remote
  identifier is compatible with the local chain. The CRC-32 checksum of Go's standard library is
  the table-driven IEEE one.
\<close>

type_synonym u32 = "32 word"

section \<open>CRC-32\<close>

fun crc_bits :: "nat \<Rightarrow> u32 \<Rightarrow> u32" where
  "crc_bits 0 c = c"
| "crc_bits (Suc k) c = crc_bits k (if c AND 1 = 1 then drop_bit 1 c XOR 0xEDB88320 else drop_bit 1 c)"

definition IEEETable :: "u8 \<Rightarrow> u32" where
  "IEEETable b = crc_bits 8 (ucast b)"

definition crc_Update :: "u32 \<Rightarrow> bytes \<Rightarrow> u32" where
  "crc_Update crc p = NOT (foldl (\<lambda>c v. IEEETable (ucast c XOR v) XOR drop_bit 8 c) (NOT crc) p)"

definition ChecksumIEEE :: "bytes \<Rightarrow> u32" where
  "ChecksumIEEE p = crc_Update 0 p"

definition checksumUpdate :: "u32 \<Rightarrow> u64 \<Rightarrow> u32" where
  "checksumUpdate h fork = crc_Update h (be_fixed 8 (unat fork))"

definition checksumToBytes :: "u32 \<Rightarrow> bytes" where
  "checksumToBytes h = be_fixed 4 (unat h)"

section \<open>The fork list\<close>

text \<open>The fields of \<open>ChainConfig\<close> that the reflection loop of \<open>gatherForks\<close> selects: name ending in
  \<open>Block\<close>, type \<open>*big.Int\<close>, in the order of the struct.\<close>

definition fork_fields :: "ChainConfig \<Rightarrow> int option list" where
  "fork_fields c =
    [HomesteadBlock c, DAOForkBlock c, EIP150Block c, EIP155Block c, EIP158Block c, ByzantiumBlock c,
     ConstantinopleBlock c, PetersburgBlock c, IstanbulBlock c, MuirGlacierBlock c, BerlinBlock c,
     YoloV3Block c, EWASMBlock c, CatalystBlock c, RamanujanBlock c, NielsBlock c, MirrorSyncBlock c,
     BrunoBlock c, EulerBlock c, ClassicBlock c]"

definition swap :: "nat \<Rightarrow> nat \<Rightarrow> 'a list \<Rightarrow> 'a list" where
  "swap i j xs = xs[i := xs ! j, j := xs ! i]"

definition sort_inner :: "nat \<Rightarrow> u64 list \<Rightarrow> u64 list" where
  "sort_inner i xs = fold (\<lambda>j xs. if xs ! i > xs ! j then swap i j xs else xs) [i + 1..<length xs] xs"

definition sort_forks :: "u64 list \<Rightarrow> u64 list" where
  "sort_forks xs = fold sort_inner [0..<length xs] xs"

function dedup_loop :: "nat \<Rightarrow> u64 list \<Rightarrow> u64 list" where
  "dedup_loop i forks =
    (if i < length forks then
       (if forks ! i = forks ! (i - 1) then dedup_loop i (take i forks @ drop (i + 1) forks)
        else dedup_loop (i + 1) forks)
     else forks)"
  by pat_completeness auto
termination by (relation "measure (\<lambda>(i, forks). length forks - i)") auto

declare dedup_loop.simps [simp del]

definition gatherForks :: "ChainConfig \<Rightarrow> u64 list" where
  "gatherForks config =
    (let forks = map of_int (List.map_filter id (fork_fields config));
         forks = dedup_loop 1 (sort_forks forks)
     in if length forks > 0 \<and> forks ! 0 = 0 then drop 1 forks else forks)"

section \<open>Identifiers\<close>


fun passed_forks :: "u64 \<Rightarrow> u32 \<Rightarrow> u64 list \<Rightarrow> u32 \<times> u64" where
  "passed_forks head h [] = (h, 0)"
| "passed_forks head h (fork # forks) =
    (if fork \<le> head then passed_forks head (checksumUpdate h fork) forks else (h, fork))"


definition NextForkHash :: "ChainConfig \<Rightarrow> hash \<Rightarrow> u64 \<Rightarrow> bytes" where
  "NextForkHash config genesis head =
    (let (h, nxt) = passed_forks head (ChecksumIEEE (hash_bytes genesis)) (gatherForks config)
     in if nxt = 0 then checksumToBytes h else checksumToBytes (checksumUpdate h nxt))"

section \<open>The filter\<close>


fun scan_sums :: "u32 \<Rightarrow> u64 list \<Rightarrow> bytes list" where
  "scan_sums h [] = [checksumToBytes h]"
| "scan_sums h (fork # forks) = checksumToBytes h # scan_sums (checksumUpdate h fork) forks"




section \<open>The fork list is sorted and has no duplicates\<close>

lemma length_swap [simp]: "length (swap i j xs) = length xs"
  by (simp add: swap_def)

lemma mset_swap_idx: "i < length xs \<Longrightarrow> j < length xs \<Longrightarrow> mset (swap i j xs) = mset xs"
  by (simp add: swap_def mset_swap)

definition inner_step :: "nat \<Rightarrow> nat \<Rightarrow> u64 list \<Rightarrow> u64 list" where
  "inner_step i j xs = (if xs ! i > xs ! j then swap i j xs else xs)"

lemma inner_fold:
  assumes "i < m" "m \<le> length xs"
  shows "length (fold (inner_step i) [i + 1..<m] xs) = length xs \<and>
    mset (fold (inner_step i) [i + 1..<m] xs) = mset xs \<and>
    (\<forall>k < i. fold (inner_step i) [i + 1..<m] xs ! k = xs ! k) \<and>
    (\<forall>k. i \<le> k \<and> k < m \<longrightarrow> fold (inner_step i) [i + 1..<m] xs ! i \<le> fold (inner_step i) [i + 1..<m] xs ! k)"
  using assms
proof (induction m)
  case 0
  then show ?case by simp
next
  case (Suc m)
  show ?case
  proof (cases "i = m")
    case True
    then show ?thesis by (auto simp: le_less_Suc_eq)
  next
    case False
    with Suc.prems have im: "i < m" "m < length xs" by simp_all
    let ?ys = "fold (inner_step i) [i + 1..<m] xs"
    have IH: "length ?ys = length xs" "mset ?ys = mset xs" "\<forall>k < i. ?ys ! k = xs ! k"
        "\<forall>k. i \<le> k \<and> k < m \<longrightarrow> ?ys ! i \<le> ?ys ! k"
      using Suc.IH im by auto
    have "fold (inner_step i) [i + 1..<Suc m] xs = inner_step i m ?ys" using im by simp
    moreover have "mset (inner_step i m ?ys) = mset xs" "length (inner_step i m ?ys) = length xs"
      using IH im by (auto simp: inner_step_def mset_swap_idx)
    moreover have "\<forall>k < i. inner_step i m ?ys ! k = xs ! k"
      using IH im by (auto simp: inner_step_def swap_def)
    moreover have "inner_step i m ?ys ! i \<le> inner_step i m ?ys ! k" if "i \<le> k" "k < Suc m" for k
      using IH im that
      by (cases "k = m"; cases "k = i") (auto simp: inner_step_def swap_def nth_list_update not_less order.strict_implies_order intro: order_trans order.strict_implies_order)
    ultimately show ?thesis by simp
  qed
qed

lemma sort_inner_step: "sort_inner i xs = fold (inner_step i) [i + 1..<length xs] xs"
  unfolding sort_inner_def inner_step_def [abs_def] ..

lemma sort_fold:
  assumes "n \<le> length xs"
  shows "length (fold sort_inner [0..<n] xs) = length xs \<and> mset (fold sort_inner [0..<n] xs) = mset xs \<and>
    (\<forall>i j. i < n \<and> i < j \<and> j < length xs \<longrightarrow> fold sort_inner [0..<n] xs ! i \<le> fold sort_inner [0..<n] xs ! j)"
  using assms
proof (induction n)
  case 0
  then show ?case by simp
next
  case (Suc n)
  let ?ys = "fold sort_inner [0..<n] xs"
  have IH: "length ?ys = length xs" "mset ?ys = mset xs"
      "\<And>i j. i < n \<Longrightarrow> i < j \<Longrightarrow> j < length xs \<Longrightarrow> ?ys ! i \<le> ?ys ! j"
    using Suc by auto
  have n: "n < length ?ys" using Suc.prems IH by simp
  have eq: "fold sort_inner [0..<Suc n] xs = sort_inner n ?ys" by simp
  let ?zs = "sort_inner n ?ys"
  have I: "length ?zs = length xs" "mset ?zs = mset xs" "\<And>k. k < n \<Longrightarrow> ?zs ! k = ?ys ! k"
      "\<And>k. n \<le> k \<Longrightarrow> k < length xs \<Longrightarrow> ?zs ! n \<le> ?zs ! k"
    using inner_fold [OF n order_refl] IH unfolding sort_inner_step by auto
  have low: "?zs ! i \<le> ?zs ! j" if "i < n" "n \<le> j" "j < length xs" for i j
  proof -
    have "mset (take n ?zs) = mset (take n ?ys)"
      using I(1,3) IH(1) n by (intro arg_cong [of _ _ mset] nth_equalityI) auto
    then have "mset (drop n ?zs) = mset (drop n ?ys)"
      using I(2) IH(2) by (metis append_take_drop_id mset_append add_left_imp_eq)
    moreover have "?zs ! j \<in> set (drop n ?zs)"
      using that I(1) nth_mem [of "j - n" "drop n ?zs"] by simp
    ultimately have "?zs ! j \<in> set (drop n ?ys)" by (metis mset_eq_setD)
    then obtain k where "k < length xs - n" "?zs ! j = ?ys ! (n + k)"
      by (auto simp: in_set_conv_nth IH(1))
    then show ?thesis using IH(3) [of i "n + k"] I(3) that by simp
  qed
  show ?case
    unfolding eq using I low
    by (metis less_SucE less_imp_le not_less IH(3))
qed

lemma sort_forks_sorted: "sorted (sort_forks xs)" "mset (sort_forks xs) = mset xs"
  using sort_fold [of "length xs" xs]
  by (auto simp: sort_forks_def sorted_iff_nth_mono_less)

lemma dedup_loop_remdups_adj:
  "0 < i \<Longrightarrow> dedup_loop i xs = take (i - 1) xs @ remdups_adj (drop (i - 1) xs)"
proof (induction i xs rule: dedup_loop.induct)
  case (1 i xs)
  show ?case
  proof (cases "i < length xs")
    case False
    then have "length (drop (i - 1) xs) \<le> 1" by simp
    moreover have "remdups_adj ys = ys" if "length ys \<le> 1" for ys :: "u64 list"
      using that by (cases ys rule: remdups_adj.cases) auto
    ultimately have "remdups_adj (drop (i - 1) xs) = drop (i - 1) xs" by blast
    with False show ?thesis by (simp add: dedup_loop.simps [of i])
  next
    case True
    have d: "drop (i - 1) xs = xs ! (i - 1) # xs ! i # drop (i + 1) xs"
      using True 1(3) by (metis Cons_nth_drop_Suc Suc_diff_1 Suc_eq_plus1 Suc_lessD)
    show ?thesis
    proof (cases "xs ! i = xs ! (i - 1)")
      case eq: True
      have "drop (i - 1) (take i xs @ drop (i + 1) xs) = xs ! (i - 1) # drop (i + 1) xs"
        using True 1(3) by (cases i) (auto simp: drop_take take_Suc_conv_app_nth)
      then show ?thesis
        using True eq 1(1) [OF True eq 1(3)] d 1(3) by (simp add: dedup_loop.simps [of i xs] min_def)
    next
      case neq: False
      have "take i xs = take (i - 1) xs @ [xs ! (i - 1)]"
        using True 1(3) by (metis Suc_diff_1 Suc_lessD take_Suc_conv_app_nth)
      moreover have "drop i xs = xs ! i # drop (i + 1) xs"
        using True by (simp add: Cons_nth_drop_Suc)
      ultimately show ?thesis
        using True neq 1(2) [OF True neq] d by (simp add: dedup_loop.simps [of i xs])
    qed
  qed
qed

lemma sorted_remdups_adj_strict: "sorted xs \<Longrightarrow> sorted_wrt (<) (remdups_adj xs)"
proof (induction xs rule: remdups_adj.induct)
  case (3 x y xs)
  show ?case
  proof (cases "x = y")
    case True
    with 3 show ?thesis by simp
  next
    case False
    with 3(3) have "\<forall>z \<in> set (y # xs). x < z" by auto
    with False 3 show ?thesis by simp
  qed
qed simp_all

lemma gatherForks_set:
  "sorted_wrt (<) (gatherForks c) \<and>
   set (gatherForks c) = {of_int b |b. Some b \<in> set (fork_fields c)} - {0}"
proof -
  let ?xs = "map of_int (List.map_filter id (fork_fields c)) :: u64 list"
  let ?ds = "remdups_adj (sort_forks ?xs)"
  have srt: "sorted_wrt (<) ?ds" by (simp add: sorted_remdups_adj_strict sort_forks_sorted(1))
  have mf: "set (List.map_filter id ys) = {b. Some b \<in> set ys}" for ys :: "int option list"
    by (induction ys) (auto simp: List.map_filter_simps split: option.splits)
  have "set ?ds = set ?xs" using mset_eq_setD [OF sort_forks_sorted(2)] by simp
  also have "\<dots> = {of_int b |b. Some b \<in> set (fork_fields c)}" by (auto simp: mf)
  finally have st: "set ?ds = {of_int b |b. Some b \<in> set (fork_fields c)}" .
  have g: "gatherForks c = (if length ?ds > 0 \<and> ?ds ! 0 = 0 then drop 1 ?ds else ?ds)"
    by (simp add: gatherForks_def dedup_loop_remdups_adj Let_def)
  show ?thesis
  proof (cases ?ds)
    case Nil
    then show ?thesis using g st by simp
  next
    case (Cons d ds)
    have "0 \<notin> set ds" using srt Cons by (auto simp: word_not_simps)
    moreover have "0 \<notin> set ?ds" if "d \<noteq> 0" using that Cons \<open>0 \<notin> set ds\<close> by simp
    ultimately show ?thesis using g st srt Cons by (cases "d = 0") auto
  qed
qed


text \<open>C25: \<open>gatherForks\<close> collects exactly the non-zero block numbers of the fork fields that are set, in
  strictly ascending order: the exchange sort and the in-place removal of duplicates are correct.\<close>

theorem gatherForks_correct:
  "sorted_wrt (<) (gatherForks c) \<and>
   set (gatherForks c) = {of_int b |b. Some b \<in> set (fork_fields c)} - {0}"
  by (rule gatherForks_set)

section \<open>The filter on peers of the same chain\<close>

lemma length_scan_sums [simp]: "length (scan_sums h fs) = Suc (length fs)"
  by (induction h fs rule: scan_sums.induct) auto











end
