(* ===== verification/Parlia_Snapshot.thy ===== *)
theory Parlia_Snapshot
  imports Chain_Types Forkid "HOL-Library.Signed_Division"
begin

text \<open>
  The validator snapshot of the Parlia engine, \<open>consensus/parlia/snapshot.go\<close>: which addresses may
  sign, who signed recently, and how applying headers moves the snapshot forward. A
  \<open>map[common.Address]struct{}\<close> is a finite set, the maps from block numbers are finite maps; a
  loop over a Go map visits the entries in an unspecified order, and every such loop of the source
  computes a value that does not depend on it.

  The signature cache is the content of the ARC cache of a library outside the sources: looking a
  hash up returns the cached address, adding one is the parameter \<open>sig_add\<close>, which may evict.
\<close>

section \<open>Errors\<close>

datatype perr =
    errUnknownBlock | errMissingVanity | errMissingSignature | errExtraValidators
  | errInvalidSpanValidators | errInvalidMixDigest | errInvalidUncleHash
  | errMismatchingEpochValidators | errInvalidDifficulty | errWrongDifficulty
  | errOutOfRangeChain | errBlockHashInconsistent | errUnauthorizedValidator
  | errCoinBaseMisMatch | errRecentlySigned
  | ErrUnknownAncestor | ErrFutureBlock
  | InvalidValidatorsBytes | InvalidSignature | InvalidGasLimit | InvalidGasUsed | GasLimitOutOfBounds
  | ForkHashMismatch | UnclesNotAllowed | OutOfFuelSnapshot
  | CallFailed | NoActualTransaction | UnexpectedTransaction | SignTxFailed | SystemTxsLeft
  | SystemGasExceeded | UnAuthorizedTransaction | StoreFailed

definition extraVanity :: nat where "extraVanity = 32"
definition extraSeal :: nat where "extraSeal = 65"
definition nextForkHashSize :: nat where "nextForkHashSize = 4"
definition validatorBytesLength :: nat where "validatorBytesLength = 20"

lemmas parlia_consts = extraVanity_def extraSeal_def nextForkHashSize_def validatorBytesLength_def

section \<open>Recovering the signer of a header\<close>

definition encodeSigHeader :: "header \<Rightarrow> int option \<Rightarrow> (perr, bytes) res" where
  "encodeSigHeader h chainId =
    (if length (h_Extra h) < 65 then Panic
     else
       (case EncodeToBytes empty_encbuf (GSlice
          [GBig chainId, GByteArray (hash_bytes (h_ParentHash h)), GByteArray (hash_bytes (h_UncleHash h)),
           GByteArray (addr_bytes (h_Coinbase h)), GByteArray (hash_bytes (h_Root h)),
           GByteArray (hash_bytes (h_TxHash h)), GByteArray (hash_bytes (h_ReceiptHash h)),
           GByteArray (h_Bloom h), GBig (h_Difficulty h), GBig (h_Number h), GUint (h_GasLimit h),
           GUint (h_GasUsed h), GUint (h_Time h),
           GBytes (take (length (h_Extra h) - 65) (h_Extra h)),
           GByteArray (hash_bytes (h_MixDigest h)), GByteArray (be_fixed 8 (unat (h_Nonce h)))]) of
          Ok b \<Rightarrow> Ok b
        | _ \<Rightarrow> Panic))"

definition ParliaRLP :: "header \<Rightarrow> int option \<Rightarrow> (perr, bytes) res" where
  "ParliaRLP h chainId = encodeSigHeader h chainId"

definition SealHash :: "crypto \<Rightarrow> header \<Rightarrow> int option \<Rightarrow> (perr, hash) res" where
  "SealHash cr h chainId = map_res (keccak256 cr) (encodeSigHeader h chainId)"

type_synonym sigcache = "(hash, address) fmap"

definition recover :: "crypto \<Rightarrow> int option \<Rightarrow> header \<Rightarrow> (perr, address) res" where
  "recover cr chainId h =
    (if length (h_Extra h) < extraSeal then Err errMissingSignature
     else
       (let signature = drop (length (h_Extra h) - extraSeal) (h_Extra h)
        in bind_res (SealHash cr h chainId) (\<lambda>sh.
             case Ecrecover cr sh signature of
               None \<Rightarrow> Err InvalidSignature
             | Some pubkey \<Rightarrow> if pubkey = [] then Panic else Ok (ucast (keccak256 cr (drop 1 pubkey))))))"

definition ecrecover ::
  "crypto \<Rightarrow> (hash \<Rightarrow> address \<Rightarrow> sigcache \<Rightarrow> sigcache) \<Rightarrow> int option \<Rightarrow> header \<Rightarrow> sigcache
    \<Rightarrow> (perr, address) res \<times> sigcache" where
  "ecrecover cr sig_add chainId h cache =
    (case fmlookup cache (Hash cr h) of
       Some a \<Rightarrow> (Ok a, cache)
     | None \<Rightarrow>
         (case recover cr chainId h of
            Ok signer \<Rightarrow> (Ok signer, sig_add (Hash cr h) signer cache)
          | Err e \<Rightarrow> (Err e, cache)
          | Panic \<Rightarrow> (Panic, cache)))"

section \<open>Snapshots\<close>

record snapshot =
  s_config :: ParliaConfig
  s_Number :: u64
  s_Hash :: hash
  s_Validators :: "address fset"
  s_Recents :: "(u64, address) fmap"
  s_RecentForkHashes :: "(u64, string) fmap"

definition newSnapshot :: "ParliaConfig \<Rightarrow> u64 \<Rightarrow> hash \<Rightarrow> address list \<Rightarrow> snapshot" where
  "newSnapshot config number hsh validators =
    \<lparr>s_config = config, s_Number = number, s_Hash = hsh, s_Validators = fset_of_list validators,
     s_Recents = fmempty, s_RecentForkHashes = fmempty\<rparr>"

definition hex_digit :: "nat \<Rightarrow> char" where
  "hex_digit n = ''0123456789abcdef'' ! n"

definition hex_EncodeToString :: "bytes \<Rightarrow> string" where
  "hex_EncodeToString bs = concat (map (\<lambda>b. [hex_digit (unat b div 16), hex_digit (unat b mod 16)]) bs)"

definition isMajorityFork :: "snapshot \<Rightarrow> string \<Rightarrow> bool" where
  "isMajorityFork s forkHash =
    (fcard (ffilter (\<lambda>k. fmlookup (s_RecentForkHashes s) k = Some forkHash) (fmdom (s_RecentForkHashes s)))
      > fcard (fmdom (s_RecentForkHashes s)) div 2)"

text \<open>\<open>validators\<close>: the addresses in ascending order.\<close>

definition validators :: "snapshot \<Rightarrow> address list" where
  "validators s = sorted_list_of_fset (s_Validators s)"

text \<open>An empty validator set makes the remainder a division by zero.\<close>

definition supposeValidator :: "snapshot \<Rightarrow> (perr, address) res" where
  "supposeValidator s =
    (let vs = validators s
     in if length vs = 0 then Panic
        else Ok (vs ! unat ((s_Number s + 1) mod of_nat (length vs))))"

definition inturn :: "snapshot \<Rightarrow> address \<Rightarrow> (perr, bool) res" where
  "inturn s validator =
    (let vs = validators s
     in if length vs = 0 then Panic
        else Ok (vs ! unat ((s_Number s + 1) mod of_nat (length vs)) = validator))"

fun index_from :: "int \<Rightarrow> address \<Rightarrow> address list \<Rightarrow> int" where
  "index_from i v [] = -1"
| "index_from i v (w # ws) = (if w = v then i else index_from (i + 1) v ws)"

definition indexOfVal :: "snapshot \<Rightarrow> address \<Rightarrow> int" where
  "indexOfVal s validator = index_from 0 validator (validators s)"

definition enoughDistance :: "snapshot \<Rightarrow> address \<Rightarrow> header \<Rightarrow> bool" where
  "enoughDistance s validator h =
    (let idx = indexOfVal s validator;
         validatorNum = int (length (validators s));
         offset = sint (s_Number s + 1) smod validatorNum
     in if idx < 0 then True
        else if validatorNum = 1 then True
        else if validator = h_Coinbase h then False
        else if idx \<ge> offset then idx - offset \<ge> validatorNum - 2
        else validatorNum + idx - offset \<ge> validatorNum - 2)"

fun chunks :: "nat \<Rightarrow> bytes \<Rightarrow> bytes list" where
  "chunks 0 b = []"
| "chunks (Suc n) b = take validatorBytesLength b # chunks n (drop validatorBytesLength b)"

definition ParseValidators :: "bytes \<Rightarrow> (perr, address list) res" where
  "ParseValidators b =
    (if length b mod validatorBytesLength \<noteq> 0 then Err InvalidValidatorsBytes
     else Ok (map BytesToAddress (chunks (length b div validatorBytesLength) b)))"

section \<open>Looking up an ancestor\<close>

text \<open>\<open>sort.Search\<close>: binary search for the first index at which a monotone predicate holds.\<close>

function sort_Search_loop :: "nat \<Rightarrow> nat \<Rightarrow> (nat \<Rightarrow> bool) \<Rightarrow> nat" where
  "sort_Search_loop i j f =
    (if i < j then
       (let h = (i + j) div 2
        in if \<not> f h then sort_Search_loop (h + 1) j f else sort_Search_loop i h f)
     else i)"
  by pat_completeness auto
termination by (relation "measure (\<lambda>(i, j, f). j - i)") auto

declare sort_Search_loop.simps [simp del]

definition sort_Search :: "nat \<Rightarrow> (nat \<Rightarrow> bool) \<Rightarrow> nat" where
  "sort_Search n f = sort_Search_loop 0 n f"

definition find_parent :: "crypto \<Rightarrow> chain_reader \<Rightarrow> header list \<Rightarrow> header \<Rightarrow> header option" where
  "find_parent cr chain cands ancient =
    (let parentHash = h_ParentHash ancient;
         parentHeight = hnum ancient - 1;
         index = sort_Search (length cands) (\<lambda>i. hnum (cands ! i) \<ge> parentHeight)
     in if length cands > 0 \<and> index < length cands \<and> hnum (cands ! index) = parentHeight \<and>
          Hash cr (cands ! index) = parentHash
        then Some (cands ! index)
        else c_GetHeader chain parentHash parentHeight)"

primrec FindAncientHeader ::
  "nat \<Rightarrow> crypto \<Rightarrow> chain_reader \<Rightarrow> header list \<Rightarrow> header \<Rightarrow> header option" where
  "FindAncientHeader 0 cr chain cands h = Some h"
| "FindAncientHeader (Suc ite) cr chain cands h =
    (case find_parent cr chain cands h of
       None \<Rightarrow> None
     | Some a \<Rightarrow> FindAncientHeader ite cr chain cands a)"

section \<open>Applying headers\<close>

definition limit :: "snapshot \<Rightarrow> nat" where
  "limit s = fcard (s_Validators s) div 2 + 1"

definition shift_out :: "u64 \<Rightarrow> snapshot \<Rightarrow> snapshot" where
  "shift_out number snap =
    (let s1 = (let lim = of_nat (fcard (s_Validators snap) div 2 + 1)
               in if number \<ge> lim then snap\<lparr>s_Recents := fmdrop (number - lim) (s_Recents snap)\<rparr> else snap);
         lim = of_nat (fcard (s_Validators s1))
     in if number \<ge> lim then s1\<lparr>s_RecentForkHashes := fmdrop (number - lim) (s_RecentForkHashes s1)\<rparr> else s1)"

definition drop_range :: "u64 \<Rightarrow> nat \<Rightarrow> nat \<Rightarrow> (u64, 'a) fmap \<Rightarrow> (u64, 'a) fmap" where
  "drop_range number newLimit oldLimit m =
    fold (\<lambda>i m. fmdrop (number - of_nat newLimit - of_nat i) m) [0..<oldLimit - newLimit] m"

definition change_validators :: "u64 \<Rightarrow> address list \<Rightarrow> snapshot \<Rightarrow> snapshot" where
  "change_validators number newValArr snap =
    (let newVals = fset_of_list newValArr;
         old = fcard (s_Validators snap);
         new = fcard newVals
     in snap\<lparr>s_Recents := drop_range number (new div 2 + 1) (old div 2 + 1) (s_Recents snap),
             s_RecentForkHashes := drop_range number new old (s_RecentForkHashes snap),
             s_Validators := newVals\<rparr>)"

record parlia_env =
  e_crypto :: crypto
  e_sig_add :: "hash \<Rightarrow> address \<Rightarrow> sigcache \<Rightarrow> sigcache"
  e_chain :: chain_reader
  e_chainId :: "int option"

text \<open>One round of the loop of \<open>apply\<close>; \<open>epoch\<close> is \<open>s.config.Epoch\<close>.\<close>

definition apply_signer :: "u64 \<Rightarrow> address \<Rightarrow> snapshot \<Rightarrow> (perr, snapshot) res" where
  "apply_signer number validator snap =
    (if validator |\<notin>| s_Validators snap then Err errUnauthorizedValidator
     else if validator |\<in>| fmran (s_Recents snap) then Err errRecentlySigned
     else Ok (snap\<lparr>s_Recents := fmupd number validator (s_Recents snap)\<rparr>))"

definition apply_epoch ::
  "parlia_env \<Rightarrow> header list \<Rightarrow> u64 \<Rightarrow> header \<Rightarrow> snapshot \<Rightarrow> (perr, snapshot) res" where
  "apply_epoch E parents epoch h snap =
    (let number = hnum h; half = fcard (s_Validators snap) div 2
     in if number > 0 \<and> epoch = 0 then Panic
        else if number > 0 \<and> number mod epoch = of_nat half then
          (case FindAncientHeader half (e_crypto E) (e_chain E) parents h of
             None \<Rightarrow> Err ErrUnknownAncestor
           | Some checkpoint \<Rightarrow>
               bind_res (slice (h_Extra checkpoint) extraVanity (length (h_Extra checkpoint) - extraSeal)) (\<lambda>b.
                 bind_res (ParseValidators b) (\<lambda>newValArr. Ok (change_validators number newValArr snap))))
        else Ok snap)"

definition apply_forkhash :: "header \<Rightarrow> snapshot \<Rightarrow> (perr, snapshot) res" where
  "apply_forkhash h snap =
    bind_res (slice (h_Extra h) (extraVanity - nextForkHashSize) extraVanity) (\<lambda>b.
      Ok (snap\<lparr>s_RecentForkHashes := fmupd (hnum h) (hex_EncodeToString b) (s_RecentForkHashes snap)\<rparr>))"

definition apply_header ::
  "parlia_env \<Rightarrow> header list \<Rightarrow> u64 \<Rightarrow> header \<Rightarrow> snapshot \<Rightarrow> sigcache \<Rightarrow> (perr, snapshot) res \<times> sigcache" where
  "apply_header E parents epoch h snap cache =
    (let snap1 = shift_out (hnum h) snap
     in case ecrecover (e_crypto E) (e_sig_add E) (e_chainId E) h cache of
          (Ok validator, cache') \<Rightarrow>
            (bind_res (apply_signer (hnum h) validator snap1) (\<lambda>snap2.
               bind_res (apply_epoch E parents epoch h snap2) (apply_forkhash h)), cache')
        | (Err e, cache') \<Rightarrow> (Err e, cache')
        | (Panic, cache') \<Rightarrow> (Panic, cache'))"

fun apply_loop ::
  "parlia_env \<Rightarrow> header list \<Rightarrow> u64 \<Rightarrow> header list \<Rightarrow> snapshot \<Rightarrow> sigcache \<Rightarrow> (perr, snapshot) res \<times> sigcache" where
  "apply_loop E parents epoch [] snap cache = (Ok snap, cache)"
| "apply_loop E parents epoch (h # hs) snap cache =
    (case apply_header E parents epoch h snap cache of
       (Ok snap', cache') \<Rightarrow> apply_loop E parents epoch hs snap' cache'
     | (Err e, cache') \<Rightarrow> (Err e, cache')
     | (Panic, cache') \<Rightarrow> (Panic, cache'))"

fun contiguous :: "crypto \<Rightarrow> header list \<Rightarrow> perr option" where
  "contiguous cr (h # h' # hs) =
    (if hnum h' \<noteq> hnum h + 1 then Some errOutOfRangeChain
     else if h_ParentHash h' \<noteq> Hash cr h then Some errBlockHashInconsistent
     else contiguous cr (h' # hs))"
| "contiguous cr _ = None"

definition snap_apply ::
  "parlia_env \<Rightarrow> header list \<Rightarrow> header list \<Rightarrow> snapshot \<Rightarrow> sigcache \<Rightarrow> (perr, snapshot) res \<times> sigcache" where
  "snap_apply E parents headers s cache =
    (if headers = [] then (Ok s, cache)
     else case contiguous (e_crypto E) headers of
       Some e \<Rightarrow> (Err e, cache)
     | None \<Rightarrow>
         if hnum (headers ! 0) \<noteq> s_Number s + 1 then (Err errOutOfRangeChain, cache)
         else if h_ParentHash (headers ! 0) \<noteq> s_Hash s then (Err errBlockHashInconsistent, cache)
         else
           (case apply_loop E parents (Epoch (s_config s)) headers s cache of
              (Ok snap, cache') \<Rightarrow>
                (Ok (snap\<lparr>s_Number := s_Number snap + of_nat (length headers),
                         s_Hash := Hash (e_crypto E) (last headers)\<rparr>), cache')
            | (r, cache') \<Rightarrow> (r, cache')))"

section \<open>The window of recent signers\<close>

lemma drop_range_lookup:
  "fmlookup (drop_range number new old m) k =
    (if \<exists>i < old - new. k = number - of_nat new - of_nat i then None else fmlookup m k)"
proof -
  have "fmlookup (fold (\<lambda>i m. fmdrop (number - of_nat new - of_nat i) m) [0..<n] m) k =
    (if \<exists>i < n. k = number - of_nat new - of_nat i then None else fmlookup m k)" for n
    by (induction n) (auto simp: less_Suc_eq)
  then show ?thesis by (simp add: drop_range_def)
qed

text \<open>\<open>win n s\<close>: after block \<open>n\<close>, the recent entries are of the last \<open>limit\<close> blocks, and no
  address occurs twice.\<close>

definition win :: "nat \<Rightarrow> snapshot \<Rightarrow> bool" where
  "win n s \<longleftrightarrow> fcard (s_Validators s) < 2 ^ 62 \<and>
    (\<forall>k v. fmlookup (s_Recents s) k = Some v \<longrightarrow> unat k \<le> n \<and> n < unat k + limit s) \<and>
    (\<forall>j k v. fmlookup (s_Recents s) j = Some v \<longrightarrow> fmlookup (s_Recents s) k = Some v \<longrightarrow> j = k)"

definition snap_inv :: "snapshot \<Rightarrow> bool" where
  "snap_inv s \<longleftrightarrow> win (unat (s_Number s)) s"

lemma limit_pos [simp]: "0 < limit s"
  by (simp add: limit_def)

lemma limit_less: "fcard (s_Validators s) < 2 ^ 62 \<Longrightarrow> limit s < 2 ^ 62"
  by (simp add: limit_def)

lemma shift_out_sel [simp]:
  "s_Validators (shift_out n s) = s_Validators s" "limit (shift_out n s) = limit s"
  "s_config (shift_out n s) = s_config s" "s_Number (shift_out n s) = s_Number s" "s_Hash (shift_out n s) = s_Hash s"
  by (simp_all add: shift_out_def Let_def limit_def)

lemma shift_out_Recents:
  assumes "limit s < 2 ^ 62"
  shows "fmlookup (s_Recents (shift_out n s)) k =
    (if limit s \<le> unat n \<and> unat k = unat n - limit s then None else fmlookup (s_Recents s) k)"
proof -
  have u: "unat (of_nat (limit s) :: u64) = limit s" using assms by (simp add: unat_of_nat_u64)
  have "of_nat (limit s) \<le> n \<longleftrightarrow> limit s \<le> unat n" by (simp add: word_le_nat_alt u)
  moreover have "limit s \<le> unat n \<Longrightarrow> k = n - of_nat (limit s) \<longleftrightarrow> unat k = unat n - limit s"
    by (simp add: word_unat_eq_iff unat_sub word_le_nat_alt u)
  ultimately show ?thesis by (auto simp: shift_out_def Let_def limit_def)
qed

lemma shift_out_win:
  assumes "win n s" "unat m = Suc n"
  shows "\<forall>k v. fmlookup (s_Recents (shift_out m s)) k = Some v \<longrightarrow> unat k \<le> n \<and> Suc n < unat k + limit s"
    and "\<forall>j k v. fmlookup (s_Recents (shift_out m s)) j = Some v \<longrightarrow>
      fmlookup (s_Recents (shift_out m s)) k = Some v \<longrightarrow> j = k"
proof -
  have l: "limit s < 2 ^ 62" using assms(1) unfolding win_def by (blast intro: limit_less)
  show "\<forall>j k v. fmlookup (s_Recents (shift_out m s)) j = Some v \<longrightarrow>
      fmlookup (s_Recents (shift_out m s)) k = Some v \<longrightarrow> j = k"
    using assms(1) by (auto simp: shift_out_Recents [OF l] win_def split: if_splits)
  show "\<forall>k v. fmlookup (s_Recents (shift_out m s)) k = Some v \<longrightarrow> unat k \<le> n \<and> Suc n < unat k + limit s"
  proof (intro allI impI)
    fix k v assume "fmlookup (s_Recents (shift_out m s)) k = Some v"
    then have k: "fmlookup (s_Recents s) k = Some v" "\<not> (limit s \<le> Suc n \<and> unat k = Suc n - limit s)"
      using assms(2) by (auto simp: shift_out_Recents [OF l] split: if_splits)
    then have "unat k \<le> n" "n < unat k + limit s" using assms(1) by (auto simp: win_def)
    with k(2) show "unat k \<le> n \<and> Suc n < unat k + limit s" by auto
  qed
qed

lemma apply_signer_Ok:
  "apply_signer m v s = Ok s' \<longleftrightarrow> v |\<in>| s_Validators s \<and> v |\<notin>| fmran (s_Recents s) \<and>
    s' = s\<lparr>s_Recents := fmupd m v (s_Recents s)\<rparr>"
  by (auto simp: apply_signer_def)

lemma apply_signer_win:
  assumes "win n s" "unat m = Suc n" "apply_signer m v (shift_out m s) = Ok s'"
  shows "win (Suc n) s'" "fmlookup (s_Recents s') m = Some v" "v |\<in>| s_Validators s"
    "s_Validators s' = s_Validators s"
proof -
  from assms(3) have s': "s' = (shift_out m s)\<lparr>s_Recents := fmupd m v (s_Recents (shift_out m s))\<rparr>"
      and v: "v |\<in>| s_Validators s" "\<And>k. fmlookup (s_Recents (shift_out m s)) k \<noteq> Some v"
    by (auto simp: apply_signer_Ok intro: fmranI)
  note w = shift_out_win [OF assms(1,2)]
  have "limit s' = limit s" by (simp add: s' limit_def)
  then show "win (Suc n) s'"
    using w v(2) assms(1,2) unfolding win_def by (auto simp: s' split: if_splits)
  show "fmlookup (s_Recents s') m = Some v" "v |\<in>| s_Validators s" "s_Validators s' = s_Validators s"
    using v by (simp_all add: s')
qed

lemma change_validators_win:
  assumes "win n s" "unat m = n" "length newVals < 2 ^ 62"
  shows "win n (change_validators m newVals s)"
proof -
  let ?s = "change_validators m newVals s"
  let ?new = "fcard (fset_of_list newVals)"
  have nb: "?new < 2 ^ 62"
    using assms(3) by (metis card_length fcard.rep_eq fset_of_list.rep_eq order_le_less_trans)
  have ln: "limit ?s = ?new div 2 + 1" by (simp add: change_validators_def limit_def Let_def)
  have sub: "fmlookup (s_Recents s) k = Some v" if "fmlookup (s_Recents ?s) k = Some v" for k v
    using that by (auto simp: change_validators_def Let_def drop_range_lookup split: if_splits)
  have win: "n < unat k + limit ?s" if k: "fmlookup (s_Recents ?s) k = Some v" for k v
  proof (rule ccontr)
    assume c: "\<not> n < unat k + limit ?s"
    have k1: "unat k \<le> n" "n < unat k + limit s" using sub [OF k] assms(1) by (auto simp: win_def)
    define i where "i = n - limit ?s - unat k"
    have i: "i < limit s - limit ?s" "n - limit ?s - i = unat k" using c k1 by (auto simp: i_def)
    have "of_nat (limit ?s) + of_nat i + k = m"
    proof -
      have "(of_nat (limit ?s + i + unat k) :: u64) = of_nat (unat m)" using c k1 assms(2) by (simp add: i_def del: of_nat_add)
      then show ?thesis by simp
    qed
    then have "k = m - of_nat (limit ?s) - of_nat i" by (simp add: algebra_simps)
    with i(1) have "fmlookup (s_Recents ?s) k = None"
      by (auto simp: change_validators_def Let_def drop_range_lookup limit_def)
    with k show False by simp
  qed
  show ?thesis
    using assms(1) sub win nb unfolding win_def by (auto simp: change_validators_def Let_def)
qed

section \<open>Applying a header\<close>

lemma sort_Search_loop_bounds: "i \<le> j \<Longrightarrow> i \<le> sort_Search_loop i j f \<and> sort_Search_loop i j f \<le> j"
proof (induction i j f rule: sort_Search_loop.induct)
  case (1 i j f)
  show ?case using 1 by (subst (1 2) sort_Search_loop.simps) (force simp: Let_def)
qed

lemma find_parent_source:
  "find_parent cr chain cands h = Some a \<Longrightarrow> a \<in> set cands \<or> (\<exists>x y. c_GetHeader chain x y = Some a)"
  by (auto simp: find_parent_def Let_def split: if_splits)

lemma FindAncientHeader_source:
  "FindAncientHeader n cr chain cands h = Some a \<Longrightarrow> a = h \<or> a \<in> set cands \<or> (\<exists>x y. c_GetHeader chain x y = Some a)"
  by (induction n arbitrary: h) (auto split: option.splits dest: find_parent_source)

text \<open>The extra-data of every header that can be reached has a length an address space allows.\<close>

definition extras_fit :: "parlia_env \<Rightarrow> header list \<Rightarrow> bool" where
  "extras_fit E hs \<longleftrightarrow> (\<forall>x y h. c_GetHeader (e_chain E) x y = Some h \<longrightarrow> length (h_Extra h) < 2 ^ 62) \<and>
    (\<forall>h \<in> set hs. length (h_Extra h) < 2 ^ 62)"

lemma length_chunks [simp]: "length (chunks n b) = n"
  by (induction n arbitrary: b) simp_all

lemma ParseValidators_Ok: "ParseValidators b = Ok vs \<longleftrightarrow>
  length b mod validatorBytesLength = 0 \<and> vs = map BytesToAddress (chunks (length b div validatorBytesLength) b)"
  by (auto simp: ParseValidators_def)

lemma apply_epoch_Ok:
  assumes "apply_epoch E parents epoch h s = Ok s'"
  obtains "s' = s" | newVals where "s' = change_validators (hnum h) newVals s"
    "extras_fit E (h # parents) \<longrightarrow> length newVals < 2 ^ 62"
proof -
  show thesis
  proof (cases "hnum h > 0 \<and> hnum h mod epoch = of_nat (fcard (s_Validators s) div 2) \<and> epoch \<noteq> 0")
    case False
    then have "s' = s" using assms by (auto simp: apply_epoch_def Let_def split: if_splits)
    then show thesis using that(1) by simp
  next
    case True
    then obtain cp b newVals where cp:
        "FindAncientHeader (fcard (s_Validators s) div 2) (e_crypto E) (e_chain E) parents h = Some cp"
        "slice (h_Extra cp) extraVanity (length (h_Extra cp) - extraSeal) = (Ok b :: (perr, bytes) res)"
        "ParseValidators b = Ok newVals" "s' = change_validators (hnum h) newVals s"
      using assms by (auto simp: apply_epoch_def Let_def split: option.splits)
    have "length newVals \<le> length (h_Extra cp)"
      using cp(2,3) by (auto simp: ParseValidators_Ok parlia_consts)
    moreover have "extras_fit E (h # parents) \<longrightarrow> length (h_Extra cp) < 2 ^ 62"
      using FindAncientHeader_source [OF cp(1)] by (auto simp: extras_fit_def)
    ultimately show thesis using that(2) [OF cp(4)] by linarith
  qed
qed

text \<open>What an accepted header does: its signer is authorised and not among the recent ones, it is
  recorded, the window moves on.\<close>

lemma apply_header_Ok:
  assumes "apply_header E parents epoch h s cache = (Ok s', cache')"
  obtains v s2 s3 where "ecrecover (e_crypto E) (e_sig_add E) (e_chainId E) h cache = (Ok v, cache')"
    "apply_signer (hnum h) v (shift_out (hnum h) s) = Ok s2"
    "apply_epoch E parents epoch h s2 = Ok s3" "apply_forkhash h s3 = Ok s'"
  using assms by (auto simp: apply_header_def Let_def split: prod.splits res.splits)

lemma apply_forkhash_sel:
  assumes "apply_forkhash h s = Ok s'"
  shows "s_config s' = s_config s \<and> s_Number s' = s_Number s \<and> s_Hash s' = s_Hash s"
  using assms by (auto simp: apply_forkhash_def)

lemma apply_forkhash_Ok:
  assumes "apply_forkhash h s = Ok s'"
  shows "s_Validators s' = s_Validators s" "s_Recents s' = s_Recents s" "limit s' = limit s"
  using assms by (auto simp: apply_forkhash_def limit_def)

lemma change_validators_sel [simp]:
  "s_config (change_validators m vs s) = s_config s" "s_Number (change_validators m vs s) = s_Number s"
  "s_Hash (change_validators m vs s) = s_Hash s"
  by (simp_all add: change_validators_def Let_def)

lemma apply_epoch_sel:
  assumes "apply_epoch E parents epoch h s = Ok s'"
  shows "s_config s' = s_config s \<and> s_Number s' = s_Number s \<and> s_Hash s' = s_Hash s"
  using assms by (rule apply_epoch_Ok) auto

lemma apply_header_sel:
  assumes "apply_header E parents epoch h s cache = (Ok s', cache')"
  shows "s_config s' = s_config s" "s_Number s' = s_Number s" "s_Hash s' = s_Hash s"
  using assms by (auto elim!: apply_header_Ok dest!: apply_epoch_sel apply_forkhash_sel simp: apply_signer_Ok)

lemma apply_header_win:
  assumes "apply_header E parents epoch h s cache = (Ok s', cache')"
    and "win n s" "unat (hnum h) = Suc n" "extras_fit E (h # parents)"
  shows "win (Suc n) s'"
proof -
  obtain v s2 s3 where s: "apply_signer (hnum h) v (shift_out (hnum h) s) = Ok s2"
      "apply_epoch E parents epoch h s2 = Ok s3" "apply_forkhash h s3 = Ok s'"
    using assms(1) by (rule apply_header_Ok)
  have w2: "win (Suc n) s2" by (rule apply_signer_win [OF assms(2,3) s(1)])
  have "win (Suc n) s3"
    using s(2) by (rule apply_epoch_Ok) (use w2 assms(3,4) in \<open>auto intro!: change_validators_win\<close>)
  then show ?thesis using apply_forkhash_Ok [OF s(3)] by (simp add: win_def)
qed

section \<open>Applying a sequence of headers\<close>

lemma apply_loop_append:
  "apply_loop E parents epoch (hs @ hs') s cache =
    (case apply_loop E parents epoch hs s cache of
       (Ok s', cache') \<Rightarrow> apply_loop E parents epoch hs' s' cache'
     | (Err e, cache') \<Rightarrow> (Err e, cache') | (Panic, cache') \<Rightarrow> (Panic, cache'))"
  by (induction hs arbitrary: s cache) (auto split: prod.splits res.splits)

lemma apply_loop_append_Ok:
  assumes "apply_loop E parents epoch (hs @ hs') s cache = (Ok s', cache')"
  obtains s1 c1 where "apply_loop E parents epoch hs s cache = (Ok s1, c1)"
    "apply_loop E parents epoch hs' s1 c1 = (Ok s', cache')"
  using assms by (auto simp: apply_loop_append split: prod.splits res.splits)

lemma apply_loop_Cons_Ok:
  assumes "apply_loop E parents epoch (h # hs) s cache = (Ok s', cache')"
  obtains s1 c1 where "apply_header E parents epoch h s cache = (Ok s1, c1)"
    "apply_loop E parents epoch hs s1 c1 = (Ok s', cache')"
  using assms by (auto split: prod.splits res.splits)

text \<open>\<open>numbered m hs\<close>: the headers carry the block numbers \<open>m\<close>, \<open>m + 1\<close>, and so on.\<close>

fun numbered :: "nat \<Rightarrow> header list \<Rightarrow> bool" where
  "numbered m [] = True"
| "numbered m (h # hs) = (unat (hnum h) = m \<and> numbered (Suc m) hs)"

lemma numbered_append [simp]: "numbered m (hs @ hs') \<longleftrightarrow> numbered m hs \<and> numbered (m + length hs) hs'"
  by (induction hs arbitrary: m) auto

lemma numbered_nth: "numbered m hs \<Longrightarrow> i < length hs \<Longrightarrow> unat (hnum (hs ! i)) = m + i"
proof (induction hs arbitrary: m i)
  case (Cons h hs)
  then show ?case by (cases i) auto
qed simp

lemma contiguous_numbered:
  "contiguous cr hs = None \<Longrightarrow> hs \<noteq> [] \<Longrightarrow> unat (hnum (hs ! 0)) + length hs \<le> 2 ^ 64 \<Longrightarrow>
    numbered (unat (hnum (hs ! 0))) hs"
proof (induction cr hs rule: contiguous.induct)
  case (1 cr h h' hs)
  then have n: "hnum h' = hnum h + 1" by (auto split: if_splits)
  have "unat (hnum h + 1) = Suc (unat (hnum h))"
    using 1(3,4) "1.prems"(3) by (simp add: unat_plus_simple unat_word_ariths(1))
  then show ?case using 1 n by (auto split: if_splits)
qed auto

lemma apply_loop_win:
  assumes "apply_loop E parents epoch hs s cache = (Ok s', cache')"
    and "win n s" "numbered (Suc n) hs" "extras_fit E (hs @ parents)"
  shows "win (n + length hs) s'"
  using assms
proof (induction hs arbitrary: s cache n)
  case (Cons h hs)
  obtain s1 c1 where s1: "apply_header E parents epoch h s cache = (Ok s1, c1)"
      "apply_loop E parents epoch hs s1 c1 = (Ok s', cache')"
    using Cons.prems(1) by (rule apply_loop_Cons_Ok)
  have "win (Suc n) s1"
    using s1(1) Cons.prems by (auto intro!: apply_header_win simp: extras_fit_def)
  moreover have "numbered (Suc (Suc n)) hs" "extras_fit E (hs @ parents)"
    using Cons.prems(3,4) by (simp_all add: extras_fit_def)
  ultimately show ?case using Cons.IH [OF s1(2)] by fastforce
qed simp

lemma apply_loop_sel:
  assumes "apply_loop E parents epoch hs s cache = (Ok s', cache')"
  shows "s_config s' = s_config s \<and> s_Number s' = s_Number s \<and> s_Hash s' = s_Hash s"
  using assms
proof (induction hs arbitrary: s cache)
  case (Cons h hs)
  obtain s1 c1 where s1: "apply_header E parents epoch h s cache = (Ok s1, c1)"
      "apply_loop E parents epoch hs s1 c1 = (Ok s', cache')"
    using Cons.prems by (rule apply_loop_Cons_Ok)
  show ?case using Cons.IH [OF s1(2)] apply_header_sel [OF s1(1)] by simp
qed simp

lemma snap_apply_Ok:
  assumes "snap_apply E parents hs s cache = (Ok s', cache')" "hs \<noteq> []"
  obtains s1 where "apply_loop E parents (Epoch (s_config s)) hs s cache = (Ok s1, cache')"
    "contiguous (e_crypto E) hs = None" "hnum (hs ! 0) = s_Number s + 1" "h_ParentHash (hs ! 0) = s_Hash s"
    "s' = s1\<lparr>s_Number := s_Number s + of_nat (length hs), s_Hash := Hash (e_crypto E) (last hs)\<rparr>"
proof -
  have c: "contiguous (e_crypto E) hs = None" "hnum (hs ! 0) = s_Number s + 1" "h_ParentHash (hs ! 0) = s_Hash s"
    using assms by (simp_all add: snap_apply_def split: option.splits if_splits)
  obtain r c' where r: "apply_loop E parents (Epoch (s_config s)) hs s cache = (r, c')" by fastforce
  with assms c have "snap_apply E parents hs s cache = (case r of
      Ok snap \<Rightarrow> (Ok (snap\<lparr>s_Number := s_Number snap + of_nat (length hs), s_Hash := Hash (e_crypto E) (last hs)\<rparr>), c')
    | _ \<Rightarrow> (r, c'))"
    by (simp add: snap_apply_def split: res.splits)
  with assms(1) obtain s1 where "r = Ok s1" "c' = cache'"
      "s' = s1\<lparr>s_Number := s_Number s1 + of_nat (length hs), s_Hash := Hash (e_crypto E) (last hs)\<rparr>"
    by (auto split: res.splits)
  then show thesis using that [of s1] r c apply_loop_sel [of E parents "Epoch (s_config s)" hs s cache s1 cache'] by simp
qed

lemma snap_apply_numbered:
  assumes "snap_apply E parents hs s cache = (Ok s', cache')" "hs \<noteq> []"
    "unat (s_Number s) + length hs < 2 ^ 64"
  shows "numbered (Suc (unat (s_Number s))) hs" "unat (s_Number s') = unat (s_Number s) + length hs"
proof -
  obtain s1 where s1: "contiguous (e_crypto E) hs = None" "hnum (hs ! 0) = s_Number s + 1"
      "s' = s1\<lparr>s_Number := s_Number s + of_nat (length hs), s_Hash := Hash (e_crypto E) (last hs)\<rparr>"
    using assms(1,2) by (rule snap_apply_Ok)
  have "0 < length hs" using assms(2) by simp
  then have "unat (s_Number s + 1) = Suc (unat (s_Number s))"
    using assms(3) by (simp add: unat_word_ariths(1) del: length_greater_0_conv)
  then show "numbered (Suc (unat (s_Number s))) hs"
    using contiguous_numbered [OF s1(1) assms(2)] s1(2) assms(3) by simp
  show "unat (s_Number s') = unat (s_Number s) + length hs"
    using assms(3) s1(3) by (simp add: unat_word_ariths(1) unat_of_nat_u64)
qed

section \<open>Who may sign\<close>

lemma change_validators_keeps:
  assumes "fmlookup (s_Recents s) k = Some v" "unat k \<le> unat m"
    "fcard (s_Validators s) < 2 ^ 62" "length newVals < 2 ^ 62"
    "limit (change_validators m newVals s) > unat m - unat k"
  shows "fmlookup (s_Recents (change_validators m newVals s)) k = Some v"
proof (rule ccontr)
  let ?l = "limit (change_validators m newVals s)"
  have l: "?l = fcard (fset_of_list newVals) div 2 + 1" by (simp add: change_validators_def limit_def Let_def)
  have nb: "fcard (fset_of_list newVals) < 2 ^ 62"
    using assms(4) by (metis card_length fcard.rep_eq fset_of_list.rep_eq order_le_less_trans)
  assume "\<not> ?thesis"
  then obtain i where i: "i < limit s - ?l" "k = m - of_nat ?l - of_nat i"
    using assms(1) by (auto simp: change_validators_def Let_def drop_range_lookup limit_def split: if_splits)
  have "?l + i < 2 ^ 64" using i(1) nb assms(3) by (auto simp: l limit_def)
  have "m - k = of_nat (?l + i)" using i(2) by simp
  then have "unat m - unat k = ?l + i"
    using \<open>?l + i < 2 ^ 64\<close> assms(2) by (metis unat_of_nat_u64 unat_sub word_le_nat_alt)
  then show False using assms(5) by simp
qed

lemma apply_header_keeps:
  assumes "apply_header E parents epoch h s cache = (Ok s', cache')"
    and "fmlookup (s_Recents s) k = Some v" "unat k < unat (hnum h)" "fcard (s_Validators s) < 2 ^ 62"
    and "extras_fit E (h # parents)" "limit s > unat (hnum h) - unat k" "limit s' > unat (hnum h) - unat k"
  shows "fmlookup (s_Recents s') k = Some v"
proof -
  obtain w s2 s3 where s: "apply_signer (hnum h) w (shift_out (hnum h) s) = Ok s2"
      "apply_epoch E parents epoch h s2 = Ok s3" "apply_forkhash h s3 = Ok s'"
    using assms(1) by (rule apply_header_Ok)
  have l: "limit s < 2 ^ 62" using limit_less [OF assms(4)] .
  have 2: "fmlookup (s_Recents s2) k = Some v" "fcard (s_Validators s2) < 2 ^ 62"
    using s(1) assms(2,3,4,6) by (auto simp: apply_signer_Ok shift_out_Recents [OF l])
  have "fmlookup (s_Recents s3) k = Some v"
    using s(2) by (rule apply_epoch_Ok)
      (use 2 assms apply_forkhash_Ok(3) [OF s(3)] in \<open>auto intro!: change_validators_keeps\<close>)
  then show ?thesis using apply_forkhash_Ok [OF s(3)] by simp
qed

lemma apply_header_records:
  assumes "apply_header E parents epoch h s cache = (Ok s', cache')"
    and "ecrecover (e_crypto E) (e_sig_add E) (e_chainId E) h cache = (Ok v, c)"
    and "fcard (s_Validators s) < 2 ^ 62" "extras_fit E (h # parents)"
  shows "fmlookup (s_Recents s') (hnum h) = Some v"
proof -
  obtain s2 s3 where s: "apply_signer (hnum h) v (shift_out (hnum h) s) = Ok s2"
      "apply_epoch E parents epoch h s2 = Ok s3" "apply_forkhash h s3 = Ok s'"
    using assms(1,2) by (auto elim!: apply_header_Ok)
  have "fmlookup (s_Recents s3) (hnum h) = Some v"
    using s(2) by (rule apply_epoch_Ok)
      (use s(1) assms(3,4) in \<open>auto intro!: change_validators_keeps simp: apply_signer_Ok\<close>)
  then show ?thesis using apply_forkhash_Ok [OF s(3)] by simp
qed

lemma apply_loop_keeps:
  assumes "apply_loop E parents epoch hs s cache = (Ok s', cache')"
    and "fmlookup (s_Recents s) k = Some v" "unat k \<le> n" "win n s" "numbered (Suc n) hs" "extras_fit E (hs @ parents)"
    and "\<And>t st c. t \<le> length hs \<Longrightarrow> apply_loop E parents epoch (take t hs) s cache = (Ok st, c) \<Longrightarrow>
      limit st > n + length hs - unat k"
  shows "fmlookup (s_Recents s') k = Some v"
  using assms
proof (induction hs arbitrary: s cache n)
  case (Cons h hs)
  obtain s1 c1 where s1: "apply_header E parents epoch h s cache = (Ok s1, c1)"
      "apply_loop E parents epoch hs s1 c1 = (Ok s', cache')"
    using Cons.prems(1) by (rule apply_loop_Cons_Ok)
  note fit = Cons.prems(6)
  have w: "win (Suc n) s1"
    using s1(1) Cons.prems by (auto intro!: apply_header_win simp: extras_fit_def)
  have lims: "limit s > Suc (n + length hs) - unat k" "limit s1 > Suc (n + length hs) - unat k"
    using Cons.prems(7) [of 0] Cons.prems(7) [of 1] s1(1) by simp_all
  have "fmlookup (s_Recents s1) k = Some v"
    by (rule apply_header_keeps [OF s1(1) Cons.prems(2)])
      (use Cons.prems(3-6) lims in \<open>auto simp: extras_fit_def win_def\<close>)
  then show ?case
  proof (rule Cons.IH [OF s1(2)])
    show "limit st > Suc n + length hs - unat k"
      if "t \<le> length hs" "apply_loop E parents epoch (take t hs) s1 c1 = (Ok st, c)" for t st c
      using Cons.prems(7) [of "Suc t" st c] that s1(1) by simp
  qed (use w Cons.prems in \<open>auto simp: extras_fit_def\<close>)
qed simp

definition sigs_ok :: "parlia_env \<Rightarrow> header set \<Rightarrow> sigcache \<Rightarrow> bool" where
  "sigs_ok E H cache \<longleftrightarrow>
    (\<forall>h \<in> H. \<forall>a. fmlookup cache (Hash (e_crypto E) h) = Some a \<longrightarrow> recover (e_crypto E) (e_chainId E) h = Ok a)"

definition hash_separates :: "parlia_env \<Rightarrow> header set \<Rightarrow> bool" where
  "hash_separates E H \<longleftrightarrow>
    (\<forall>h \<in> H. \<forall>h' \<in> H. Hash (e_crypto E) h = Hash (e_crypto E) h' \<longrightarrow>
      recover (e_crypto E) (e_chainId E) h = recover (e_crypto E) (e_chainId E) h')"

definition cache_adds :: "parlia_env \<Rightarrow> bool" where
  "cache_adds E \<longleftrightarrow>
    (\<forall>x a c k b. fmlookup (e_sig_add E x a c) k = Some b \<longrightarrow> k = x \<and> b = a \<or> fmlookup c k = Some b)"

lemma ecrecover_sound:
  assumes "sigs_ok E H cache" "hash_separates E H" "cache_adds E" "h \<in> H"
    "ecrecover (e_crypto E) (e_sig_add E) (e_chainId E) h cache = (r, cache')"
  shows "r = recover (e_crypto E) (e_chainId E) h" "sigs_ok E H cache'"
proof -
  let ?k = "Hash (e_crypto E) h" and ?r = "recover (e_crypto E) (e_chainId E)"
  have "r = ?r h \<and> sigs_ok E H cache'"
  proof (cases "fmlookup cache ?k")
    case (Some a)
    then show ?thesis using assms by (simp add: ecrecover_def sigs_ok_def)
  next
    case None
    show ?thesis
    proof (cases "?r h")
      case (Ok v)
      have "?r h' = Ok b" if "h' \<in> H" "fmlookup (e_sig_add E ?k v cache) (Hash (e_crypto E) h') = Some b" for h' b
        using assms(1,3) that assms(2,4) Ok unfolding cache_adds_def sigs_ok_def hash_separates_def by metis
      then show ?thesis using assms(5) None Ok by (auto simp: ecrecover_def sigs_ok_def)
    qed (use assms(1,5) None in \<open>auto simp: ecrecover_def\<close>)
  qed
  then show "r = ?r h" "sigs_ok E H cache'" by simp_all
qed

lemma apply_header_sigs:
  assumes "apply_header E parents epoch h s cache = (Ok s', cache')"
    "sigs_ok E H cache" "hash_separates E H" "cache_adds E" "h \<in> H"
  shows "sigs_ok E H cache'" "\<exists>v s2. recover (e_crypto E) (e_chainId E) h = Ok v \<and>
    ecrecover (e_crypto E) (e_sig_add E) (e_chainId E) h cache = (Ok v, cache') \<and>
    apply_signer (hnum h) v (shift_out (hnum h) s) = Ok s2"
proof -
  obtain v s2 where "ecrecover (e_crypto E) (e_sig_add E) (e_chainId E) h cache = (Ok v, cache')"
      "apply_signer (hnum h) v (shift_out (hnum h) s) = Ok s2"
    using assms(1) by (rule apply_header_Ok)
  then show "sigs_ok E H cache'" "\<exists>v s2. recover (e_crypto E) (e_chainId E) h = Ok v \<and>
    ecrecover (e_crypto E) (e_sig_add E) (e_chainId E) h cache = (Ok v, cache') \<and>
    apply_signer (hnum h) v (shift_out (hnum h) s) = Ok s2"
    using ecrecover_sound [OF assms(2-5)] by metis+
qed

lemma apply_loop_sigs:
  assumes "apply_loop E parents epoch hs s cache = (Ok s', cache')"
    "sigs_ok E H cache" "hash_separates E H" "cache_adds E" "set hs \<subseteq> H"
  shows "sigs_ok E H cache'"
  using assms
proof (induction hs arbitrary: s cache)
  case (Cons h hs)
  obtain s1 c1 where s1: "apply_header E parents epoch h s cache = (Ok s1, c1)"
      "apply_loop E parents epoch hs s1 c1 = (Ok s', cache')"
    using Cons.prems(1) by (rule apply_loop_Cons_Ok)
  show ?case
    using Cons.IH [OF s1(2)] apply_header_sigs(1) [OF s1(1) Cons.prems(2-4)] Cons.prems by simp
qed simp

text \<open>Two headers of the sequence with the same signer are further apart than some limit on the way.\<close>

lemma apply_loop_same_signer:
  assumes "apply_loop E parents epoch (h # mid @ [h']) s cache = (Ok s', cache')"
    and w: "win n s" "numbered (Suc n) (h # mid @ [h'])" and fit: "extras_fit E (h # mid @ [h'] @ parents)"
    and sigs: "sigs_ok E H cache" "hash_separates E H" "cache_adds E" "set (h # mid @ [h']) \<subseteq> H"
    and same: "recover (e_crypto E) (e_chainId E) h = recover (e_crypto E) (e_chainId E) h'"
  shows "\<exists>t st c. t \<le> length mid \<and> apply_loop E parents epoch (h # take t mid) s cache = (Ok st, c) \<and>
    limit st \<le> Suc (length mid)"
proof (rule ccontr)
  assume far: "\<not> ?thesis"
  obtain s1 c1 where s1: "apply_header E parents epoch h s cache = (Ok s1, c1)"
      "apply_loop E parents epoch (mid @ [h']) s1 c1 = (Ok s', cache')"
    using assms(1) by (rule apply_loop_Cons_Ok)
  then obtain s2 c2 where s2: "apply_loop E parents epoch mid s1 c1 = (Ok s2, c2)"
      "apply_header E parents epoch h' s2 c2 = (Ok s', cache')"
    by (auto simp: apply_loop_append split: prod.splits res.splits)
  have fits: "extras_fit E (h # parents)" "extras_fit E (mid @ parents)" "extras_fit E (h' # parents)"
    using fit by (auto simp: extras_fit_def)
  have nums: "unat (hnum h) = Suc n" "numbered (Suc (Suc n)) mid" "unat (hnum h') = Suc (Suc n) + length mid"
    using w(2) by auto
  obtain v r2 where v: "recover (e_crypto E) (e_chainId E) h = Ok v"
      "ecrecover (e_crypto E) (e_sig_add E) (e_chainId E) h cache = (Ok v, c1)"
    using apply_header_sigs(2) [OF s1(1) sigs(1-3)] sigs(4) by auto
  have w1: "win (Suc n) s1" by (rule apply_header_win [OF s1(1) w(1) nums(1) fits(1)])
  have far1: "limit st > Suc n + length mid - unat (hnum h)"
      "limit st > Suc (length mid)"
    if "t \<le> length mid" "apply_loop E parents epoch (take t mid) s1 c1 = (Ok st, c)" for t st c
    using far that s1(1) nums(1) by fastforce+
  have "limit s1 > Suc (length mid)" using far1(2) [of 0] by simp
  moreover have "fmlookup (s_Recents s1) (hnum h) = Some v"
    using apply_header_records [OF s1(1) v(2) _ fits(1)] w(1) by (simp add: win_def)
  ultimately have "fmlookup (s_Recents s2) (hnum h) = Some v"
    using apply_loop_keeps [OF s2(1) _ _ w1 nums(2) fits(2)] far1(1) nums(1) by auto
  moreover have "limit s2 > Suc (length mid)" using far1(2) [of "length mid"] s2(1) by simp
  moreover have "limit s2 < 2 ^ 62"
    using apply_loop_win [OF s2(1) w1 nums(2) fits(2)] unfolding win_def by (blast intro: limit_less)
  ultimately have "fmlookup (s_Recents (shift_out (hnum h') s2)) (hnum h) = Some v"
    using nums by (auto simp: shift_out_Recents)
  moreover have "\<exists>r. apply_signer (hnum h') v (shift_out (hnum h') s2) = Ok r"
    using apply_header_sigs(2) [OF s2(2) apply_loop_sigs [OF s2(1) apply_header_sigs(1) [OF s1(1) sigs(1-3)] sigs(2,3)] sigs(2,3)]
      sigs(4) same v(1) by auto
  ultimately show False by (auto simp: apply_signer_Ok intro: fmranI)
qed

section \<open>Properties\<close>

text \<open>A chain for the witnesses: one validator, whose signature every header carries.\<close>

definition toy_crypto :: crypto where
  "toy_crypto = \<lparr>keccak256 = (\<lambda>_. 5), Ecrecover = (\<lambda>_ _. Some [4])\<rparr>"

definition toy_env :: parlia_env where
  "toy_env = \<lparr>e_crypto = toy_crypto, e_sig_add = fmupd,
     e_chain = \<lparr>c_Config = BSCChainConfig, c_GetHeader = (\<lambda>_ _. None), c_GetHeaderByNumber = (\<lambda>_. None),
       c_GetHighestVerifiedHeader = None\<rparr>, e_chainId = Some 56\<rparr>"

definition toy_header :: "nat \<Rightarrow> header" where
  "toy_header n = \<lparr>h_ParentHash = 5, h_UncleHash = 5, h_Coinbase = 5, h_Root = 0, h_TxHash = 0,
     h_ReceiptHash = 0, h_Bloom = [], h_Difficulty = Some 2, h_Number = Some (int n), h_GasLimit = 5000,
     h_GasUsed = 0, h_Time = of_nat (3 * n), h_Extra = replicate 97 0, h_MixDigest = 0, h_Nonce = 0\<rparr>"

definition toy_snapshot :: snapshot where
  "toy_snapshot = newSnapshot \<lparr>Period = 3, Epoch = 200\<rparr> 10 5 [5]"

lemma toy_Hash [simp]: "Hash toy_crypto h = 5"
  by (simp add: Hash_def rlpHash_def toy_crypto_def split: res.splits)

lemma EncodeToBytes_Ok: "length (genc v) < 2 ^ 64 \<Longrightarrow> \<not> has_negative v \<Longrightarrow> EncodeToBytes eb v = Ok (genc v)"
  by (simp add: EncodeToBytes_def gwrite_gadd toBytes_gadd)

lemma toy_recover: "recover toy_crypto (Some 56) (toy_header 11) = Ok 5" "recover toy_crypto (Some 56) (toy_header 12) = Ok 5"
  "recover toy_crypto (Some 56) (toy_header 10) = Ok 5"
  by (simp_all add: recover_def toy_header_def toy_crypto_def SealHash_def encodeSigHeader_def parlia_consts
    EncodeToBytes_Ok rlp_head_def int_bytes_def be_bytes.simps)

lemma toy_hnum [simp]: "hnum (toy_header n) = of_nat n"
  by (simp add: hnum_def toy_header_def)

lemma fcard_single: "fcard {|a|} = 1"
  by (simp add: fcard.rep_eq)

lemma toy_apply: "\<exists>s' c. snap_apply toy_env [] [toy_header 11, toy_header 12] toy_snapshot (fmupd 5 5 fmempty) = (Ok s', c)"
  by (simp add: snap_apply_def toy_env_def toy_snapshot_def newSnapshot_def apply_header_def shift_out_def
    ecrecover_def apply_signer_def apply_epoch_def apply_forkhash_def slice_def parlia_consts toy_header_def hnum_def
    Let_def fcard_single fmdrop_fmupd_same fmdrop_idle')

lemma snap_apply_inv:
  assumes "snap_inv s" "snap_apply E parents hs s cache = (Ok s', cache')"
    and "unat (s_Number s) + length hs < 2 ^ 64" "extras_fit E (hs @ parents)"
  shows "snap_inv s'"
proof (cases "hs = []")
  case True
  then show ?thesis using assms(1,2) by (simp add: snap_apply_def)
next
  case False
  obtain s1 where s1: "apply_loop E parents (Epoch (s_config s)) hs s cache = (Ok s1, cache')"
      "s' = s1\<lparr>s_Number := s_Number s + of_nat (length hs), s_Hash := Hash (e_crypto E) (last hs)\<rparr>"
    using assms(2) False by (rule snap_apply_Ok)
  note n = snap_apply_numbered [OF assms(2) False assms(3)]
  have "win (unat (s_Number s) + length hs) s1"
    using apply_loop_win [OF s1(1)] assms(1,4) n(1) by (simp add: snap_inv_def)
  then show ?thesis using n(2) s1(2) by (simp add: snap_inv_def win_def limit_def)
qed

text \<open>C8: The snapshot invariant: after block \<open>Number\<close> the recent signers are those of blocks within the last
  \<open>|V| / 2 + 1\<close>, and no validator occurs twice among them. Applying any accepted sequence of headers, epoch
  changes of the validator set included, preserves it, and advances the number by the length of the sequence.\<close>

theorem snap_apply_invariant:
  assumes "snap_inv s" "snap_apply E parents hs s cache = (Ok s', cache')"
    and "unat (s_Number s) + length hs < 2 ^ 64" "extras_fit E (hs @ parents)"
  shows "snap_inv s' \<and> unat (s_Number s') = unat (s_Number s) + length hs"
proof (cases "hs = []")
  case True
  then show ?thesis using assms(1,2) by (simp add: snap_apply_def)
next
  case False
  show ?thesis using snap_apply_inv [OF assms] snap_apply_numbered(2) [OF assms(2) False assms(3)] by simp
qed

lemma toy_facts: "snap_inv toy_snapshot" "extras_fit toy_env [toy_header 11, toy_header 12]" "s_Number toy_snapshot = 10"
  by (simp_all add: toy_snapshot_def newSnapshot_def snap_inv_def win_def fcard_single extras_fit_def toy_env_def toy_header_def)

theorem snap_apply_invariant_witness:
  "\<exists>s' c. snap_apply toy_env [] [toy_header 11, toy_header 12] toy_snapshot (fmupd 5 5 fmempty) = (Ok s', c) \<and>
     snap_inv s' \<and> unat (s_Number s') = 12"
  using toy_apply snap_apply_invariant [of toy_snapshot toy_env "[]" "[toy_header 11, toy_header 12]" "fmupd 5 5 fmempty"]
    toy_facts by fastforce

text \<open>C6: No validator signs two blocks too close together: if two headers of an accepted sequence, at distance
  \<open>j - i\<close>, carry signatures of the same address, then some snapshot between them allows it, its limit
  \<open>|V| / 2 + 1\<close> being at most that distance. The signature cache does not matter as long as the hash function
  does not confuse headers with different signers.\<close>

theorem snap_apply_no_frequent_signer:
  assumes "snap_inv s" "snap_apply E parents hs s cache = (Ok s', cache')"
    and "unat (s_Number s) + length hs < 2 ^ 64" "extras_fit E (hs @ parents)"
    and "sigs_ok E (set hs) cache" "hash_separates E (set hs)" "cache_adds E"
    and "i < j" "j < length hs"
    and "recover (e_crypto E) (e_chainId E) (hs ! i) = recover (e_crypto E) (e_chainId E) (hs ! j)"
  shows "\<exists>t st c. i < t \<and> t \<le> j \<and> apply_loop E parents (Epoch (s_config s)) (take t hs) s cache = (Ok st, c) \<and>
    limit st \<le> j - i"
proof -
  define mid where "mid = take (j - Suc i) (drop (Suc i) hs)"
  have i: "i < length hs" using assms(8,9) by simp
  have hs: "hs = take i hs @ (hs ! i # mid @ [hs ! j]) @ drop (Suc j) hs"
    using assms(8,9) unfolding mid_def
    by (metis (no_types, lifting) Cons_nth_drop_Suc append_Cons append_assoc append_take_drop_id drop_drop i
      le_add_diff_inverse2 less_eq_Suc_le append_Nil)
  obtain s1 where s1: "apply_loop E parents (Epoch (s_config s)) hs s cache = (Ok s1, cache')"
    using assms(2) by (rule snap_apply_Ok) (use assms(9) in auto)
  have n: "numbered (Suc (unat (s_Number s))) hs"
    using snap_apply_numbered(1) [OF assms(2) _ assms(3)] assms(9) by fastforce
  let ?go = "apply_loop E parents (Epoch (s_config s))"
  have "?go (take i hs @ (hs ! i # mid @ [hs ! j]) @ drop (Suc j) hs) s cache = (Ok s1, cache')"
    using s1 hs by simp
  then obtain si ci sm cm where si: "?go (take i hs) s cache = (Ok si, ci)"
      "?go (hs ! i # mid @ [hs ! j]) si ci = (Ok sm, cm)"
    by (metis apply_loop_append_Ok)
  have mid: "set mid \<subseteq> set hs" "length mid = j - Suc i" "set (take i hs) \<subseteq> set hs"
    using assms(8,9) by (auto simp: mid_def dest: in_set_takeD in_set_dropD)
  have "numbered (Suc (unat (s_Number s))) (take i hs @ (hs ! i # mid @ [hs ! j]) @ drop (Suc j) hs)"
    using n hs by simp
  then have ns: "numbered (Suc (unat (s_Number s))) (take i hs)"
      "numbered (Suc (unat (s_Number s) + i)) (hs ! i # mid @ [hs ! j])"
    using i by (simp_all add: min_def)
  have "extras_fit E (take i hs @ parents)" using assms(4) mid(3) by (auto simp: extras_fit_def)
  then have wi: "win (unat (s_Number s) + i) si"
    using apply_loop_win [OF si(1) _ ns(1)] assms(1) i by (simp add: snap_inv_def min_def)
  have "extras_fit E (hs ! i # mid @ [hs ! j] @ parents)"
    using assms(4,9) i mid(1) by (auto simp: extras_fit_def)
  moreover have "set (hs ! i # mid @ [hs ! j]) \<subseteq> set hs" using mid(1) i assms(9) by auto
  ultimately obtain t st c where t: "t \<le> length mid" "?go (hs ! i # take t mid) si ci = (Ok st, c)"
      "limit st \<le> Suc (length mid)"
    using apply_loop_same_signer [OF si(2) wi ns(2) _ apply_loop_sigs [OF si(1) assms(5-7) mid(3)] assms(6,7) _ assms(10)]
    by blast
  have "take (Suc i + t) hs = take i hs @ hs ! i # take t mid"
    using t(1) mid(2) i take_add [of "Suc i" t hs] by (simp add: mid_def take_Suc_conv_app_nth min_def)
  then have "?go (take (Suc i + t) hs) s cache = (Ok st, c)" using si(1) t(2) by (simp add: apply_loop_append)
  moreover have "i < Suc i + t" "Suc i + t \<le> j" "limit st \<le> j - i" using t mid(2) assms(8) by auto
  ultimately show ?thesis by blast
qed

lemma toy_sigs: "sigs_ok toy_env {toy_header 11, toy_header 12} (fmupd 5 5 fmempty)"
  "hash_separates toy_env {toy_header 11, toy_header 12}" "cache_adds toy_env"
  using toy_recover by (auto simp: sigs_ok_def hash_separates_def cache_adds_def toy_env_def split: if_splits)

theorem snap_apply_no_frequent_signer_witness:
  "\<exists>t st c. 0 < t \<and> t \<le> 1 \<and> limit st \<le> 1 \<and>
    apply_loop toy_env [] 200 (take t [toy_header 11, toy_header 12]) toy_snapshot (fmupd 5 5 fmempty) = (Ok st, c)"
proof -
  obtain s' c where a: "snap_apply toy_env [] [toy_header 11, toy_header 12] toy_snapshot (fmupd 5 5 fmempty) = (Ok s', c)"
    using toy_apply by blast
  have "Epoch (s_config toy_snapshot) = 200" "e_crypto toy_env = toy_crypto" "e_chainId toy_env = Some 56"
    by (simp_all add: toy_snapshot_def newSnapshot_def toy_env_def)
  then show ?thesis
    using snap_apply_no_frequent_signer [OF toy_facts(1) a, of 0 1] toy_facts(2,3) toy_sigs toy_recover by auto
qed

text \<open>C13: The chain never gets stuck for want of an allowed signer: in every snapshot that satisfies the
  invariant at least \<open>|V| - |V| / 2\<close> of the validators, hence at least one, are accepted as the signer of
  the next block.\<close>

theorem eligible_signers:
  assumes "snap_inv s" "unat (s_Number s) + 1 < 2 ^ 64" "s_Validators s \<noteq> {||}"
  shows "fcard (s_Validators s) - fcard (s_Validators s) div 2 \<le>
      fcard (ffilter (\<lambda>v. \<exists>s'. apply_signer (s_Number s + 1) v (shift_out (s_Number s + 1) s) = Ok s') (s_Validators s)) \<and>
    0 < fcard (ffilter (\<lambda>v. \<exists>s'. apply_signer (s_Number s + 1) v (shift_out (s_Number s + 1) s) = Ok s') (s_Validators s))"
proof -
  let ?n = "unat (s_Number s)" and ?m = "s_Number s + 1"
  let ?R = "s_Recents (shift_out ?m s)" and ?V = "s_Validators s"
  have m: "unat ?m = Suc ?n" using assms(2) by (simp add: unat_word_ariths(1))
  have w: "win ?n s" using assms(1) by (simp add: snap_inv_def)
  have dom: "unat ` fset (fmdom ?R) \<subseteq> {Suc (Suc ?n) - limit s ..< Suc ?n}"
  proof
    fix x assume "x \<in> unat ` fset (fmdom ?R)"
    then obtain k v where "x = unat k" "fmlookup ?R k = Some v" by (auto elim!: fmdomE)
    then have "x \<le> ?n" "Suc ?n < x + limit s" using shift_out_win(1) [OF w m] by blast+
    then show "x \<in> {Suc (Suc ?n) - limit s ..< Suc ?n}" by simp
  qed
  have "card (fset (fmdom ?R)) = card (unat ` fset (fmdom ?R))" by (rule card_image [symmetric], rule inj_onI, rule word_unat_eq_iff [THEN iffD2])
  also have "\<dots> \<le> card {Suc (Suc ?n) - limit s ..< Suc ?n}" by (rule card_mono [OF _ dom]) simp
  also have "\<dots> \<le> fcard ?V div 2" by (simp add: limit_def)
  finally have d: "card (fset (fmdom ?R)) \<le> fcard ?V div 2" .
  have "fset (fmran ?R) \<subseteq> (\<lambda>k. the (fmlookup ?R k)) ` fset (fmdom ?R)"
  proof
    fix v assume "v \<in> fset (fmran ?R)"
    then obtain k where "fmlookup ?R k = Some v" by (metis fmranE)
    then show "v \<in> (\<lambda>k. the (fmlookup ?R k)) ` fset (fmdom ?R)" by (metis fmdomI image_eqI option.sel)
  qed
  then have "card (fset (fmran ?R)) \<le> card (fset (fmdom ?R))"
    by (rule surj_card_le [OF finite_fset])
  with d have r: "card (fset (fmran ?R)) \<le> fcard ?V div 2" by simp
  let ?E = "ffilter (\<lambda>v. \<exists>s'. apply_signer ?m v (shift_out ?m s) = Ok s') ?V"
  have "fset ?E = fset ?V - fset (fmran ?R)" by (auto simp: apply_signer_Ok)
  then have "card (fset ?V) - card (fset (fmran ?R)) \<le> fcard ?E"
    using diff_card_le_card_Diff [OF finite_fset] by (simp only: fcard.rep_eq)
  with r have "fcard ?V - fcard ?V div 2 \<le> fcard ?E" by (simp add: fcard.rep_eq)
  moreover have "0 < fcard ?V" using assms(3) by (metis fcard_0_eq gr0I)
  ultimately show ?thesis by auto
qed

theorem eligible_signers_witness:
  "0 < fcard (ffilter (\<lambda>v. \<exists>s'. apply_signer (s_Number toy_snapshot + 1) v (shift_out (s_Number toy_snapshot + 1) toy_snapshot) = Ok s')
     (s_Validators toy_snapshot))"
proof -
  have "s_Validators toy_snapshot \<noteq> {||}" by (simp add: toy_snapshot_def newSnapshot_def)
  then show ?thesis using eligible_signers [of toy_snapshot] toy_facts by simp
qed

lemma validators_props: "set (validators s) = fset (s_Validators s)" "distinct (validators s)" "sorted (validators s)"
  "length (validators s) = fcard (s_Validators s)"
  by (simp_all add: validators_def fcard.rep_eq sorted_list_of_fset.rep_eq)

lemma rotation:
  fixes a k n :: nat
  assumes "k < n"
  shows "\<exists>!i. i < n \<and> (a + i) mod n = k"
proof -
  have eq: "i = j" if "i < n" "j < n" "i \<le> j" "(a + i) mod n = (a + j) mod n" for i j
  proof -
    have "n dvd (a + j) - (a + i)" using that(3,4) mod_eq_dvd_iff_nat [of "a + i" "a + j" n] by simp
    then have "n dvd j - i" by simp
    then have "j - i = 0 \<or> n \<le> j - i" by (auto dest: dvd_imp_le)
    then show ?thesis using that by linarith
  qed
  have inj: "inj_on (\<lambda>i. (a + i) mod n) {..<n}"
  proof (rule inj_onI)
    fix x y assume "x \<in> {..<n}" "y \<in> {..<n}" "(a + x) mod n = (a + y) mod n"
    then show "x = y" using eq [of x y] eq [of y x] by (cases "x \<le> y") auto
  qed
  then have "(\<lambda>i. (a + i) mod n) ` {..<n} = {..<n}"
    using assms by (intro endo_inj_surj) auto
  with assms have "k \<in> (\<lambda>i. (a + i) mod n) ` {..<n}" by (simp only: lessThan_iff)
  then obtain i where i: "i < n" "(a + i) mod n = k" by auto
  then have "j = i" if "j < n \<and> (a + j) mod n = k" for j
    using that eq [of i j] eq [of j i] nat_le_linear [of i j] by metis
  then show ?thesis using i by blast
qed

text \<open>C29: Turns rotate fairly: while the validator set stays the same, over any \<open>|V|\<close> consecutive blocks each
  validator is in turn for exactly one of them, and it is the one \<open>supposeValidator\<close> names.\<close>

theorem inturn_rotation:
  assumes "v |\<in>| s_Validators s" "unat (s_Number s) + fcard (s_Validators s) < 2 ^ 64"
  shows "\<exists>!i. i < fcard (s_Validators s) \<and>
      inturn (s\<lparr>s_Number := s_Number s + of_nat i\<rparr>) v = Ok True \<and>
      supposeValidator (s\<lparr>s_Number := s_Number s + of_nat i\<rparr>) = Ok v"
proof -
  let ?n = "fcard (s_Validators s)" and ?N = "unat (s_Number s)"
  have n: "0 < ?n" using assms(1) by (metis fcard_0_eq fempty_iff gr0I)
  have vs: "validators (s\<lparr>s_Number := x\<rparr>) = validators s" for x by (simp add: validators_def)
  have off: "unat ((s_Number s + of_nat i + 1) mod of_nat ?n) = (?N + i + 1) mod ?n" if "i < ?n" for i
  proof -
    have "unat (s_Number s + of_nat i + 1) = ?N + i + 1"
      using that assms(2) by (simp add: unat_word_ariths(1) unat_of_nat_u64)
    then show ?thesis using assms(2) by (simp add: unat_mod unat_of_nat_u64)
  qed
  obtain k where k: "k < ?n" "validators s ! k = v"
    using assms(1) validators_props by (metis in_set_conv_nth)
  have turn: "inturn (s\<lparr>s_Number := s_Number s + of_nat i\<rparr>) v = Ok True \<and>
      supposeValidator (s\<lparr>s_Number := s_Number s + of_nat i\<rparr>) = Ok v \<longleftrightarrow> (?N + i + 1) mod ?n = k" if "i < ?n" for i
  proof -
    have "(?N + i + 1) mod ?n < ?n" using n by simp
    then have "validators s ! ((?N + i + 1) mod ?n) = v \<longleftrightarrow> (?N + i + 1) mod ?n = k"
      using k validators_props(4) [of s] nth_eq_iff_index_eq [OF validators_props(2) [of s]] by metis
    moreover have "validators s \<noteq> []" using n validators_props(4) [of s] by (metis list.size(3) less_not_refl)
    ultimately show ?thesis
      using off [OF that] by (simp add: inturn_def supposeValidator_def vs Let_def validators_props(4))
  qed
  have "(i < ?n \<and> inturn (s\<lparr>s_Number := s_Number s + of_nat i\<rparr>) v = Ok True \<and>
      supposeValidator (s\<lparr>s_Number := s_Number s + of_nat i\<rparr>) = Ok v) = (i < ?n \<and> (Suc ?N + i) mod ?n = k)" for i
    using turn [of i] by (cases "i < ?n") (simp_all only: simp_thms add_Suc Suc_eq_plus1 add.commute add.left_commute)
  then show ?thesis using rotation [OF k(1), of "Suc ?N"] by (simp only:)
qed

theorem inturn_rotation_witness:
  "\<exists>!i. i < fcard (s_Validators toy_snapshot) \<and>
      inturn (toy_snapshot\<lparr>s_Number := s_Number toy_snapshot + of_nat i\<rparr>) 5 = Ok True \<and>
      supposeValidator (toy_snapshot\<lparr>s_Number := s_Number toy_snapshot + of_nat i\<rparr>) = Ok 5"
  by (rule inturn_rotation) (simp_all add: toy_snapshot_def newSnapshot_def fcard_single)

lemma chunks_concat: "\<forall>c \<in> set cs. length c = validatorBytesLength \<Longrightarrow> chunks (length cs) (concat cs) = cs"
  by (induction cs) auto

lemma ParseValidators_concat: "ParseValidators (concat (map addr_bytes vs)) = Ok vs"
proof -
  have len: "length (concat (map addr_bytes vs)) = 20 * length vs" by (induction vs) simp_all
  have "chunks (length vs) (concat (map addr_bytes vs)) = map addr_bytes vs"
    using chunks_concat [of "map addr_bytes vs"] by (simp add: parlia_consts)
  then show ?thesis using len by (simp add: ParseValidators_def parlia_consts comp_def)
qed

text \<open>C30: The validator list of an epoch header survives the round trip: parsing the concatenated 20-byte
  addresses returns exactly the list that was written, and parsing fails precisely for a byte string whose
  length is not a multiple of 20; it never panics.\<close>

theorem ParseValidators_roundtrip:
  "ParseValidators (concat (map addr_bytes vs)) = Ok vs \<and>
   (ParseValidators b = Err InvalidValidatorsBytes \<longleftrightarrow> \<not> 20 dvd length b) \<and> ParseValidators b \<noteq> Panic"
  using ParseValidators_concat [of vs] by (auto simp: ParseValidators_def parlia_consts dvd_eq_mod_eq_0)

end
