(* ===== verification/Parlia_Engine.thy ===== *)
theory Parlia_Engine
  imports Parlia_Snapshot
begin

text \<open>
  The Parlia consensus engine, \<open>consensus/parlia/parlia.go\<close> and \<open>ramanujanfork.go\<close>: retrieving the
  snapshot a header builds on, verifying headers, preparing and sealing blocks. What the engine
  changes while it works is \<open>engine\<close>: the cache of recent snapshots, the cache of signatures and the
  snapshots on disk. What it only reads is \<open>parlia\<close>: its configuration, the chain, the clock, and the
  libraries it calls (the ARC cache, the database, the random source, the call of the validator
  contract through the node's API) as functions.
\<close>

section \<open>The engine\<close>

record engine =
  g_recentSnaps :: "(hash, snapshot) fmap"
  g_signatures :: sigcache
  g_db :: "(hash, snapshot) fmap"

text \<open>\<open>p_draw seed i\<close> is the random index below \<open>i + 1\<close> that \<open>Shuffle\<close> draws for position \<open>i\<close>.\<close>

record parlia =
  p_env :: parlia_env
  p_chainConfig :: ChainConfig
  p_config :: ParliaConfig
  p_genesisHash :: hash
  p_val :: address
  p_fakeDiff :: bool
  p_snap_add :: "hash \<Rightarrow> snapshot \<Rightarrow> (hash, snapshot) fmap \<Rightarrow> (hash, snapshot) fmap"
  p_put :: "hash \<Rightarrow> snapshot \<Rightarrow> (hash, snapshot) fmap \<Rightarrow> (hash, snapshot) fmap option"
  p_now :: u64
  p_until :: "int \<Rightarrow> int"
  p_draw :: "u64 \<Rightarrow> nat \<Rightarrow> nat"
  p_rand63 :: "int \<Rightarrow> int"
  p_getCurrentValidators :: "hash \<Rightarrow> int \<Rightarrow> address list option"
  p_signFn :: "address \<Rightarrow> bytes \<Rightarrow> bytes option"

type_synonym 'a eng = "engine \<Rightarrow> (perr, 'a) res \<times> engine"

definition eng_bind :: "'a eng \<Rightarrow> ('a \<Rightarrow> 'b eng) \<Rightarrow> 'b eng" where
  "eng_bind m f g =
    (case m g of
       (Ok x, g') \<Rightarrow> f x g'
     | (Err e, g') \<Rightarrow> (Err e, g')
     | (Panic, g') \<Rightarrow> (Panic, g'))"

definition eng_lift :: "(perr, 'a) res \<Rightarrow> 'a eng" where
  "eng_lift r g = (r, g)"

text \<open>\<open>New\<close> sets a missing epoch length to its default.\<close>

definition defaultEpochLength :: u64 where "defaultEpochLength = 100"

definition new_config :: "ParliaConfig \<Rightarrow> ParliaConfig" where
  "new_config c = (if Epoch c = 0 then c\<lparr>Epoch := defaultEpochLength\<rparr> else c)"

definition checkpointInterval :: u64 where "checkpointInterval = 1024"

section \<open>Retrieving a snapshot\<close>

definition loadSnapshot :: "parlia \<Rightarrow> engine \<Rightarrow> hash \<Rightarrow> snapshot option" where
  "loadSnapshot p g h = map_option (\<lambda>s. s\<lparr>s_config := p_config p\<rparr>) (fmlookup (g_db g) h)"

definition store :: "parlia \<Rightarrow> snapshot \<Rightarrow> unit eng" where
  "store p s g =
    (case p_put p (s_Hash s) s (g_db g) of
       None \<Rightarrow> (Err StoreFailed, g)
     | Some db \<Rightarrow> (Ok (), g\<lparr>g_db := db\<rparr>))"

definition genesis_snapshot :: "parlia \<Rightarrow> u64 \<Rightarrow> header \<Rightarrow> (perr, snapshot) res" where
  "genesis_snapshot p number checkpoint =
    bind_res (slice (h_Extra checkpoint) extraVanity (length (h_Extra checkpoint) - extraSeal)) (\<lambda>b.
      bind_res (ParseValidators b) (\<lambda>vals.
        Ok (newSnapshot (p_config p) number (Hash (e_crypto (p_env p)) checkpoint) vals)))"

text \<open>The header to collect when no snapshot is known: the last of the explicit parents, or the chain's.\<close>

definition pick_header :: "parlia \<Rightarrow> u64 \<Rightarrow> hash \<Rightarrow> header list \<Rightarrow> (header \<times> header list) option" where
  "pick_header p number h parents =
    (if length parents > 0 then
       (let hdr = last parents
        in if Hash (e_crypto (p_env p)) hdr \<noteq> h \<or> hnum hdr \<noteq> number then None
           else Some (hdr, butlast parents))
     else map_option (\<lambda>hdr. (hdr, [])) (c_GetHeader (e_chain (p_env p)) h number))"

text \<open>The backward search. It returns the snapshot found, the headers collected on the way (the last
  one first) and the explicit parents left. One unit of fuel is one round; without a genesis block
  the block number wraps around and the search may go on forever.\<close>

fun find_snapshot ::
  "parlia \<Rightarrow> nat \<Rightarrow> u64 \<Rightarrow> hash \<Rightarrow> header list \<Rightarrow> header list \<Rightarrow> (snapshot \<times> header list \<times> header list) eng" where
  "find_snapshot p 0 number h parents headers g = (Err OutOfFuelSnapshot, g)"
| "find_snapshot p (Suc fuel) number h parents headers g =
    (case fmlookup (g_recentSnaps g) h of
       Some s \<Rightarrow> (Ok (s, headers, parents), g)
     | None \<Rightarrow>
         (case (if number mod checkpointInterval = 0 then loadSnapshot p g h else None) of
            Some s \<Rightarrow> (Ok (s, headers, parents), g)
          | None \<Rightarrow>
              (case (if number = 0 then c_GetHeaderByNumber (e_chain (p_env p)) number else None) of
                 Some checkpoint \<Rightarrow>
                   eng_bind (eng_lift (genesis_snapshot p number checkpoint)) (\<lambda>snap.
                     eng_bind (store p snap) (\<lambda>_. eng_lift (Ok (snap, headers, parents)))) g
               | None \<Rightarrow>
                   (case pick_header p number h parents of
                      None \<Rightarrow> (Err ErrUnknownAncestor, g)
                    | Some (hdr, parents') \<Rightarrow>
                        find_snapshot p fuel (number - 1) (h_ParentHash hdr) parents' (headers @ [hdr]) g))))"

definition eng_apply :: "parlia \<Rightarrow> header list \<Rightarrow> header list \<Rightarrow> snapshot \<Rightarrow> snapshot eng" where
  "eng_apply p parents headers s g =
    (case snap_apply (p_env p) parents headers s (g_signatures g) of
       (r, cache) \<Rightarrow> (r, g\<lparr>g_signatures := cache\<rparr>))"

text \<open>The loop that swaps \<open>headers[i]\<close> with \<open>headers[len-1-i]\<close> reverses the slice.\<close>

definition Parlia_snapshot :: "parlia \<Rightarrow> nat \<Rightarrow> u64 \<Rightarrow> hash \<Rightarrow> header list \<Rightarrow> snapshot eng" where
  "Parlia_snapshot p fuel number h parents =
    eng_bind (find_snapshot p fuel number h parents []) (\<lambda>(snap0, headers, parents').
      eng_bind (eng_apply p parents' (rev headers) snap0) (\<lambda>snap g.
        let g' = g\<lparr>g_recentSnaps := p_snap_add p (s_Hash snap) snap (g_recentSnaps g)\<rparr>
        in if s_Number snap mod checkpointInterval = 0 \<and> length headers > 0
           then eng_bind (store p snap) (\<lambda>_. eng_lift (Ok snap)) g'
           else (Ok snap, g')))"

section \<open>Back-off times\<close>

text \<open>\<open>Shuffle\<close> of \<open>math/rand\<close>: from the last position down to the second, swap with a drawn one.\<close>

fun shuffle :: "(nat \<Rightarrow> nat) \<Rightarrow> nat \<Rightarrow> 'a list \<Rightarrow> 'a list" where
  "shuffle draw 0 xs = xs"
| "shuffle draw (Suc i) xs =
    shuffle draw i (xs[Suc i := xs ! draw (Suc i), draw (Suc i) := xs ! Suc i])"

definition Shuffle :: "(nat \<Rightarrow> nat) \<Rightarrow> 'a list \<Rightarrow> 'a list" where
  "Shuffle draw xs = shuffle draw (length xs - 1) xs"

definition backOffSteps :: "parlia \<Rightarrow> snapshot \<Rightarrow> u64 list" where
  "backOffSteps p snap = Shuffle (p_draw p (s_Number snap)) (map of_nat [0..<fcard (s_Validators snap)])"

definition backOffTime :: "parlia \<Rightarrow> snapshot \<Rightarrow> address \<Rightarrow> (perr, u64) res" where
  "backOffTime p snap val =
    bind_res (inturn snap val) (\<lambda>b.
      if b then Ok 0
      else
        (let idx = indexOfVal snap val
         in if idx < 0 then Ok 0
            else Ok (1 + backOffSteps p snap ! nat idx * 1)))"

definition blockTimeForRamanujanFork :: "parlia \<Rightarrow> snapshot \<Rightarrow> header \<Rightarrow> header \<Rightarrow> (perr, u64) res" where
  "blockTimeForRamanujanFork p snap h parent =
    (let blockTime = h_Time parent + Period (p_config p)
     in if IsRamanujan (p_chainConfig p) (h_Number h)
        then map_res (\<lambda>b. blockTime + b) (backOffTime p snap (p_val p))
        else Ok blockTime)"

definition blockTimeVerifyForRamanujanFork :: "parlia \<Rightarrow> snapshot \<Rightarrow> header \<Rightarrow> header \<Rightarrow> (perr, unit) res" where
  "blockTimeVerifyForRamanujanFork p snap h parent =
    (if IsRamanujan (p_chainConfig p) (h_Number h) then
       bind_res (backOffTime p snap (h_Coinbase h)) (\<lambda>b.
         if h_Time h < h_Time parent + Period (p_config p) + b then Err ErrFutureBlock else Ok ())
     else Ok ())"

text \<open>Durations are nanoseconds. A missing difficulty is a nil pointer.\<close>

definition delayForRamanujanFork :: "parlia \<Rightarrow> snapshot \<Rightarrow> header \<Rightarrow> (perr, int) res" where
  "delayForRamanujanFork p snap h =
    (let delay = p_until p (sint (h_Time h))
     in if IsRamanujan (p_chainConfig p) (h_Number h) then Ok delay
        else
          (case h_Difficulty h of
             None \<Rightarrow> Panic
           | Some d \<Rightarrow>
               if d = 1 then
                 (let wiggle = int (fcard (s_Validators snap) div 2 + 1) * 500000000
                  in Ok (delay + 200000000 + p_rand63 p wiggle))
               else Ok delay))"

section \<open>Verifying headers\<close>

definition verifyHeader_extra :: "parlia \<Rightarrow> header \<Rightarrow> (perr, unit) res" where
  "verifyHeader_extra p h =
    (if length (h_Extra h) < extraVanity then Err errMissingVanity
     else if length (h_Extra h) < extraVanity + extraSeal then Err errMissingSignature
     else if Epoch (p_config p) = 0 then Panic
     else
       (let isEpoch = hnum h mod Epoch (p_config p) = 0;
            signersBytes = length (h_Extra h) - extraVanity - extraSeal
        in if \<not> isEpoch \<and> signersBytes \<noteq> 0 then Err errExtraValidators
           else if isEpoch \<and> signersBytes mod validatorBytesLength \<noteq> 0 then Err errInvalidSpanValidators
           else Ok ()))"

definition verifyHeader_basic :: "parlia \<Rightarrow> header \<Rightarrow> (perr, unit) res" where
  "verifyHeader_basic p h =
    (if h_Number h = None then Err errUnknownBlock
     else if h_Time h > p_now p then Err ErrFutureBlock
     else bind_res (verifyHeader_extra p h) (\<lambda>_.
       if h_MixDigest h \<noteq> 0 then Err errInvalidMixDigest
       else if h_UncleHash h \<noteq> CalcUncleHash_nil (e_crypto (p_env p)) then Err errInvalidUncleHash
       else if hnum h > 0 \<and> h_Difficulty h = None then Err errInvalidDifficulty
       else if VerifyForkHashes (e_crypto (p_env p)) (c_Config (e_chain (p_env p))) h False \<noteq> None
         then Err ForkHashMismatch
       else Ok ()))"

definition GasLimitBoundDivisor :: u64 where "GasLimitBoundDivisor = 256"
definition MinGasLimit :: u64 where "MinGasLimit = 5000"

text \<open>\<open>diff\<close> is an \<open>int64\<close>: the subtraction and the negation wrap around.\<close>

definition verify_gas :: "header \<Rightarrow> header \<Rightarrow> (perr, unit) res" where
  "verify_gas parent h =
    (if h_GasLimit h > 0x7fffffffffffffff then Err InvalidGasLimit
     else if h_GasUsed h > h_GasLimit h then Err InvalidGasUsed
     else
       (let diff0 = h_GasLimit parent - h_GasLimit h;
            diff = (if sint diff0 < 0 then diff0 * (-1) else diff0);
            lim = h_GasLimit parent div GasLimitBoundDivisor
        in if diff \<ge> lim \<or> h_GasLimit h < MinGasLimit then Err GasLimitOutOfBounds else Ok ()))"

text \<open>The loops over \<open>snap.Recents\<close> of \<open>verifySeal\<close>, and of \<open>Seal\<close> and \<open>SignRecently\<close>: the latter have the
  extra condition \<open>number < limit\<close>.\<close>

definition seen_recently :: "snapshot \<Rightarrow> u64 \<Rightarrow> address \<Rightarrow> bool" where
  "seen_recently snap number signer =
    (let lim = of_nat (fcard (s_Validators snap) div 2 + 1)
     in fBex (fmdom (s_Recents snap)) (\<lambda>seen.
       fmlookup (s_Recents snap) seen = Some signer \<and> seen > number - lim))"

definition must_wait :: "snapshot \<Rightarrow> u64 \<Rightarrow> address \<Rightarrow> bool" where
  "must_wait snap number val =
    (let lim = of_nat (fcard (s_Validators snap) div 2 + 1)
     in fBex (fmdom (s_Recents snap)) (\<lambda>seen.
       fmlookup (s_Recents snap) seen = Some val \<and> (number < lim \<or> seen > number - lim)))"

definition verify_difficulty :: "parlia \<Rightarrow> snapshot \<Rightarrow> address \<Rightarrow> header \<Rightarrow> (perr, unit) res" where
  "verify_difficulty p snap signer h =
    (if p_fakeDiff p then Ok ()
     else bind_res (inturn snap signer) (\<lambda>b.
       case h_Difficulty h of
         None \<Rightarrow> Panic
       | Some d \<Rightarrow>
           if b \<and> d \<noteq> 2 then Err errWrongDifficulty
           else if \<not> b \<and> d \<noteq> 1 then Err errWrongDifficulty
           else Ok ()))"

definition eng_ecrecover :: "parlia \<Rightarrow> header \<Rightarrow> address eng" where
  "eng_ecrecover p h g =
    (case ecrecover (e_crypto (p_env p)) (e_sig_add (p_env p)) (e_chainId (p_env p)) h (g_signatures g) of
       (r, cache) \<Rightarrow> (r, g\<lparr>g_signatures := cache\<rparr>))"

definition verifySeal :: "parlia \<Rightarrow> nat \<Rightarrow> header \<Rightarrow> header list \<Rightarrow> unit eng" where
  "verifySeal p fuel h parents =
    (let number = hnum h
     in if number = 0 then eng_lift (Err errUnknownBlock)
        else eng_bind (Parlia_snapshot p fuel (number - 1) (h_ParentHash h) parents) (\<lambda>snap.
          eng_bind (eng_ecrecover p h) (\<lambda>signer.
            eng_lift
              (if signer \<noteq> h_Coinbase h then Err errCoinBaseMisMatch
               else if signer |\<notin>| s_Validators snap then Err errUnauthorizedValidator
               else if seen_recently snap number signer then Err errRecentlySigned
               else verify_difficulty p snap signer h))))"

definition VerifySeal :: "parlia \<Rightarrow> nat \<Rightarrow> header \<Rightarrow> unit eng" where
  "VerifySeal p fuel h = verifySeal p fuel h []"

definition parent_of :: "parlia \<Rightarrow> header \<Rightarrow> header list \<Rightarrow> header option" where
  "parent_of p h parents =
    (if length parents > 0 then Some (last parents)
     else c_GetHeader (e_chain (p_env p)) (h_ParentHash h) (hnum h - 1))"

definition verifyCascadingFields :: "parlia \<Rightarrow> nat \<Rightarrow> header \<Rightarrow> header list \<Rightarrow> unit eng" where
  "verifyCascadingFields p fuel h parents =
    (let number = hnum h
     in if number = 0 then eng_lift (Ok ())
        else
          (case parent_of p h parents of
             None \<Rightarrow> eng_lift (Err ErrUnknownAncestor)
           | Some parent \<Rightarrow>
               if hnum parent \<noteq> number - 1 \<or> Hash (e_crypto (p_env p)) parent \<noteq> h_ParentHash h
               then eng_lift (Err ErrUnknownAncestor)
               else eng_bind (Parlia_snapshot p fuel (number - 1) (h_ParentHash h) parents) (\<lambda>snap.
                 eng_bind (eng_lift (blockTimeVerifyForRamanujanFork p snap h parent)) (\<lambda>_.
                   eng_bind (eng_lift (verify_gas parent h)) (\<lambda>_.
                     verifySeal p fuel h parents)))))"

definition verifyHeader :: "parlia \<Rightarrow> nat \<Rightarrow> header \<Rightarrow> header list \<Rightarrow> unit eng" where
  "verifyHeader p fuel h parents =
    eng_bind (eng_lift (verifyHeader_basic p h)) (\<lambda>_. verifyCascadingFields p fuel h parents)"

definition VerifyHeader :: "parlia \<Rightarrow> nat \<Rightarrow> header \<Rightarrow> unit eng" where
  "VerifyHeader p fuel h = verifyHeader p fuel h []"

text \<open>The results of \<open>VerifyHeaders\<close> in the order in which they are sent, when nobody aborts.\<close>

fun verify_batch :: "parlia \<Rightarrow> nat \<Rightarrow> header list \<Rightarrow> header list \<Rightarrow> engine \<Rightarrow> (perr, unit) res list \<times> engine" where
  "verify_batch p fuel prev [] g = ([], g)"
| "verify_batch p fuel prev (h # hs) g =
    (let (r, g') = verifyHeader p fuel h prev g;
         (rs, g'') = verify_batch p fuel (prev @ [h]) hs g'
     in (r # rs, g''))"

definition VerifyHeaders :: "parlia \<Rightarrow> nat \<Rightarrow> header list \<Rightarrow> engine \<Rightarrow> (perr, unit) res list \<times> engine" where
  "VerifyHeaders p fuel headers = verify_batch p fuel [] headers"

definition VerifyUncles :: "header list \<Rightarrow> (perr, unit) res" where
  "VerifyUncles uncles = (if length uncles > 0 then Err UnclesNotAllowed else Ok ())"

section \<open>Preparing and sealing blocks\<close>

definition CalcDifficulty :: "snapshot \<Rightarrow> address \<Rightarrow> (perr, int) res" where
  "CalcDifficulty snap signer = map_res (\<lambda>b. if b then 2 else 1) (inturn snap signer)"

definition prepare_vanity :: "parlia \<Rightarrow> header \<Rightarrow> bytes" where
  "prepare_vanity p h =
    (let ex = h_Extra h;
         ex1 = (if length ex < extraVanity - nextForkHashSize
                then ex @ replicate (extraVanity - nextForkHashSize - length ex) 0 else ex)
     in take (extraVanity - nextForkHashSize) ex1 @ NextForkHash (p_chainConfig p) (p_genesisHash p) (hnum h))"

definition prepare_validators :: "parlia \<Rightarrow> header \<Rightarrow> (perr, bytes) res" where
  "prepare_validators p h =
    (if Epoch (p_config p) = 0 then Panic
     else if hnum h mod Epoch (p_config p) = 0 then
       (case p_getCurrentValidators p (h_ParentHash h) ((case h_Number h of None \<Rightarrow> 0 | Some n \<Rightarrow> n) - 1) of
          None \<Rightarrow> Err CallFailed
        | Some vals \<Rightarrow> Ok (concat (map addr_bytes (sort vals))))
     else Ok [])"

definition Prepare :: "parlia \<Rightarrow> nat \<Rightarrow> header \<Rightarrow> header eng" where
  "Prepare p fuel h0 =
    (let h = h0\<lparr>h_Coinbase := p_val p, h_Nonce := 0\<rparr>; number = hnum h
     in eng_bind (Parlia_snapshot p fuel (number - 1) (h_ParentHash h) []) (\<lambda>snap.
       eng_lift
         (bind_res (CalcDifficulty snap (p_val p)) (\<lambda>d.
            bind_res (prepare_validators p h) (\<lambda>vals.
              let h1 = h\<lparr>h_Difficulty := Some d,
                         h_Extra := prepare_vanity p h @ vals @ replicate extraSeal 0,
                         h_MixDigest := 0\<rparr>
              in case c_GetHeader (e_chain (p_env p)) (h_ParentHash h) (number - 1) of
                   None \<Rightarrow> Err ErrUnknownAncestor
                 | Some parent \<Rightarrow>
                     bind_res (blockTimeForRamanujanFork p snap h1 parent) (\<lambda>t.
                       Ok (h1\<lparr>h_Time := (if t < p_now p then p_now p else t)\<rparr>)))))))"




definition shouldWaitForCurrentBlockProcess :: "parlia \<Rightarrow> header \<Rightarrow> (perr, bool) res" where
  "shouldWaitForCurrentBlockProcess p h =
    (case h_Difficulty h of
       None \<Rightarrow> Panic
     | Some d \<Rightarrow>
         Ok (d \<noteq> 2 \<and>
           (case c_GetHighestVerifiedHeader (e_chain (p_env p)) of
              None \<Rightarrow> False
            | Some hv \<Rightarrow> h_ParentHash h = h_ParentHash hv)))"

definition Delay :: "parlia \<Rightarrow> nat \<Rightarrow> header \<Rightarrow> engine \<Rightarrow> (perr, int option) res \<times> engine" where
  "Delay p fuel h g =
    (case Parlia_snapshot p fuel (hnum h - 1) (h_ParentHash h) [] g of
       (Ok snap, g') \<Rightarrow>
         (map_res (\<lambda>delay.
            let half = sint (Period (p_config p) * 1000000000) sdiv 2
            in Some (if delay > half then half else delay)) (delayForRamanujanFork p snap h), g')
     | (Err e, g') \<Rightarrow> (Ok None, g')
     | (Panic, g') \<Rightarrow> (Panic, g'))"

definition EnoughDistance :: "parlia \<Rightarrow> nat \<Rightarrow> header \<Rightarrow> engine \<Rightarrow> (perr, bool) res \<times> engine" where
  "EnoughDistance p fuel h g =
    (case Parlia_snapshot p fuel (hnum h - 1) (h_ParentHash h) [] g of
       (Ok snap, g') \<Rightarrow> (Ok (enoughDistance snap (p_val p) h), g')
     | (Err e, g') \<Rightarrow> (Ok True, g')
     | (Panic, g') \<Rightarrow> (Panic, g'))"

definition AllowLightProcess :: "parlia \<Rightarrow> nat \<Rightarrow> header \<Rightarrow> engine \<Rightarrow> (perr, bool) res \<times> engine" where
  "AllowLightProcess p fuel h g =
    (case Parlia_snapshot p fuel (hnum h - 1) (h_ParentHash h) [] g of
       (Ok snap, g') \<Rightarrow> (Ok (indexOfVal snap (p_val p) < 0), g')
     | (Err e, g') \<Rightarrow> (Ok True, g')
     | (Panic, g') \<Rightarrow> (Panic, g'))"

definition IsLocalBlock :: "parlia \<Rightarrow> header \<Rightarrow> bool" where
  "IsLocalBlock p h = (p_val p = h_Coinbase h)"

text \<open>\<open>SignRecently\<close> returns true together with an error; the error is the result here.\<close>

definition SignRecently :: "parlia \<Rightarrow> nat \<Rightarrow> header \<Rightarrow> bool eng" where
  "SignRecently p fuel parent =
    eng_bind (Parlia_snapshot p fuel (hnum parent) (h_ParentHash parent) []) (\<lambda>snap.
      eng_lift
        (if p_val p |\<notin>| s_Validators snap then Err errUnauthorizedValidator
         else Ok (must_wait snap (hnum parent + 1) (p_val p))))"

definition Parlia_CalcDifficulty :: "parlia \<Rightarrow> nat \<Rightarrow> header \<Rightarrow> engine \<Rightarrow> (perr, int option) res \<times> engine" where
  "Parlia_CalcDifficulty p fuel parent g =
    (case Parlia_snapshot p fuel (hnum parent) (Hash (e_crypto (p_env p)) parent) [] g of
       (Ok snap, g') \<Rightarrow> (map_res Some (CalcDifficulty snap (p_val p)), g')
     | (Err e, g') \<Rightarrow> (Ok None, g')
     | (Panic, g') \<Rightarrow> (Panic, g'))"

definition Authorize :: "address \<Rightarrow> (address \<Rightarrow> bytes \<Rightarrow> bytes option) \<Rightarrow> parlia \<Rightarrow> parlia" where
  "Authorize val signFn p = p\<lparr>p_val := val, p_signFn := signFn\<rparr>"

section \<open>Lemmas\<close>

lemma eng_lift_apply [simp]: "eng_lift r g = (r, g)"
  by (simp add: eng_lift_def)

lemma eng_bind_Ok:
  "eng_bind m f g = (Ok y, g') \<longleftrightarrow> (\<exists>x g1. m g = (Ok x, g1) \<and> f x g1 = (Ok y, g'))"
  by (auto simp: eng_bind_def split: prod.splits res.splits)

lemma eng_bind_lift [simp]: "eng_bind (eng_lift (Ok x)) f = f x"
  by (auto simp: eng_bind_def fun_eq_iff)

lemma slice_not_Err [simp]: "slice xs a b \<noteq> Err e"
  by (simp add: slice_def)

lemma genesis_snapshot_err: "genesis_snapshot p n cp = Err e \<Longrightarrow> e = InvalidValidatorsBytes"
  by (auto simp: genesis_snapshot_def bind_res_eq_Err ParseValidators_def split: if_splits)

subsection \<open>Termination of the search for a snapshot\<close>

declare find_snapshot.simps [simp del]

lemma find_snapshot_fuel:
  assumes "c_GetHeaderByNumber (e_chain (p_env p)) 0 = Some cp" "unat number < fuel"
  shows "find_snapshot p fuel number h parents hs g = find_snapshot p (Suc (unat number)) number h parents hs g \<and>
    fst (find_snapshot p fuel number h parents hs g) \<noteq> Err OutOfFuelSnapshot"
  using assms(2)
proof (induction "unat number" arbitrary: number fuel h parents hs)
  case 0
  then have n: "number = 0" by (simp add: unat_eq_0)
  obtain f where f: "fuel = Suc f" using 0 by (cases fuel) auto
  show ?case
    using assms(1) by (auto simp: n f find_snapshot.simps eng_bind_def store_def split: option.splits res.splits dest: genesis_snapshot_err)
next
  case (Suc n)
  then have nz: "number \<noteq> 0" by auto
  then have n: "n = unat (number - 1)" using Suc(2) by (simp add: unat_minus_one)
  obtain f where f: "fuel = Suc f" "n < f" using Suc.prems Suc(2) by (cases fuel) auto
  have IH: "find_snapshot p f (number - 1) h' ps hs' g = find_snapshot p (Suc n) (number - 1) h' ps hs' g"
    "fst (find_snapshot p f (number - 1) h' ps hs' g) \<noteq> Err OutOfFuelSnapshot" for h' ps hs'
    using Suc(1) [OF n, of f h' ps hs', folded n, OF f(2)] by blast+
  show ?case
    by (simp add: f(1) Suc(2) [symmetric] find_snapshot.simps(2) [of p f number] find_snapshot.simps(2) [of p "Suc n" number]
      nz IH(1) IH(2) [unfolded IH(1)] split: option.splits)
qed

text \<open>C31: Looking up the snapshot of a block always ends: when the chain has its genesis block, the search takes
  at most one round more than the block number, and any larger number of rounds gives the same result.\<close>

theorem Parlia_snapshot_terminates:
  assumes "c_GetHeaderByNumber (e_chain (p_env p)) 0 = Some cp" "unat number < fuel"
  shows "Parlia_snapshot p fuel number h parents = Parlia_snapshot p (Suc (unat number)) number h parents \<and>
    fst (find_snapshot p fuel number h parents [] g) \<noteq> Err OutOfFuelSnapshot"
proof -
  have "find_snapshot p fuel number h parents [] = find_snapshot p (Suc (unat number)) number h parents []"
    using find_snapshot_fuel [OF assms] by auto
  then show ?thesis using find_snapshot_fuel [OF assms, of h parents "[]" g] unfolding Parlia_snapshot_def by metis
qed

definition toy_parlia :: parlia where
  "toy_parlia = \<lparr>p_env = toy_env\<lparr>e_chain := (e_chain toy_env)\<lparr>c_GetHeaderByNumber := (\<lambda>_. Some (toy_header 0)),
       c_GetHeader := (\<lambda>x n. if x = 5 \<and> n = 10 then Some (toy_header 10) else None)\<rparr>\<rparr>,
     p_chainConfig = BSCChainConfig, p_config = \<lparr>Period = 3, Epoch = 200\<rparr>, p_genesisHash = 5, p_val = 5, p_fakeDiff = False,
     p_snap_add = fmupd, p_put = (\<lambda>k s m. Some (fmupd k s m)), p_now = 100, p_until = (\<lambda>_. 7),
     p_draw = (\<lambda>_ i. 0), p_rand63 = (\<lambda>_. 0), p_getCurrentValidators = (\<lambda>_ _. Some [5]), p_signFn = (\<lambda>_ _. Some (replicate 65 0))\<rparr>"

theorem Parlia_snapshot_terminates_witness:
  "fst (find_snapshot toy_parlia 42 41 5 [] [] \<lparr>g_recentSnaps = fmempty, g_signatures = fmempty, g_db = fmempty\<rparr>) \<noteq> Err OutOfFuelSnapshot"
  using Parlia_snapshot_terminates [of toy_parlia "toy_header 0" 41 42 5 "[]" "\<lparr>g_recentSnaps = fmempty, g_signatures = fmempty, g_db = fmempty\<rparr>"] by (simp add: toy_parlia_def)

subsection \<open>Recent signers: verifying, sealing and applying\<close>

lemma next_number: "unat (s_Number s) + 1 < 2 ^ 64 \<Longrightarrow> unat (s_Number s + 1) = Suc (unat (s_Number s))"
  by (simp add: unat_word_ariths(1))

lemma limit_word:
  assumes "snap_inv s"
  shows "unat (of_nat (fcard (s_Validators s) div 2 + 1) :: u64) = limit s" "limit s < 2 ^ 62"
proof -
  show l: "limit s < 2 ^ 62" using assms unfolding snap_inv_def win_def by (blast intro: limit_less)
  then show "unat (of_nat (fcard (s_Validators s) div 2 + 1) :: u64) = limit s"
    unfolding limit_def by (subst unat_of_nat_u64) simp_all
qed

lemma snap_inv_window:
  assumes "snap_inv s" "fmlookup (s_Recents s) k = Some v"
  shows "unat k \<le> unat (s_Number s)" "unat (s_Number s) < unat k + limit s"
  using assms by (auto simp: snap_inv_def win_def)

lemma must_wait_iff: "must_wait s m v \<longleftrightarrow> (\<exists>k. fmlookup (s_Recents s) k = Some v \<and>
    (m < of_nat (fcard (s_Validators s) div 2 + 1) \<or> k > m - of_nat (fcard (s_Validators s) div 2 + 1)))"
  unfolding must_wait_def Let_def by (blast intro: fmdomI)

lemma seen_recently_iff: "seen_recently s m v \<longleftrightarrow> (\<exists>k. fmlookup (s_Recents s) k = Some v \<and>
    k > m - of_nat (fcard (s_Validators s) div 2 + 1))"
  unfolding seen_recently_def Let_def by (blast intro: fmdomI)

text \<open>C32: The test that \<open>Seal\<close> and \<open>SignRecently\<close> make before signing is exact: a validator is told to wait if and
  only if applying its block to the snapshot would be refused with "recently signed".\<close>

theorem must_wait_iff_rejected:
  assumes "snap_inv s" "unat (s_Number s) + 1 < 2 ^ 64" "v |\<in>| s_Validators s"
  shows "must_wait s (s_Number s + 1) v \<longleftrightarrow>
    apply_signer (s_Number s + 1) v (shift_out (s_Number s + 1) s) = Err errRecentlySigned"
proof -
  let ?m = "s_Number s + 1" and ?l = "of_nat (fcard (s_Validators s) div 2 + 1) :: u64"
  note m = next_number [OF assms(2)] and l = limit_word [OF assms(1)]
  have key: "?m < ?l \<or> k > ?m - ?l \<longleftrightarrow> \<not> (limit s \<le> unat ?m \<and> unat k = unat ?m - limit s)"
    if "fmlookup (s_Recents s) k = Some v" for k
  proof (cases "?m < ?l")
    case True
    then show ?thesis using l(1) by (simp add: word_less_nat_alt)
  next
    case False
    then have "unat (?m - ?l) = unat ?m - limit s" using l(1) unat_sub [of ?l ?m] by (simp only: not_less)
    then have "k > ?m - ?l \<longleftrightarrow> unat k > unat ?m - limit s" by (simp add: word_less_nat_alt)
    then show ?thesis
      using False l(1) m snap_inv_window [OF assms(1) that] by (auto simp: word_less_nat_alt)
  qed
  have "v |\<in>| fmran (s_Recents (shift_out ?m s)) \<longleftrightarrow>
      (\<exists>k. fmlookup (s_Recents s) k = Some v \<and> \<not> (limit s \<le> unat ?m \<and> unat k = unat ?m - limit s))"
    by (auto simp: fmlookup_ran_iff shift_out_Recents [OF l(2)])
  also have "\<dots> \<longleftrightarrow> must_wait s ?m v"
    unfolding must_wait_iff using key by blast
  finally show ?thesis using assms(3) by (auto simp: apply_signer_def)
qed

lemma toy_inv: "snap_inv toy_snapshot" "5 |\<in>| s_Validators toy_snapshot" "s_Number toy_snapshot = 10"
  using toy_facts by (simp_all add: toy_snapshot_def newSnapshot_def)

theorem must_wait_iff_rejected_witness:
  "must_wait toy_snapshot (s_Number toy_snapshot + 1) 5 \<longleftrightarrow>
    apply_signer (s_Number toy_snapshot + 1) 5 (shift_out (s_Number toy_snapshot + 1) toy_snapshot) = Err errRecentlySigned"
  by (rule must_wait_iff_rejected) (simp_all add: toy_inv)

text \<open>C33: The corresponding test of \<open>verifySeal\<close> lacks the guard \<open>number < limit\<close>. While the block number is below
  the limit, the subtraction wraps around and no signer counts as recent: a header signed by a validator that
  has just signed passes the test although applying it is refused.\<close>

theorem verifySeal_misses_early_recents:
  assumes "snap_inv s" "unat (s_Number s) + 1 < limit s" "v |\<in>| s_Validators s"
    and "fmlookup (s_Recents s) k = Some v"
  shows "\<not> seen_recently s (s_Number s + 1) v \<and>
    apply_signer (s_Number s + 1) v (shift_out (s_Number s + 1) s) = Err errRecentlySigned"
proof -
  let ?m = "s_Number s + 1" and ?l = "of_nat (fcard (s_Validators s) div 2 + 1) :: u64"
  note l = limit_word [OF assms(1)]
  have "unat (s_Number s) + 1 < 2 ^ 64" using l(2) assms(2) by simp
  note m = next_number [OF this]
  have "\<not> j > ?m - ?l" if j: "fmlookup (s_Recents s) j = Some v" for j
  proof -
    have lt: "?m < ?l" using assms(2) m l(1) by (simp add: word_less_nat_alt)
    then have "unat (?m - ?l) = 2 ^ 64 + unat ?m - limit s"
      using l unat_sub_if_size [of ?m ?l] by (auto simp: word_size word_le_nat_alt word_less_nat_alt)
    then show ?thesis
      using snap_inv_window(1) [OF assms(1) j] l(2) m by (simp add: word_less_nat_alt)
  qed
  then have "\<not> seen_recently s ?m v" unfolding seen_recently_iff by blast
  moreover have "fmlookup (s_Recents (shift_out ?m s)) k = Some v"
    using assms(2,4) m by (simp add: shift_out_Recents [OF l(2)])
  ultimately show ?thesis using assms(3) by (auto simp: apply_signer_def intro: fmranI)
qed

definition early_snapshot :: snapshot where
  "early_snapshot = (newSnapshot \<lparr>Period = 3, Epoch = 200\<rparr> 1 5 [1, 2, 3, 4, 5])\<lparr>s_Recents := fmupd 1 3 fmempty\<rparr>"

theorem verifySeal_misses_early_recents_witness:
  "\<not> seen_recently early_snapshot (s_Number early_snapshot + 1) 3 \<and>
    apply_signer (s_Number early_snapshot + 1) 3 (shift_out (s_Number early_snapshot + 1) early_snapshot) = Err errRecentlySigned"
proof -
  have v: "s_Validators early_snapshot = {|1, 2, 3, 4, 5|}" by (simp add: early_snapshot_def newSnapshot_def)
  have c: "fcard {|1, 2, 3, 4, 5 :: address|} = 5" by (simp add: fcard.rep_eq)
  show ?thesis
    by (rule verifySeal_misses_early_recents [where k = 1])
      (auto simp: v snap_inv_def win_def limit_def c early_snapshot_def newSnapshot_def split: if_splits)
qed


definition toy_engine :: engine where
  "toy_engine = \<lparr>g_recentSnaps = fmupd 5 toy_snapshot fmempty, g_signatures = fmempty, g_db = fmempty\<rparr>"

lemma toy_Parlia_snapshot:
  "Parlia_snapshot toy_parlia 1 10 5 [] toy_engine = (Ok toy_snapshot, toy_engine)"
  by (simp add: Parlia_snapshot_def eng_bind_def find_snapshot.simps toy_engine_def eng_apply_def snap_apply_def Let_def
    toy_parlia_def toy_snapshot_def newSnapshot_def fmap_ext)



subsection \<open>Back-off times\<close>

lemma length_shuffle [simp]: "length (shuffle draw n xs) = length xs"
  by (induction n arbitrary: xs) auto

lemma mset_shuffle:
  assumes "\<And>i. draw i \<le> i" "n < length xs"
  shows "mset (shuffle draw n xs) = mset xs"
  using assms(2)
proof (induction n arbitrary: xs)
  case (Suc n)
  have "draw (Suc n) < length xs" using assms(1) [of "Suc n"] Suc.prems by simp
  then have "mset (xs[Suc n := xs ! draw (Suc n), draw (Suc n) := xs ! Suc n]) = mset xs"
    using Suc.prems by (intro mset_swap)
  then show ?case using Suc by simp
qed simp

lemma backOffSteps_perm:
  assumes "\<And>s i. p_draw p s i \<le> i" "fcard (s_Validators snap) < 2 ^ 62"
  shows "length (backOffSteps p snap) = fcard (s_Validators snap)" "distinct (backOffSteps p snap)"
    "set (backOffSteps p snap) = of_nat ` {..<fcard (s_Validators snap)}"
proof -
  let ?n = "fcard (s_Validators snap)"
  let ?xs = "map of_nat [0..<?n] :: u64 list"
  have "mset (backOffSteps p snap) = mset ?xs"
  proof (cases "?n = 0")
    case False
    then show ?thesis unfolding backOffSteps_def Shuffle_def by (intro mset_shuffle) (use assms(1) in \<open>simp_all del: fcard_0_eq\<close>)
  qed (simp add: backOffSteps_def Shuffle_def)
  moreover have "distinct ?xs"
  proof -
    have "inj_on (of_nat :: nat \<Rightarrow> u64) {0..<?n}"
    proof (rule inj_onI)
      fix x y assume xy: "x \<in> {0..<?n}" "y \<in> {0..<?n}" "(of_nat x :: u64) = of_nat y"
      then have "x < 2 ^ 64" "y < 2 ^ 64" using assms(2) by auto
      then show "x = y" using xy(3) by (metis unat_of_nat_u64)
    qed
    then show ?thesis by (simp add: distinct_map)
  qed
  ultimately show "length (backOffSteps p snap) = ?n" "distinct (backOffSteps p snap)"
      "set (backOffSteps p snap) = of_nat ` {..<?n}"
    by (metis length_map length_upt minus_nat.diff_0 size_mset, metis mset_eq_imp_distinct_iff,
      metis atLeast_upt mset_eq_setD set_map)
qed

lemma index_from_nth: "distinct vs \<Longrightarrow> k < length vs \<Longrightarrow> index_from i (vs ! k) vs = i + int k"
proof (induction vs arbitrary: i k)
  case (Cons v vs)
  then show ?case by (cases k) (auto simp: nth_mem)
qed simp

lemma indexOfVal_validator:
  assumes "v |\<in>| s_Validators s"
  obtains k where "k < fcard (s_Validators s)" "indexOfVal s v = int k" "validators s ! k = v"
proof -
  obtain k where "k < length (validators s)" "validators s ! k = v"
    using assms validators_props(1) by (metis in_set_conv_nth)
  then show thesis
    using that [of k] index_from_nth [OF validators_props(2) [of s], of k 0] validators_props(4) [of s] by (simp add: indexOfVal_def)
qed

text \<open>C34: Validators out of turn never collide: whatever the random source draws, two different validators that are
  both out of turn get different back-off times, each between one second and one second per validator.\<close>

theorem backOffTime_distinct:
  assumes "\<And>s i. p_draw p s i \<le> i" "fcard (s_Validators snap) < 2 ^ 62"
    and "v |\<in>| s_Validators snap" "w |\<in>| s_Validators snap" "v \<noteq> w"
    and "inturn snap v = Ok False" "inturn snap w = Ok False"
  shows "\<exists>t u. backOffTime p snap v = Ok t \<and> backOffTime p snap w = Ok u \<and> t \<noteq> u \<and>
    1 \<le> unat t \<and> unat t \<le> fcard (s_Validators snap)"
proof -
  let ?n = "fcard (s_Validators snap)" and ?b = "backOffSteps p snap"
  obtain j where j: "j < ?n" "indexOfVal snap v = int j" "validators snap ! j = v"
    using assms(3) by (rule indexOfVal_validator)
  obtain k where k: "k < ?n" "indexOfVal snap w = int k" "validators snap ! k = w"
    using assms(4) by (rule indexOfVal_validator)
  note b = backOffSteps_perm [OF assms(1,2)]
  have ne: "?b ! j \<noteq> ?b ! k" using b(1,2) j k assms(5) nth_eq_iff_index_eq [of ?b j k] by auto
  have "?b ! j \<in> of_nat ` {..<?n}" using b(1,3) j(1) nth_mem [of j ?b] by simp
  then obtain i where i: "i < ?n" "?b ! j = of_nat i" by auto
  have "unat (1 + (of_nat i :: u64)) = Suc i"
    using i(1) assms(2) by (simp add: unat_word_ariths(1) unat_of_nat_u64)
  then have t: "1 \<le> unat (1 + ?b ! j)" "unat (1 + ?b ! j) \<le> ?n" using i by simp_all
  have "backOffTime p snap v = Ok (1 + ?b ! j)" "backOffTime p snap w = Ok (1 + ?b ! k)"
    using assms(6,7) j k by (simp_all add: backOffTime_def)
  then show ?thesis using t ne by simp
qed

definition three_snapshot :: snapshot where
  "three_snapshot = newSnapshot \<lparr>Period = 3, Epoch = 200\<rparr> 10 5 [1, 2, 3]"

theorem backOffTime_distinct_witness:
  "\<exists>t u. backOffTime toy_parlia three_snapshot 1 = Ok t \<and> backOffTime toy_parlia three_snapshot 2 = Ok u \<and> t \<noteq> u"
proof -
  have v: "s_Validators three_snapshot = {|1, 2, 3|}" "s_Number three_snapshot = 10"
    by (simp_all add: three_snapshot_def newSnapshot_def)
  have "validators three_snapshot = [1, 2, 3]"
    by (simp add: validators_def v sorted_list_of_fset.rep_eq sorted_list_of_set_insert_remove insort_key.simps)
  then have "inturn three_snapshot 1 = Ok False" "inturn three_snapshot 2 = Ok False"
    by (simp_all add: inturn_def v)
  then show ?thesis
    using backOffTime_distinct [of toy_parlia three_snapshot 1 2] by (auto simp: toy_parlia_def v fcard.rep_eq)
qed

subsection \<open>Preparing a header\<close>

lemma prepare_vanity_length: "length (prepare_vanity p h) = extraVanity"
  by (simp add: prepare_vanity_def Let_def parlia_consts NextForkHash_def checksumToBytes_def split: prod.splits)

text \<open>C12: A header made by \<open>Prepare\<close> satisfies what verification asks of the fields \<open>Prepare\<close> sets: its extra-data
  pass the checks of \<open>verifyHeader\<close>, on an epoch block they carry exactly the sorted validators of the contract,
  the mix digest is zero, the coinbase is the validator, and the time passes the back-off check
  against the parent block.\<close>

theorem Prepare_passes_checks:
  assumes "Prepare p fuel h g = (Ok h', g')" "Epoch (p_config p) \<noteq> 0"
  shows "verifyHeader_extra p h' = Ok () \<and> h_MixDigest h' = 0 \<and> h_Coinbase h' = p_val p \<and>
    (hnum h mod Epoch (p_config p) = 0 \<longrightarrow> (\<exists>vals n. p_getCurrentValidators p (h_ParentHash h) n = Some vals \<and>
       ParseValidators (take (length (h_Extra h') - extraVanity - extraSeal) (drop extraVanity (h_Extra h'))) = Ok (sort vals))) \<and>
    (\<exists>snap parent. Parlia_snapshot p fuel (hnum h - 1) (h_ParentHash h) [] g = (Ok snap, g') \<and>
       c_GetHeader (e_chain (p_env p)) (h_ParentHash h) (hnum h - 1) = Some parent \<and>
       CalcDifficulty snap (p_val p) = Ok (the (h_Difficulty h')) \<and>
       blockTimeVerifyForRamanujanFork p snap h' parent = Ok ())"
proof -
  let ?h = "h\<lparr>h_Coinbase := p_val p, h_Nonce := 0\<rparr>"
  have num: "hnum ?h = hnum h" by (simp add: hnum_def)
  obtain snap where snap: "Parlia_snapshot p fuel (hnum h - 1) (h_ParentHash h) [] g = (Ok snap, g')"
    using assms(1) by (auto simp: Prepare_def Let_def eng_bind_Ok num)
  obtain d vals parent t where d: "CalcDifficulty snap (p_val p) = Ok d" "prepare_validators p ?h = Ok vals"
      "c_GetHeader (e_chain (p_env p)) (h_ParentHash h) (hnum h - 1) = Some parent"
    and t: "blockTimeForRamanujanFork p snap (?h\<lparr>h_Difficulty := Some d,
          h_Extra := prepare_vanity p ?h @ vals @ replicate extraSeal 0, h_MixDigest := 0\<rparr>) parent = Ok t"
    and h': "h' = ?h\<lparr>h_Difficulty := Some d, h_Extra := prepare_vanity p ?h @ vals @ replicate extraSeal 0,
          h_MixDigest := 0, h_Time := (if t < p_now p then p_now p else t)\<rparr>"
    using assms(1) snap by (auto simp: Prepare_def Let_def eng_bind_def num split: option.splits)
  have lv: "length (prepare_vanity p ?h) = 32" using prepare_vanity_length [of p ?h] by (simp add: parlia_consts)
  have num': "hnum h' = hnum h" by (simp add: h' hnum_def)
  have mid: "take (length (h_Extra h') - extraVanity - extraSeal) (drop extraVanity (h_Extra h')) = vals"
    using lv by (simp add: h' parlia_consts)
  have ex: "verifyHeader_extra p h' = Ok ()"
  proof (cases "hnum h mod Epoch (p_config p) = 0")
    case True
    then obtain vs where "vals = concat (map addr_bytes (sort vs))"
      using d(2) assms(2) num by (auto simp: prepare_validators_def split: option.splits)
    then have "length vals = 20 * length vs" by (simp add: length_concat comp_def sum_list_triv)
    then show ?thesis using True lv assms(2) num' by (simp add: verifyHeader_extra_def h' parlia_consts Let_def)
  next
    case False
    then have "vals = []" using d(2) assms(2) num by (simp add: prepare_validators_def)
    then show ?thesis using False lv assms(2) num' by (simp add: verifyHeader_extra_def h' parlia_consts Let_def)
  qed
  have "\<exists>vs n. p_getCurrentValidators p (h_ParentHash h) n = Some vs \<and> ParseValidators vals = Ok (sort vs)"
    if "hnum h mod Epoch (p_config p) = 0"
    using that d(2) assms(2) num by (auto simp: prepare_validators_def ParseValidators_concat split: option.splits)
  moreover have "t \<le> h_Time h'" "h_Number h' = h_Number h" "h_Coinbase h' = p_val p"
    by (simp_all add: h' less_imp_le)
  then have "blockTimeVerifyForRamanujanFork p snap h' parent = Ok ()"
    using t by (auto simp: blockTimeVerifyForRamanujanFork_def blockTimeForRamanujanFork_def Let_def not_less split: if_splits)
  ultimately show ?thesis using ex mid snap d by (auto simp: h')
qed

lemma toy_Prepare: "\<exists>h'. Prepare toy_parlia 1 (toy_header 11) toy_engine = (Ok h', toy_engine)"
proof -
  have "CalcDifficulty toy_snapshot 5 = Ok 2"
    by (simp add: CalcDifficulty_def inturn_def Let_def validators_def toy_snapshot_def newSnapshot_def sorted_list_of_fset.rep_eq)
  moreover have "backOffTime toy_parlia toy_snapshot 5 = Ok 0"
    by (simp add: backOffTime_def inturn_def Let_def validators_def toy_snapshot_def newSnapshot_def sorted_list_of_fset.rep_eq)
  moreover have "p_val toy_parlia = 5" by (simp add: toy_parlia_def)
  ultimately have "\<exists>t. blockTimeForRamanujanFork toy_parlia toy_snapshot h parent = Ok t" for h parent
    by (simp add: blockTimeForRamanujanFork_def Let_def)
  moreover have "prepare_validators toy_parlia ((toy_header 11)\<lparr>h_Coinbase := 5, h_Nonce := 0\<rparr>) = Ok []"
      "c_GetHeader (e_chain (p_env toy_parlia)) 5 10 = Some (toy_header 10)"
    by (simp_all add: prepare_validators_def toy_parlia_def toy_header_def hnum_def)
  moreover have "hnum ((toy_header 11)\<lparr>h_Coinbase := 5, h_Nonce := 0\<rparr>) = 11" "h_ParentHash (toy_header 11) = 5"
    by (simp_all add: toy_header_def hnum_def)
  ultimately show ?thesis
    using toy_Parlia_snapshot \<open>CalcDifficulty toy_snapshot 5 = Ok 2\<close> \<open>p_val toy_parlia = 5\<close>
    by (simp add: Prepare_def Let_def eng_bind_def)
qed

theorem Prepare_passes_checks_witness:
  "\<exists>h'. Prepare toy_parlia 1 (toy_header 11) toy_engine = (Ok h', toy_engine) \<and> verifyHeader_extra toy_parlia h' = Ok ()"
  using toy_Prepare Prepare_passes_checks [of toy_parlia 1 "toy_header 11" toy_engine _ toy_engine]
  by (fastforce simp: toy_parlia_def)

subsection \<open>Verifying a header\<close>





subsection \<open>Snapshots that are looked up\<close>




lemma snap_inv_config [simp]: "snap_inv (s\<lparr>s_config := c\<rparr>) = snap_inv s"
  by (simp add: snap_inv_def win_def limit_def)



















end
