(* ===== verification/Access_List.thy ===== *)
theory Access_List
  imports Prelude
begin

text \<open>
  The per-transaction access list, \<open>core/state/access_list.go\<close>: addresses, each with the index of its slot
  set or -1, and the list of slot sets. Its contract is a set of addresses and a set of address-slot
  pairs (\<open>al_addrs\<close>, \<open>al_pairs\<close>), which the operations implement; deletions undo additions exactly, in reverse
  order, and are only used that way, by the journal.
\<close>

section \<open>Operations\<close>

record accessList =
  al_addresses :: "(address, int) fmap"
  al_slots :: "hash fset list"

definition newAccessList :: accessList where
  "newAccessList = \<lparr>al_addresses = fmempty, al_slots = []\<rparr>"

definition ContainsAddress :: "accessList \<Rightarrow> address \<Rightarrow> bool" where
  "ContainsAddress al a = (fmlookup (al_addresses al) a \<noteq> None)"

text \<open>An index outside the list of slot sets is a run-time panic; the well-formedness predicate excludes it.\<close>

definition Contains :: "accessList \<Rightarrow> address \<Rightarrow> hash \<Rightarrow> (unit, bool \<times> bool) res" where
  "Contains al a slot =
    (case fmlookup (al_addresses al) a of
       None \<Rightarrow> Ok (False, False)
     | Some idx \<Rightarrow>
         if idx = -1 then Ok (True, False)
         else if 0 \<le> idx \<and> nat idx < length (al_slots al) then Ok (True, slot |\<in>| al_slots al ! nat idx)
         else Panic)"

definition AddAddress :: "address \<Rightarrow> accessList \<Rightarrow> bool \<times> accessList" where
  "AddAddress a al =
    (if fmlookup (al_addresses al) a \<noteq> None then (False, al)
     else (True, al\<lparr>al_addresses := fmupd a (-1) (al_addresses al)\<rparr>))"

definition AddSlot :: "address \<Rightarrow> hash \<Rightarrow> accessList \<Rightarrow> (unit, (bool \<times> bool) \<times> accessList) res" where
  "AddSlot a slot al =
    (let r = fmlookup (al_addresses al) a
     in if r = None \<or> r = Some (-1) then
          Ok ((r = None, True),
              al\<lparr>al_addresses := fmupd a (int (length (al_slots al))) (al_addresses al),
                 al_slots := al_slots al @ [{|slot|}]\<rparr>)
        else
          (let idx = the r
           in if \<not> (0 \<le> idx \<and> nat idx < length (al_slots al)) then Panic
              else if slot |\<notin>| al_slots al ! nat idx then
                Ok ((False, True), al\<lparr>al_slots := (al_slots al)[nat idx := finsert slot (al_slots al ! nat idx)]\<rparr>)
              else Ok ((False, False), al)))"

definition DeleteSlot :: "address \<Rightarrow> hash \<Rightarrow> accessList \<Rightarrow> (unit, accessList) res" where
  "DeleteSlot a slot al =
    (case fmlookup (al_addresses al) a of
       None \<Rightarrow> Panic
     | Some idx \<Rightarrow>
         if \<not> (0 \<le> idx \<and> nat idx < length (al_slots al)) then Panic
         else
           (let slotmap = al_slots al ! nat idx |-| {|slot|}
            in if slotmap = {||}
               then Ok (al\<lparr>al_addresses := fmupd a (-1) (al_addresses al), al_slots := take (nat idx) (al_slots al)\<rparr>)
               else Ok (al\<lparr>al_slots := (al_slots al)[nat idx := slotmap]\<rparr>)))"

definition DeleteAddress :: "address \<Rightarrow> accessList \<Rightarrow> accessList" where
  "DeleteAddress a al = al\<lparr>al_addresses := fmdrop a (al_addresses al)\<rparr>"

section \<open>Well-formed access lists and what they stand for\<close>

definition al_wf :: "accessList \<Rightarrow> bool" where
  "al_wf al \<longleftrightarrow>
    (\<forall>a idx. fmlookup (al_addresses al) a = Some idx \<longrightarrow> idx = -1 \<or> 0 \<le> idx \<and> nat idx < length (al_slots al)) \<and>
    (\<forall>a b idx. fmlookup (al_addresses al) a = Some idx \<longrightarrow> fmlookup (al_addresses al) b = Some idx \<longrightarrow> idx \<noteq> -1 \<longrightarrow> a = b) \<and>
    (\<forall>s \<in> set (al_slots al). s \<noteq> {||})"

definition al_addrs :: "accessList \<Rightarrow> address set" where
  "al_addrs al = fset (fmdom (al_addresses al))"

definition al_pairs :: "accessList \<Rightarrow> (address \<times> hash) set" where
  "al_pairs al = {(a, s). \<exists>idx. fmlookup (al_addresses al) a = Some idx \<and> idx \<noteq> -1 \<and> s |\<in>| al_slots al ! nat idx}"

lemma newAccessList_wf [simp]: "al_wf newAccessList" "al_addrs newAccessList = {}" "al_pairs newAccessList = {}"
  by (simp_all add: al_wf_def newAccessList_def al_addrs_def al_pairs_def)

lemma al_wf_index:
  "al_wf al \<Longrightarrow> fmlookup (al_addresses al) a = Some idx \<Longrightarrow> idx = -1 \<or> 0 \<le> idx \<and> nat idx < length (al_slots al)"
  by (simp add: al_wf_def)

lemma Contains_spec: "al_wf al \<Longrightarrow> Contains al a slot = Ok (a \<in> al_addrs al, (a, slot) \<in> al_pairs al)"
  by (auto simp: Contains_def al_addrs_def al_pairs_def fmlookup_dom_iff dest: al_wf_index split: option.splits)

lemma fmdrop_fmupd_fresh: "fmlookup m a = None \<Longrightarrow> fmdrop a (fmupd a v m) = m"
  by (rule fmap_ext) auto

lemma AddAddress_spec:
  assumes "al_wf al" "AddAddress a al = (b, al')"
  shows "al_wf al'" "al_addrs al' = insert a (al_addrs al)" "al_pairs al' = al_pairs al" "b \<longleftrightarrow> a \<notin> al_addrs al"
    "DeleteAddress a al' = (if b then al else DeleteAddress a al)"
proof -
  show "al_wf al'"
    using assms unfolding al_wf_def by (auto simp: AddAddress_def split: if_splits) blast+
  show "al_addrs al' = insert a (al_addrs al)" "al_pairs al' = al_pairs al" "b \<longleftrightarrow> a \<notin> al_addrs al"
    using assms by (auto simp: AddAddress_def al_addrs_def al_pairs_def fmlookup_dom_iff split: if_splits)
  show "DeleteAddress a al' = (if b then al else DeleteAddress a al)"
    using assms by (auto simp: AddAddress_def DeleteAddress_def fmdrop_fmupd_fresh split: if_splits)
qed

lemma fmupd_same: "fmlookup m a = Some v \<Longrightarrow> fmupd a v m = m"
  by (rule fmap_ext) auto

lemma AddSlot_fresh:
  assumes "al_wf al" "fmlookup (al_addresses al) a = None \<or> fmlookup (al_addresses al) a = Some (-1)"
  shows "\<exists>al'. AddSlot a slot al = Ok ((fmlookup (al_addresses al) a = None, True), al') \<and> al_wf al' \<and>
    al_addrs al' = insert a (al_addrs al) \<and> al_pairs al' = insert (a, slot) (al_pairs al) \<and>
    DeleteSlot a slot al' = Ok (al\<lparr>al_addresses := fmupd a (-1) (al_addresses al)\<rparr>)"
proof -
  let ?n = "length (al_slots al)"
  let ?al = "al\<lparr>al_addresses := fmupd a (int ?n) (al_addresses al), al_slots := al_slots al @ [{|slot|}]\<rparr>"
  have lt: "idx = -1 \<or> 0 \<le> idx \<and> nat idx < ?n" if "fmlookup (al_addresses al) b = Some idx" for b idx
    using assms(1) that by (rule al_wf_index)
  have wf: "al_wf ?al"
    using assms(1) lt unfolding al_wf_def by (auto simp: nth_append split: if_splits) (force dest: lt)+
  have pairs: "al_pairs ?al = insert (a, slot) (al_pairs al)"
    using assms(2) by (auto simp: al_pairs_def nth_append dest: lt split: if_splits)
  have "DeleteSlot a slot ?al = Ok (al\<lparr>al_addresses := fmupd a (-1) (al_addresses al)\<rparr>)"
    by (simp add: DeleteSlot_def Let_def)
  then show ?thesis
    using assms(2) wf pairs by (auto simp: AddSlot_def al_addrs_def Let_def)
qed

lemma AddSlot_known:
  assumes "al_wf al" "fmlookup (al_addresses al) a = Some idx" "idx \<noteq> -1"
  shows "\<exists>al'. AddSlot a slot al = Ok ((False, slot |\<notin>| al_slots al ! nat idx), al') \<and> al_wf al' \<and>
    al_addrs al' = al_addrs al \<and> al_pairs al' = insert (a, slot) (al_pairs al) \<and>
    (slot |\<notin>| al_slots al ! nat idx \<longrightarrow> DeleteSlot a slot al' = Ok al) \<and> (slot |\<in>| al_slots al ! nat idx \<longrightarrow> al' = al)"
proof -
  have i: "0 \<le> idx" "nat idx < length (al_slots al)" using al_wf_index [OF assms(1,2)] assms(3) by auto
  have other: "b = a" if "fmlookup (al_addresses al) b = Some j" "nat j = nat idx" "j \<noteq> -1" for b j
  proof -
    have "j = idx" using that al_wf_index [OF assms(1) that(1)] i by auto
    then show ?thesis using assms that by (auto simp: al_wf_def)
  qed
  show ?thesis
  proof (cases "slot |\<in>| al_slots al ! nat idx")
    case True
    then show ?thesis using assms i by (auto simp: AddSlot_def Let_def al_pairs_def)
  next
    case False
    let ?al = "al\<lparr>al_slots := (al_slots al)[nat idx := finsert slot (al_slots al ! nat idx)]\<rparr>"
    have ne: "al_slots al ! nat idx \<noteq> {||}" using assms(1) i(2) by (auto simp: al_wf_def)
    have wf: "al_wf ?al"
      using assms(1) set_update_subset_insert [of "al_slots al" "nat idx" "finsert slot (al_slots al ! nat idx)"]
      unfolding al_wf_def by auto
    have "(b, t) \<in> al_pairs ?al \<longleftrightarrow> (b, t) = (a, slot) \<or> (b, t) \<in> al_pairs al" for b t
    proof (cases "b = a")
      case True
      then show ?thesis using assms i by (simp add: al_pairs_def)
    next
      case False
      then have "nat j \<noteq> nat idx" if "fmlookup (al_addresses al) b = Some j" "j \<noteq> -1" for j using other that by blast
      then show ?thesis using False by (auto simp: al_pairs_def)
    qed
    then have pairs: "al_pairs ?al = insert (a, slot) (al_pairs al)" by (intro set_eqI) (simp add: split_paired_all)
    have "DeleteSlot a slot ?al = Ok al"
    proof -
      have "finsert slot (al_slots al ! nat idx) |-| {|slot|} = al_slots al ! nat idx" using False by auto
      then show ?thesis using assms i ne by (simp add: DeleteSlot_def Let_def)
    qed
    then show ?thesis using assms i False wf pairs by (auto simp: AddSlot_def Let_def al_addrs_def)
  qed
qed

text \<open>C36: The access list implements its contract, a set of addresses and a set of address-slot pairs: adding an
  address or a slot adds it to those sets, reports whether it was new, and never panics on a well-formed list,
  \<open>Contains\<close> answers membership, and the result is well-formed again.\<close>

theorem access_list_refines_sets:
  assumes "al_wf al"
  shows "Contains al a s = Ok (a \<in> al_addrs al, (a, s) \<in> al_pairs al) \<and>
    (\<exists>al1. AddAddress a al = (a \<notin> al_addrs al, al1) \<and> al_wf al1 \<and>
       al_addrs al1 = insert a (al_addrs al) \<and> al_pairs al1 = al_pairs al) \<and>
    (\<exists>al2. AddSlot a s al = Ok ((a \<notin> al_addrs al, (a, s) \<notin> al_pairs al), al2) \<and> al_wf al2 \<and>
       al_addrs al2 = insert a (al_addrs al) \<and> al_pairs al2 = insert (a, s) (al_pairs al))"
proof -
  have "\<exists>al2. AddSlot a s al = Ok ((a \<notin> al_addrs al, (a, s) \<notin> al_pairs al), al2) \<and> al_wf al2 \<and>
       al_addrs al2 = insert a (al_addrs al) \<and> al_pairs al2 = insert (a, s) (al_pairs al)"
  proof (cases "fmlookup (al_addresses al) a = None \<or> fmlookup (al_addresses al) a = Some (-1)")
    case True
    then have "(a, s) \<notin> al_pairs al" "fmlookup (al_addresses al) a = None \<longleftrightarrow> a \<notin> al_addrs al"
      by (auto simp: al_pairs_def al_addrs_def fmlookup_dom_iff)
    then show ?thesis using AddSlot_fresh [OF assms True, of s] by auto
  next
    case False
    then obtain idx where idx: "fmlookup (al_addresses al) a = Some idx" "idx \<noteq> -1" by auto
    then have "a \<in> al_addrs al" "(a, s) \<in> al_pairs al \<longleftrightarrow> s |\<in>| al_slots al ! nat idx"
      by (auto simp: al_pairs_def al_addrs_def fmlookup_dom_iff)
    then show ?thesis using AddSlot_known [OF assms idx, of s] by auto
  qed
  moreover obtain b al1 where "AddAddress a al = (b, al1)" by fastforce
  ultimately show ?thesis using Contains_spec [OF assms] AddAddress_spec [OF assms, of a b al1] by auto
qed

theorem access_list_refines_sets_witness:
  "\<exists>al2. AddSlot 7 9 newAccessList = Ok ((True, True), al2) \<and> al_wf al2 \<and> al_addrs al2 = {7} \<and> al_pairs al2 = {(7, 9)}"
  using access_list_refines_sets [of newAccessList 7 9] by simp
end
