(* ===== verification/Undo_Log.thy ===== *)
theory Undo_Log
  imports Prelude
begin

text \<open>
  The interface of an undo log, as the journal of the state database uses it: entries that are
  reverted one by one, the youngest first, up to an equivalence of states that hides caches, in
  states where the entry is applicable because its change has been made. A
  \<open>trail\<close> is a list of entries that leads back from a state to an equivalent of an earlier one,
  through well-formed states. Trails compose, and every suffix of a trail can be undone, which is
  what nested snapshots need.
\<close>

primrec undo_with :: "('e \<Rightarrow> 's \<Rightarrow> (unit, 's) res) \<Rightarrow> 'e list \<Rightarrow> 's \<Rightarrow> (unit, 's) res" where
  "undo_with r [] s = Ok s"
| "undo_with r (e # es) s = bind_res (undo_with r es s) (r e)"

lemma undo_with_append: "undo_with r (es1 @ es2) s = bind_res (undo_with r es2 s) (undo_with r es1)"
proof (induction es1)
  case Nil
  then show ?case by (cases "undo_with r es2 s") simp_all
next
  case (Cons e es1)
  then show ?case by (simp add: bind_res_assoc)
qed

locale undo_log =
  fixes equiv :: "'s \<Rightarrow> 's \<Rightarrow> bool"
    and wf :: "'s \<Rightarrow> bool"
    and applicable :: "'e \<Rightarrow> 's \<Rightarrow> bool"
    and revert :: "'e \<Rightarrow> 's \<Rightarrow> (unit, 's) res"
  assumes equiv_refl: "equiv s s"
    and equiv_sym: "equiv s t \<Longrightarrow> equiv t s"
    and equiv_trans: "equiv s t \<Longrightarrow> equiv t u \<Longrightarrow> equiv s u"
    and wf_equiv: "wf s \<Longrightarrow> equiv s t \<Longrightarrow> wf t"
    and applicable_equiv: "equiv s t \<Longrightarrow> applicable e s \<Longrightarrow> applicable e t"
    and revert_equiv: "wf s \<Longrightarrow> equiv s t \<Longrightarrow> applicable e s \<Longrightarrow> revert e s = Ok x \<Longrightarrow> \<exists>y. revert e t = Ok y \<and> equiv x y"
begin

inductive trail :: "'e list \<Rightarrow> 's \<Rightarrow> 's \<Rightarrow> bool" where
  trail_nil: "wf s \<Longrightarrow> equiv s s0 \<Longrightarrow> trail [] s s0"
| trail_snoc: "wf s \<Longrightarrow> applicable e s \<Longrightarrow> revert e s = Ok x \<Longrightarrow> trail es x s0 \<Longrightarrow> trail (es @ [e]) s s0"

lemma trail_wf: "trail es s s0 \<Longrightarrow> wf s"
  by (induction rule: trail.induct) simp_all

lemma trail_single: "wf s \<Longrightarrow> applicable e s \<Longrightarrow> revert e s = Ok x \<Longrightarrow> wf x \<Longrightarrow> equiv x s0 \<Longrightarrow> trail [e] s s0"
  using trail_snoc [OF _ _ _ trail_nil, of s e x s0] by simp

lemma trail_equiv: "trail es s s0 \<Longrightarrow> equiv s t \<Longrightarrow> trail es t s0"
proof (induction arbitrary: t rule: trail.induct)
  case (trail_nil s s0)
  then show ?case using trail.trail_nil wf_equiv equiv_sym equiv_trans by blast
next
  case (trail_snoc s e x es s0)
  obtain y where "revert e t = Ok y" "equiv x y" using revert_equiv trail_snoc by blast
  then show ?case using trail.trail_snoc wf_equiv applicable_equiv trail_snoc by blast
qed

lemma trail_trans: "trail es2 s2 s1 \<Longrightarrow> trail es1 s1 s0 \<Longrightarrow> trail (es1 @ es2) s2 s0"
proof (induction rule: trail.induct)
  case (trail_nil s s1)
  then show ?case using trail_equiv equiv_sym by force
next
  case (trail_snoc s e x es s1)
  then show ?case using trail.trail_snoc by force
qed

lemma trail_undo: "trail es s s0 \<Longrightarrow> \<exists>x. undo_with revert es s = Ok x \<and> equiv x s0"
  by (induction rule: trail.induct) (auto simp: undo_with_append)

lemma trail_suffix: "trail es s s0 \<Longrightarrow> es = es1 @ es2 \<Longrightarrow> \<exists>x. undo_with revert es2 s = Ok x \<and> trail es1 x s0"
proof (induction arbitrary: es2 rule: trail.induct)
  case (trail_nil s s0)
  then show ?case using trail.trail_nil by auto
next
  case (trail_snoc s e x es s0)
  show ?case
  proof (cases es2 rule: rev_cases)
    case Nil
    then show ?thesis using trail_snoc trail.trail_snoc by force
  next
    case (snoc es3 e')
    then have "e' = e" "es = es1 @ es3" using trail_snoc.prems by auto
    then show ?thesis using trail_snoc snoc by (auto simp: undo_with_append)
  qed
qed

end

end
