(* ===== verification/StateDB.thy ===== *)
theory StateDB
  imports Access_List Undo_Log Rlp_Decode Transactions
begin

text \<open>
  The state database, \<open>core/state/statedb.go\<close>, \<open>state_object.go\<close> and \<open>journal.go\<close>: accounts loaded on demand
  from the snapshot or the trie, cached as state objects, modified through operations that record
  how to undo them in a journal. A state object is a value here and the map of live objects holds it
  under its address; a pointer to it is used only while an operation runs, and the journal's
  \<open>resetObjectChange\<close> keeps the replaced object, which nothing else refers to.

  What lies below is the environment \<open>sdb_env\<close>: the account and storage readers of the snapshot, the
  account trie, the storage tries by root, contract code by hash, and the pool of storage values that
  other processors of the same block share. Metrics, prefetching and the pipelined commit mode are
  not part of the model.
\<close>

section \<open>State objects\<close>

record Account =
  acc_Nonce :: u64
  acc_Balance :: int
  acc_Root :: hash
  acc_CodeHash :: bytes

type_synonym Storage = "(hash, hash) fmap"

record StateObject =
  o_address :: address
  o_data :: Account
  o_dbErr :: bool
  o_trie :: "(hash, bytes) fmap option"
  o_code :: "bytes option"
  o_origin :: Storage
  o_pending :: Storage
  o_dirty :: Storage
  o_fake :: "Storage option"
  o_dirtyCode :: bool
  o_suicided :: bool
  o_deleted :: bool

text \<open>A reader returns \<open>None\<close> when it fails; \<open>d_trie_fails\<close> says for which slots reading the storage trie does.\<close>

record sdb_env =
  d_keccak :: "bytes \<Rightarrow> hash"
  d_snap :: bool
  d_snap_account :: "address \<Rightarrow> Account option option"
  d_trie_account :: "address \<Rightarrow> Account option option"
  d_snap_storage :: "address \<Rightarrow> hash \<Rightarrow> bytes option"
  d_open_trie :: "address \<Rightarrow> hash \<Rightarrow> (hash, bytes) fmap option"
  d_trie_fails :: "address \<Rightarrow> hash \<Rightarrow> bool"
  d_code :: "hash \<Rightarrow> bytes option"
  d_shared :: "address \<Rightarrow> hash \<Rightarrow> hash option"

definition emptyRoot :: hash where
  "emptyRoot = 0x56e81f171bcc55a6ff8345e692c0f86e5b48e01b996cadc001622fb5e363b421"

definition emptyCodeHash :: "sdb_env \<Rightarrow> bytes" where
  "emptyCodeHash E = hash_bytes (d_keccak E [])"

definition newObject :: "sdb_env \<Rightarrow> address \<Rightarrow> Account \<Rightarrow> StateObject" where
  "newObject E a data =
    (let data1 = (if acc_CodeHash data = [] then data\<lparr>acc_CodeHash := emptyCodeHash E\<rparr> else data);
         data2 = (if acc_Root data1 = 0 then data1\<lparr>acc_Root := emptyRoot\<rparr> else data1)
     in \<lparr>o_address = a, o_data = data2, o_dbErr = False, o_trie = None, o_code = None, o_origin = fmempty,
         o_pending = fmempty, o_dirty = fmempty, o_fake = None, o_dirtyCode = False, o_suicided = False, o_deleted = False\<rparr>)"

definition obj_empty :: "sdb_env \<Rightarrow> StateObject \<Rightarrow> bool" where
  "obj_empty E obj =
    (acc_Nonce (o_data obj) = 0 \<and> acc_Balance (o_data obj) = 0 \<and> acc_CodeHash (o_data obj) = emptyCodeHash E)"

definition getTrie :: "sdb_env \<Rightarrow> StateObject \<Rightarrow> (hash, bytes) fmap \<times> StateObject" where
  "getTrie E obj =
    (case o_trie obj of
       Some tr \<Rightarrow> (tr, obj)
     | None \<Rightarrow>
         (case d_open_trie E (o_address obj) (acc_Root (o_data obj)) of
            Some tr \<Rightarrow> (tr, obj\<lparr>o_trie := Some tr\<rparr>)
          | None \<Rightarrow> (fmempty, obj\<lparr>o_trie := Some fmempty, o_dbErr := True\<rparr>)))"

definition sto :: "Storage \<Rightarrow> hash \<Rightarrow> hash" where
  "sto m k = (case fmlookup m k of None \<Rightarrow> 0 | Some v \<Rightarrow> v)"

definition getOriginStorage :: "sdb_env \<Rightarrow> StateObject \<Rightarrow> hash \<Rightarrow> hash option \<times> StateObject" where
  "getOriginStorage E obj key =
    (case fmlookup (o_origin obj) key of
       Some v \<Rightarrow> (Some v, obj)
     | None \<Rightarrow>
         (case d_shared E (o_address obj) key of
            None \<Rightarrow> (None, obj)
          | Some v \<Rightarrow> (Some v, obj\<lparr>o_origin := fmupd key v (o_origin obj)\<rparr>)))"

text \<open>A slot is stored as the RLP string of its value without leading zeroes.\<close>

definition decode_slot :: "bytes \<Rightarrow> bool \<times> hash" where
  "decode_slot enc =
    (if length enc > 0 then
       (case Split enc of
          Ok (k, cont, rest) \<Rightarrow> (False, BytesToHash cont)
        | _ \<Rightarrow> (True, BytesToHash []))
     else (False, 0))"

definition GetCommittedState_load :: "sdb_env \<Rightarrow> address fset \<Rightarrow> StateObject \<Rightarrow> hash \<Rightarrow> hash \<times> StateObject" where
  "GetCommittedState_load E destructs obj key =
    (if d_snap E \<and> o_address obj |\<in>| destructs then (0, obj)
     else
       (case (if d_snap E then d_snap_storage E (o_address obj) key else None) of
          Some enc \<Rightarrow>
            (let (err, v) = decode_slot enc
             in (v, obj\<lparr>o_dbErr := o_dbErr obj \<or> err, o_origin := fmupd key v (o_origin obj)\<rparr>))
        | None \<Rightarrow>
            (let (tr, obj1) = getTrie E obj
             in if d_trie_fails E (o_address obj) key then (0, obj1\<lparr>o_dbErr := True\<rparr>)
             else let enc = (case fmlookup tr key of None \<Rightarrow> [] | Some b \<Rightarrow> b);
                 (err, v) = decode_slot enc
             in (v, obj1\<lparr>o_dbErr := o_dbErr obj1 \<or> err, o_origin := fmupd key v (o_origin obj1)\<rparr>))))"

definition obj_GetCommittedState :: "sdb_env \<Rightarrow> address fset \<Rightarrow> StateObject \<Rightarrow> hash \<Rightarrow> hash \<times> StateObject" where
  "obj_GetCommittedState E destructs obj key =
    (case o_fake obj of
       Some f \<Rightarrow> (sto f key, obj)
     | None \<Rightarrow>
         (case fmlookup (o_pending obj) key of
            Some v \<Rightarrow> (v, obj)
          | None \<Rightarrow>
              (case getOriginStorage E obj key of
                 (Some v, obj1) \<Rightarrow> (v, obj1)
               | (None, obj1) \<Rightarrow> GetCommittedState_load E destructs obj1 key)))"

definition obj_GetState :: "sdb_env \<Rightarrow> address fset \<Rightarrow> StateObject \<Rightarrow> hash \<Rightarrow> hash \<times> StateObject" where
  "obj_GetState E destructs obj key =
    (case o_fake obj of
       Some f \<Rightarrow> (sto f key, obj)
     | None \<Rightarrow>
         (case fmlookup (o_dirty obj) key of
            Some v \<Rightarrow> (v, obj)
          | None \<Rightarrow> obj_GetCommittedState E destructs obj key))"

definition obj_Code :: "sdb_env \<Rightarrow> StateObject \<Rightarrow> bytes option \<times> StateObject" where
  "obj_Code E obj =
    (if o_code obj \<noteq> None then (o_code obj, obj)
     else if acc_CodeHash (o_data obj) = emptyCodeHash E then (None, obj)
     else
       (case d_code E (BytesToHash (acc_CodeHash (o_data obj))) of
          Some c \<Rightarrow> (Some c, obj\<lparr>o_code := Some c\<rparr>)
        | None \<Rightarrow> (None, obj\<lparr>o_code := None, o_dbErr := True\<rparr>)))"

definition setBalance :: "int \<Rightarrow> StateObject \<Rightarrow> StateObject" where
  "setBalance amount obj = obj\<lparr>o_data := (o_data obj)\<lparr>acc_Balance := amount\<rparr>\<rparr>"

definition setNonce :: "u64 \<Rightarrow> StateObject \<Rightarrow> StateObject" where
  "setNonce n obj = obj\<lparr>o_data := (o_data obj)\<lparr>acc_Nonce := n\<rparr>\<rparr>"

definition setState :: "hash \<Rightarrow> hash \<Rightarrow> StateObject \<Rightarrow> StateObject" where
  "setState key v obj = obj\<lparr>o_dirty := fmupd key v (o_dirty obj)\<rparr>"

definition setCode :: "hash \<Rightarrow> bytes option \<Rightarrow> StateObject \<Rightarrow> StateObject" where
  "setCode codeHash code obj =
    obj\<lparr>o_code := code, o_data := (o_data obj)\<lparr>acc_CodeHash := hash_bytes codeHash\<rparr>, o_dirtyCode := True\<rparr>"

text \<open>\<open>finalise\<close> moves the dirty slots into the pending ones, \<open>updateTrie\<close> writes those into the trie.\<close>

definition obj_finalise :: "StateObject \<Rightarrow> StateObject" where
  "obj_finalise obj = obj\<lparr>o_pending := o_pending obj ++\<^sub>f o_dirty obj, o_dirty := fmempty\<rparr>"

fun TrimLeftZeroes :: "bytes \<Rightarrow> bytes" where
  "TrimLeftZeroes [] = []"
| "TrimLeftZeroes (b # bs) = (if b \<noteq> 0 then b # bs else TrimLeftZeroes bs)"

definition encode_slot :: "hash \<Rightarrow> bytes" where
  "encode_slot v = (case EncodeToBytes empty_encbuf (GBytes (TrimLeftZeroes (hash_bytes v))) of Ok b \<Rightarrow> b | _ \<Rightarrow> [])"

definition write_slot :: "hash \<Rightarrow> hash \<Rightarrow> Storage \<times> (hash, bytes) fmap \<Rightarrow> Storage \<times> (hash, bytes) fmap" where
  "write_slot key v = (\<lambda>(origin, tr).
    if v = sto origin key then (origin, tr)
    else (fmupd key v origin, if v = 0 then fmdrop key tr else fmupd key (encode_slot v) tr))"

definition updateTrie :: "sdb_env \<Rightarrow> StateObject \<Rightarrow> StateObject" where
  "updateTrie E obj0 =
    (let obj = obj_finalise obj0
     in if o_pending obj = fmempty then obj
        else
          (let (tr, obj1) = getTrie E obj;
               (origin', tr') = fold (\<lambda>k. write_slot k (sto (o_pending obj1) k)) (sorted_list_of_fset (fmdom (o_pending obj1)))
                 (o_origin obj1, tr)
           in obj1\<lparr>o_origin := origin', o_trie := Some tr', o_pending := fmempty\<rparr>))"

section \<open>The journal and the state\<close>

record Log =
  log_Address :: address
  log_Topics :: "hash list"
  log_Data :: bytes
  log_TxHash :: hash
  log_TxIndex :: u64
  log_BlockHash :: hash
  log_Index :: u64

datatype journalEntry =
    createObjectChange address
  | resetObjectChange StateObject bool
  | suicideChange address bool int
  | balanceChange address int
  | nonceChange address u64
  | storageChange address hash hash
  | codeChange address "bytes option" bytes
  | refundChange u64
  | addLogChange hash
  | addPreimageChange hash
  | touchChange address
  | accessListAddAccountChange address
  | accessListAddSlotChange address hash

fun dirtied :: "journalEntry \<Rightarrow> address option" where
  "dirtied (createObjectChange a) = Some a"
| "dirtied (suicideChange a _ _) = Some a"
| "dirtied (balanceChange a _) = Some a"
| "dirtied (nonceChange a _) = Some a"
| "dirtied (storageChange a _ _) = Some a"
| "dirtied (codeChange a _ _) = Some a"
| "dirtied (touchChange a) = Some a"
| "dirtied _ = None"

record StateDB =
  sdb_snapDestructs :: "address fset"
  sdb_objects :: "(address, StateObject) fmap"
  sdb_objectsPending :: "address fset"
  sdb_objectsDirty :: "address fset"
  sdb_dbErr :: bool
  sdb_refund :: u64
  sdb_thash :: hash
  sdb_bhash :: hash
  sdb_txIndex :: int
  sdb_logs :: "(hash, Log list) fmap"
  sdb_logSize :: u64
  sdb_preimages :: "(hash, bytes) fmap"
  sdb_accessList :: "accessList option"
  sdb_entries :: "journalEntry list"
  sdb_dirties :: "(address, int) fmap"
  sdb_validRevisions :: "(int \<times> nat) list"
  sdb_nextRevisionId :: int

definition newStateDB :: StateDB where
  "newStateDB = \<lparr>sdb_snapDestructs = {||}, sdb_objects = fmempty, sdb_objectsPending = {||}, sdb_objectsDirty = {||},
     sdb_dbErr = False, sdb_refund = 0, sdb_thash = 0, sdb_bhash = 0, sdb_txIndex = 0, sdb_logs = fmempty, sdb_logSize = 0,
     sdb_preimages = fmempty, sdb_accessList = None, sdb_entries = [], sdb_dirties = fmempty, sdb_validRevisions = [],
     sdb_nextRevisionId = 0\<rparr>"

definition dirty_incr :: "address \<Rightarrow> StateDB \<Rightarrow> StateDB" where
  "dirty_incr a s =
    s\<lparr>sdb_dirties := fmupd a (case fmlookup (sdb_dirties s) a of None \<Rightarrow> 1 | Some n \<Rightarrow> n + 1) (sdb_dirties s)\<rparr>"

definition journal_append :: "journalEntry \<Rightarrow> StateDB \<Rightarrow> StateDB" where
  "journal_append e s =
    (let s1 = s\<lparr>sdb_entries := sdb_entries s @ [e]\<rparr>
     in case dirtied e of None \<Rightarrow> s1 | Some a \<Rightarrow> dirty_incr a s1)"

definition SetStateObject :: "StateObject \<Rightarrow> StateDB \<Rightarrow> StateDB" where
  "SetStateObject obj s = s\<lparr>sdb_objects := fmupd (o_address obj) obj (sdb_objects s)\<rparr>"

text \<open>Reading an account: from the snapshot, or from the trie when there is none or reading it failed.\<close>

definition read_account :: "sdb_env \<Rightarrow> address \<Rightarrow> Account option \<times> bool" where
  "read_account E a =
    (case (if d_snap E then d_snap_account E a else None) of
       Some r \<Rightarrow> (r, False)
     | None \<Rightarrow> (case d_trie_account E a of None \<Rightarrow> (None, True) | Some r \<Rightarrow> (r, False)))"

definition getDeletedStateObject :: "sdb_env \<Rightarrow> address \<Rightarrow> StateDB \<Rightarrow> StateObject option \<times> StateDB" where
  "getDeletedStateObject E a s =
    (case fmlookup (sdb_objects s) a of
       Some obj \<Rightarrow> (Some obj, s)
     | None \<Rightarrow>
         (case read_account E a of
            (None, err) \<Rightarrow> (None, s\<lparr>sdb_dbErr := sdb_dbErr s \<or> err\<rparr>)
          | (Some data, err) \<Rightarrow> (let obj = newObject E a data in (Some obj, SetStateObject obj s))))"

definition getStateObject :: "sdb_env \<Rightarrow> address \<Rightarrow> StateDB \<Rightarrow> StateObject option \<times> StateDB" where
  "getStateObject E a s =
    (let (r, s1) = getDeletedStateObject E a s
     in (case r of Some obj \<Rightarrow> if o_deleted obj then None else Some obj | None \<Rightarrow> None, s1))"

definition createObject :: "sdb_env \<Rightarrow> address \<Rightarrow> StateDB \<Rightarrow> (StateObject \<times> StateObject option) \<times> StateDB" where
  "createObject E a s0 =
    (let (prev, s) = getDeletedStateObject E a s0;
         snapped = d_snap E \<and> prev \<noteq> None;
         prevdestruct = snapped \<and> a |\<in>| sdb_snapDestructs s;
         s1 = (if snapped \<and> \<not> prevdestruct then s\<lparr>sdb_snapDestructs := finsert a (sdb_snapDestructs s)\<rparr> else s);
         newobj = setNonce 0 (newObject E a \<lparr>acc_Nonce = 0, acc_Balance = 0, acc_Root = 0, acc_CodeHash = []\<rparr>);
         s2 = journal_append (case prev of None \<Rightarrow> createObjectChange a | Some po \<Rightarrow> resetObjectChange po prevdestruct) s1;
         s3 = SetStateObject newobj s2
     in ((newobj, case prev of Some po \<Rightarrow> if \<not> o_deleted po then Some po else None | None \<Rightarrow> None), s3))"

definition GetOrNewStateObject :: "sdb_env \<Rightarrow> address \<Rightarrow> StateDB \<Rightarrow> StateObject \<times> StateDB" where
  "GetOrNewStateObject E a s =
    (case getStateObject E a s of
       (Some obj, s1) \<Rightarrow> (obj, s1)
     | (None, s1) \<Rightarrow> (let ((newobj, prev), s2) = createObject E a s1 in (newobj, s2)))"

definition CreateAccount :: "sdb_env \<Rightarrow> address \<Rightarrow> StateDB \<Rightarrow> StateDB" where
  "CreateAccount E a s =
    (case createObject E a s of
       ((newobj, None), s1) \<Rightarrow> s1
     | ((newobj, Some prev), s1) \<Rightarrow> SetStateObject (setBalance (acc_Balance (o_data prev)) newobj) s1)"

section \<open>Getters\<close>

definition Exist :: "sdb_env \<Rightarrow> address \<Rightarrow> StateDB \<Rightarrow> bool \<times> StateDB" where
  "Exist E a s = (let (r, s1) = getStateObject E a s in (r \<noteq> None, s1))"

definition Empty :: "sdb_env \<Rightarrow> address \<Rightarrow> StateDB \<Rightarrow> bool \<times> StateDB" where
  "Empty E a s = (let (r, s1) = getStateObject E a s in (case r of None \<Rightarrow> True | Some obj \<Rightarrow> obj_empty E obj, s1))"

definition GetBalance :: "sdb_env \<Rightarrow> address \<Rightarrow> StateDB \<Rightarrow> int \<times> StateDB" where
  "GetBalance E a s =
    (let (r, s1) = getStateObject E a s in (case r of None \<Rightarrow> 0 | Some obj \<Rightarrow> acc_Balance (o_data obj), s1))"

definition GetNonce :: "sdb_env \<Rightarrow> address \<Rightarrow> StateDB \<Rightarrow> u64 \<times> StateDB" where
  "GetNonce E a s =
    (let (r, s1) = getStateObject E a s in (case r of None \<Rightarrow> 0 | Some obj \<Rightarrow> acc_Nonce (o_data obj), s1))"

definition GetCode :: "sdb_env \<Rightarrow> address \<Rightarrow> StateDB \<Rightarrow> bytes option \<times> StateDB" where
  "GetCode E a s =
    (case getStateObject E a s of
       (None, s1) \<Rightarrow> (None, s1)
     | (Some obj, s1) \<Rightarrow> (let (c, obj1) = obj_Code E obj in (c, SetStateObject obj1 s1)))"

definition GetCodeHash :: "sdb_env \<Rightarrow> address \<Rightarrow> StateDB \<Rightarrow> hash \<times> StateDB" where
  "GetCodeHash E a s =
    (let (r, s1) = getStateObject E a s in (case r of None \<Rightarrow> 0 | Some obj \<Rightarrow> BytesToHash (acc_CodeHash (o_data obj)), s1))"

definition GetState :: "sdb_env \<Rightarrow> address \<Rightarrow> hash \<Rightarrow> StateDB \<Rightarrow> hash \<times> StateDB" where
  "GetState E a key s =
    (case getStateObject E a s of
       (None, s1) \<Rightarrow> (0, s1)
     | (Some obj, s1) \<Rightarrow> (let (v, obj1) = obj_GetState E (sdb_snapDestructs s1) obj key in (v, SetStateObject obj1 s1)))"

definition GetCommittedState :: "sdb_env \<Rightarrow> address \<Rightarrow> hash \<Rightarrow> StateDB \<Rightarrow> hash \<times> StateDB" where
  "GetCommittedState E a key s =
    (case getStateObject E a s of
       (None, s1) \<Rightarrow> (0, s1)
     | (Some obj, s1) \<Rightarrow>
         (let (v, obj1) = obj_GetCommittedState E (sdb_snapDestructs s1) obj key in (v, SetStateObject obj1 s1)))"

definition HasSuicided :: "sdb_env \<Rightarrow> address \<Rightarrow> StateDB \<Rightarrow> bool \<times> StateDB" where
  "HasSuicided E a s =
    (let (r, s1) = getStateObject E a s in (case r of None \<Rightarrow> False | Some obj \<Rightarrow> o_suicided obj, s1))"

definition GetLogs :: "hash \<Rightarrow> StateDB \<Rightarrow> Log list" where
  "GetLogs h s = (case fmlookup (sdb_logs s) h of None \<Rightarrow> [] | Some ls \<Rightarrow> ls)"

section \<open>Setters\<close>

definition ripemd :: address where "ripemd = 3"

definition touch :: "StateObject \<Rightarrow> StateDB \<Rightarrow> StateDB" where
  "touch obj s =
    (let s1 = journal_append (touchChange (o_address obj)) s
     in if o_address obj = ripemd then dirty_incr (o_address obj) s1 else s1)"

definition obj_SetBalance :: "StateObject \<Rightarrow> int \<Rightarrow> StateDB \<Rightarrow> StateDB" where
  "obj_SetBalance obj amount s =
    SetStateObject (setBalance amount obj) (journal_append (balanceChange (o_address obj) (acc_Balance (o_data obj))) s)"

definition obj_AddBalance :: "sdb_env \<Rightarrow> StateObject \<Rightarrow> int \<Rightarrow> StateDB \<Rightarrow> StateDB" where
  "obj_AddBalance E obj amount s =
    (if amount = 0 then (if obj_empty E obj then touch obj s else s)
     else obj_SetBalance obj (acc_Balance (o_data obj) + amount) s)"

definition obj_SubBalance :: "StateObject \<Rightarrow> int \<Rightarrow> StateDB \<Rightarrow> StateDB" where
  "obj_SubBalance obj amount s =
    (if amount = 0 then s else obj_SetBalance obj (acc_Balance (o_data obj) - amount) s)"

definition obj_SetNonce :: "StateObject \<Rightarrow> u64 \<Rightarrow> StateDB \<Rightarrow> StateDB" where
  "obj_SetNonce obj n s =
    SetStateObject (setNonce n obj) (journal_append (nonceChange (o_address obj) (acc_Nonce (o_data obj))) s)"

definition obj_SetCode :: "sdb_env \<Rightarrow> StateObject \<Rightarrow> hash \<Rightarrow> bytes \<Rightarrow> StateDB \<Rightarrow> StateDB" where
  "obj_SetCode E obj codeHash code s =
    (let (prevcode, obj1) = obj_Code E obj
     in SetStateObject (setCode codeHash (Some code) obj1)
          (journal_append (codeChange (o_address obj) prevcode (acc_CodeHash (o_data obj1))) s))"

definition obj_SetState :: "sdb_env \<Rightarrow> StateObject \<Rightarrow> hash \<Rightarrow> hash \<Rightarrow> StateDB \<Rightarrow> StateDB" where
  "obj_SetState E obj key v s =
    (case o_fake obj of
       Some f \<Rightarrow> SetStateObject (obj\<lparr>o_fake := Some (fmupd key v f)\<rparr>) s
     | None \<Rightarrow>
         (let (prev, obj1) = obj_GetState E (sdb_snapDestructs s) obj key
          in if prev = v then SetStateObject obj1 s
             else SetStateObject (setState key v obj1) (journal_append (storageChange (o_address obj) key prev) s)))"

definition AddBalance :: "sdb_env \<Rightarrow> address \<Rightarrow> int \<Rightarrow> StateDB \<Rightarrow> StateDB" where
  "AddBalance E a amount s = (let (obj, s1) = GetOrNewStateObject E a s in obj_AddBalance E obj amount s1)"

definition SubBalance :: "sdb_env \<Rightarrow> address \<Rightarrow> int \<Rightarrow> StateDB \<Rightarrow> StateDB" where
  "SubBalance E a amount s = (let (obj, s1) = GetOrNewStateObject E a s in obj_SubBalance obj amount s1)"

definition SetBalance :: "sdb_env \<Rightarrow> address \<Rightarrow> int \<Rightarrow> StateDB \<Rightarrow> StateDB" where
  "SetBalance E a amount s = (let (obj, s1) = GetOrNewStateObject E a s in obj_SetBalance obj amount s1)"

definition SetNonce :: "sdb_env \<Rightarrow> address \<Rightarrow> u64 \<Rightarrow> StateDB \<Rightarrow> StateDB" where
  "SetNonce E a n s = (let (obj, s1) = GetOrNewStateObject E a s in obj_SetNonce obj n s1)"

definition SetCode :: "sdb_env \<Rightarrow> address \<Rightarrow> bytes \<Rightarrow> StateDB \<Rightarrow> StateDB" where
  "SetCode E a code s = (let (obj, s1) = GetOrNewStateObject E a s in obj_SetCode E obj (d_keccak E code) code s1)"

definition SetState :: "sdb_env \<Rightarrow> address \<Rightarrow> hash \<Rightarrow> hash \<Rightarrow> StateDB \<Rightarrow> StateDB" where
  "SetState E a key v s = (let (obj, s1) = GetOrNewStateObject E a s in obj_SetState E obj key v s1)"

definition Suicide :: "sdb_env \<Rightarrow> address \<Rightarrow> StateDB \<Rightarrow> bool \<times> StateDB" where
  "Suicide E a s =
    (case getStateObject E a s of
       (None, s1) \<Rightarrow> (False, s1)
     | (Some obj, s1) \<Rightarrow>
         (True, SetStateObject (setBalance 0 (obj\<lparr>o_suicided := True\<rparr>))
            (journal_append (suicideChange a (o_suicided obj) (acc_Balance (o_data obj))) s1)))"

definition AddLog :: "Log \<Rightarrow> StateDB \<Rightarrow> StateDB" where
  "AddLog l s =
    (let s1 = journal_append (addLogChange (sdb_thash s)) s;
         l1 = l\<lparr>log_TxHash := sdb_thash s, log_BlockHash := sdb_bhash s, log_TxIndex := of_int (sdb_txIndex s), log_Index := sdb_logSize s\<rparr>
     in s1\<lparr>sdb_logs := fmupd (sdb_thash s) (GetLogs (sdb_thash s) s @ [l1]) (sdb_logs s), sdb_logSize := sdb_logSize s + 1\<rparr>)"

definition AddPreimage :: "hash \<Rightarrow> bytes \<Rightarrow> StateDB \<Rightarrow> StateDB" where
  "AddPreimage h b s =
    (if fmlookup (sdb_preimages s) h = None
     then (journal_append (addPreimageChange h) s)\<lparr>sdb_preimages := fmupd h b (sdb_preimages s)\<rparr>
     else s)"

definition AddRefund :: "u64 \<Rightarrow> StateDB \<Rightarrow> StateDB" where
  "AddRefund gas s = (journal_append (refundChange (sdb_refund s)) s)\<lparr>sdb_refund := sdb_refund s + gas\<rparr>"

definition SubRefund :: "u64 \<Rightarrow> StateDB \<Rightarrow> (unit, StateDB) res" where
  "SubRefund gas s =
    (let s1 = journal_append (refundChange (sdb_refund s)) s
     in if gas > sdb_refund s then Panic else Ok (s1\<lparr>sdb_refund := sdb_refund s - gas\<rparr>))"

definition the_list :: "StateDB \<Rightarrow> accessList" where
  "the_list s = (case sdb_accessList s of None \<Rightarrow> newAccessList | Some al \<Rightarrow> al)"

definition AddAddressToAccessList :: "address \<Rightarrow> StateDB \<Rightarrow> StateDB" where
  "AddAddressToAccessList a s =
    (let (b, al) = AddAddress a (the_list s); s1 = s\<lparr>sdb_accessList := Some al\<rparr>
     in if b then journal_append (accessListAddAccountChange a) s1 else s1)"

definition AddSlotToAccessList :: "address \<Rightarrow> hash \<Rightarrow> StateDB \<Rightarrow> (unit, StateDB) res" where
  "AddSlotToAccessList a slot s =
    map_res (\<lambda>((addrMod, slotMod), al).
      let s1 = s\<lparr>sdb_accessList := Some al\<rparr>;
          s2 = (if addrMod then journal_append (accessListAddAccountChange a) s1 else s1)
      in if slotMod then journal_append (accessListAddSlotChange a slot) s2 else s2) (AddSlot a slot (the_list s))"

definition AddressInAccessList :: "address \<Rightarrow> StateDB \<Rightarrow> bool" where
  "AddressInAccessList a s = (case sdb_accessList s of None \<Rightarrow> False | Some al \<Rightarrow> ContainsAddress al a)"

definition SlotInAccessList :: "address \<Rightarrow> hash \<Rightarrow> StateDB \<Rightarrow> (unit, bool \<times> bool) res" where
  "SlotInAccessList a slot s = (case sdb_accessList s of None \<Rightarrow> Ok (False, False) | Some al \<Rightarrow> Contains al a slot)"

fun add_slots :: "address \<Rightarrow> hash list \<Rightarrow> StateDB \<Rightarrow> (unit, StateDB) res" where
  "add_slots a [] s = Ok s"
| "add_slots a (key # keys) s = bind_res (AddSlotToAccessList a key s) (add_slots a keys)"

fun add_tuples :: "AccessList \<Rightarrow> StateDB \<Rightarrow> (unit, StateDB) res" where
  "add_tuples [] s = Ok s"
| "add_tuples ((a, keys) # els) s = bind_res (add_slots a keys (AddAddressToAccessList a s)) (add_tuples els)"

definition PrepareAccessList :: "address \<Rightarrow> address option \<Rightarrow> address list \<Rightarrow> AccessList \<Rightarrow> StateDB \<Rightarrow> (unit, StateDB) res" where
  "PrepareAccessList sender dst precompiles list s =
    (let s1 = AddAddressToAccessList sender s;
         s2 = (case dst of None \<Rightarrow> s1 | Some d \<Rightarrow> AddAddressToAccessList d s1)
     in add_tuples list (fold AddAddressToAccessList precompiles s2))"

definition obj_SetStorage :: "Storage \<Rightarrow> StateObject \<Rightarrow> StateObject" where
  "obj_SetStorage storage obj =
    obj\<lparr>o_fake := Some ((case o_fake obj of None \<Rightarrow> fmempty | Some f \<Rightarrow> f) ++\<^sub>f storage)\<rparr>"

definition SetStorage :: "sdb_env \<Rightarrow> address \<Rightarrow> Storage \<Rightarrow> StateDB \<Rightarrow> StateDB" where
  "SetStorage E a storage s =
    (let (obj, s1) = GetOrNewStateObject E a s in SetStateObject (obj_SetStorage storage obj) s1)"

definition Prepare_state :: "hash \<Rightarrow> hash \<Rightarrow> int \<Rightarrow> StateDB \<Rightarrow> StateDB" where
  "Prepare_state thash bhash ti s = s\<lparr>sdb_thash := thash, sdb_bhash := bhash, sdb_txIndex := ti, sdb_accessList := None\<rparr>"

section \<open>Reverting\<close>

text \<open>Dereferencing the object of an account that does not exist is a run-time panic.\<close>

definition on_object :: "sdb_env \<Rightarrow> address \<Rightarrow> (StateObject \<Rightarrow> StateObject) \<Rightarrow> StateDB \<Rightarrow> (unit, StateDB) res" where
  "on_object E a f s =
    (case getStateObject E a s of
       (None, s1) \<Rightarrow> Panic
     | (Some obj, s1) \<Rightarrow> Ok (SetStateObject (f obj) s1))"

fun revert_entry :: "sdb_env \<Rightarrow> journalEntry \<Rightarrow> StateDB \<Rightarrow> (unit, StateDB) res" where
  "revert_entry E (createObjectChange a) s =
    Ok (s\<lparr>sdb_objects := fmdrop a (sdb_objects s), sdb_objectsDirty := sdb_objectsDirty s |-| {|a|}\<rparr>)"
| "revert_entry E (resetObjectChange prev prevdestruct) s =
    (let s1 = SetStateObject prev s
     in Ok (if \<not> prevdestruct \<and> d_snap E
            then s1\<lparr>sdb_snapDestructs := sdb_snapDestructs s1 |-| {|o_address prev|}\<rparr> else s1))"
| "revert_entry E (suicideChange a prev prevbalance) s =
    (case getStateObject E a s of
       (None, s1) \<Rightarrow> Ok s1
     | (Some obj, s1) \<Rightarrow> Ok (SetStateObject (setBalance prevbalance (obj\<lparr>o_suicided := prev\<rparr>)) s1))"
| "revert_entry E (balanceChange a prev) s = on_object E a (setBalance prev) s"
| "revert_entry E (nonceChange a prev) s = on_object E a (setNonce prev) s"
| "revert_entry E (storageChange a key prevalue) s = on_object E a (setState key prevalue) s"
| "revert_entry E (codeChange a prevcode prevhash) s = on_object E a (setCode (BytesToHash prevhash) prevcode) s"
| "revert_entry E (refundChange prev) s = Ok (s\<lparr>sdb_refund := prev\<rparr>)"
| "revert_entry E (addLogChange h) s =
    (let logs = GetLogs h s
     in if length logs = 0 then Panic
        else Ok (s\<lparr>sdb_logs := (if length logs = 1 then fmdrop h (sdb_logs s) else fmupd h (butlast logs) (sdb_logs s)),
                   sdb_logSize := sdb_logSize s - 1\<rparr>))"
| "revert_entry E (addPreimageChange h) s = Ok (s\<lparr>sdb_preimages := fmdrop h (sdb_preimages s)\<rparr>)"
| "revert_entry E (touchChange a) s = Ok s"
| "revert_entry E (accessListAddAccountChange a) s =
    Ok (case sdb_accessList s of None \<Rightarrow> s | Some al \<Rightarrow> s\<lparr>sdb_accessList := Some (DeleteAddress a al)\<rparr>)"
| "revert_entry E (accessListAddSlotChange a slot) s =
    (case sdb_accessList s of
       None \<Rightarrow> Ok s
     | Some al \<Rightarrow> map_res (\<lambda>al'. s\<lparr>sdb_accessList := Some al'\<rparr>) (DeleteSlot a slot al))"

definition dirty_decr :: "journalEntry \<Rightarrow> StateDB \<Rightarrow> StateDB" where
  "dirty_decr e s =
    (case dirtied e of
       None \<Rightarrow> s
     | Some a \<Rightarrow>
         (let n = (case fmlookup (sdb_dirties s) a of None \<Rightarrow> 0 | Some n \<Rightarrow> n) - 1
          in if n = 0 then s\<lparr>sdb_dirties := fmdrop a (sdb_dirties s)\<rparr>
             else s\<lparr>sdb_dirties := fmupd a n (sdb_dirties s)\<rparr>))"

definition undo_entry :: "sdb_env \<Rightarrow> journalEntry \<Rightarrow> StateDB \<Rightarrow> (unit, StateDB) res" where
  "undo_entry E e s = map_res (dirty_decr e) (revert_entry E e s)"

definition journal_revert :: "sdb_env \<Rightarrow> nat \<Rightarrow> StateDB \<Rightarrow> (unit, StateDB) res" where
  "journal_revert E k s =
    map_res (\<lambda>s1. s1\<lparr>sdb_entries := take k (sdb_entries s)\<rparr>) (undo_with (undo_entry E) (drop k (sdb_entries s)) s)"

definition Snapshot :: "StateDB \<Rightarrow> int \<times> StateDB" where
  "Snapshot s =
    (sdb_nextRevisionId s,
     s\<lparr>sdb_nextRevisionId := sdb_nextRevisionId s + 1,
       sdb_validRevisions := sdb_validRevisions s @ [(sdb_nextRevisionId s, length (sdb_entries s))]\<rparr>)"

text \<open>\<open>sort.Search\<close> on the ascending revision identifiers: the first one that is large enough.\<close>

fun first_index :: "('a \<Rightarrow> bool) \<Rightarrow> 'a list \<Rightarrow> nat" where
  "first_index P [] = 0"
| "first_index P (x # xs) = (if P x then 0 else Suc (first_index P xs))"

definition RevertToSnapshot :: "sdb_env \<Rightarrow> int \<Rightarrow> StateDB \<Rightarrow> (unit, StateDB) res" where
  "RevertToSnapshot E revid s =
    (let revs = sdb_validRevisions s;
         idx = first_index (\<lambda>r. fst r \<ge> revid) revs
     in if idx = length revs \<or> fst (revs ! idx) \<noteq> revid then Panic
        else map_res (\<lambda>s1. s1\<lparr>sdb_validRevisions := take idx revs\<rparr>) (journal_revert E (snd (revs ! idx)) s))"

definition clearJournalAndRefund :: "StateDB \<Rightarrow> StateDB" where
  "clearJournalAndRefund s =
    (let s1 = (if length (sdb_entries s) > 0 then s\<lparr>sdb_entries := [], sdb_dirties := fmempty, sdb_refund := 0\<rparr> else s)
     in s1\<lparr>sdb_validRevisions := []\<rparr>)"

definition finalise_address :: "sdb_env \<Rightarrow> bool \<Rightarrow> address \<Rightarrow> StateDB \<Rightarrow> StateDB" where
  "finalise_address E deleteEmpty a s =
    (case fmlookup (sdb_objects s) a of
       None \<Rightarrow> s
     | Some obj \<Rightarrow>
         (let s1 = (if o_suicided obj \<or> deleteEmpty \<and> obj_empty E obj
                    then (let s0 = s\<lparr>sdb_objects := fmupd a (obj\<lparr>o_deleted := True\<rparr>) (sdb_objects s)\<rparr>
                          in if d_snap E then s0\<lparr>sdb_snapDestructs := finsert (o_address obj) (sdb_snapDestructs s0)\<rparr> else s0)
                    else s\<lparr>sdb_objects := fmupd a (obj_finalise obj) (sdb_objects s)\<rparr>)
          in s1\<lparr>sdb_objectsPending := finsert a (sdb_objectsPending s1), sdb_objectsDirty := finsert a (sdb_objectsDirty s1)\<rparr>))"

definition Finalise :: "sdb_env \<Rightarrow> bool \<Rightarrow> StateDB \<Rightarrow> StateDB" where
  "Finalise E deleteEmpty s =
    clearJournalAndRefund (fold (finalise_address E deleteEmpty) (sorted_list_of_fset (fmdom (sdb_dirties s))) s)"

end
