(* ===== verification/StateDB_Equiv.thy ===== *)
theory StateDB_Equiv
  imports StateDB
begin

text \<open>
  States of the database that no getter tells apart. Two states are equivalent (\<open>sdb_equiv\<close>) when every
  account looks the same and everything outside the accounts agrees; what the database has cached so
  far makes no difference. Reverting a journal entry respects the equivalence, so the journal is an
  undo log in the sense of \<open>Undo_Log\<close>.
\<close>

section \<open>Equivalent state objects\<close>

definition code_of :: "sdb_env \<Rightarrow> StateObject \<Rightarrow> bytes option" where
  "code_of E obj = fst (obj_Code E obj)"

definition committed_of :: "sdb_env \<Rightarrow> address fset \<Rightarrow> StateObject \<Rightarrow> hash \<Rightarrow> hash" where
  "committed_of E D obj k = fst (obj_GetCommittedState E D obj k)"

definition state_of :: "sdb_env \<Rightarrow> address fset \<Rightarrow> StateObject \<Rightarrow> hash \<Rightarrow> hash" where
  "state_of E D obj k = fst (obj_GetState E D obj k)"

definition obj_equiv :: "sdb_env \<Rightarrow> address fset \<Rightarrow> StateObject \<Rightarrow> StateObject \<Rightarrow> bool" where
  "obj_equiv E D o1 o2 \<longleftrightarrow>
    o_address o1 = o_address o2 \<and> o_data o1 = o_data o2 \<and> o_fake o1 = o_fake o2 \<and> o_suicided o1 = o_suicided o2 \<and>
    o_deleted o1 = o_deleted o2 \<and> code_of E o1 = code_of E o2 \<and> committed_of E D o1 = committed_of E D o2 \<and>
    state_of E D o1 = state_of E D o2"

lemma obj_equiv_refl [simp]: "obj_equiv E D o1 o1"
  by (simp add: obj_equiv_def)

lemma obj_equiv_sym: "obj_equiv E D o1 o2 \<Longrightarrow> obj_equiv E D o2 o1"
  by (simp add: obj_equiv_def)

lemma obj_equiv_trans: "obj_equiv E D o1 o2 \<Longrightarrow> obj_equiv E D o2 o3 \<Longrightarrow> obj_equiv E D o1 o3"
  by (simp add: obj_equiv_def)

definition stored_slot :: "sdb_env \<Rightarrow> address fset \<Rightarrow> StateObject \<Rightarrow> hash \<Rightarrow> hash" where
  "stored_slot E D obj k =
    (if d_snap E \<and> o_address obj |\<in>| D then 0
     else
       (case (if d_snap E then d_snap_storage E (o_address obj) k else None) of
          Some enc \<Rightarrow> snd (decode_slot enc)
        | None \<Rightarrow>
            if d_trie_fails E (o_address obj) k then 0
            else snd (decode_slot (case fmlookup (fst (getTrie E obj)) k of None \<Rightarrow> [] | Some b \<Rightarrow> b))))"

definition origin_of :: "sdb_env \<Rightarrow> StateObject \<Rightarrow> hash \<Rightarrow> hash option" where
  "origin_of E obj k = fst (getOriginStorage E obj k)"

text \<open>The values the readers return, without the caches they fill.\<close>

lemma origin_of_eq:
  "origin_of E obj k = (case fmlookup (o_origin obj) k of Some v \<Rightarrow> Some v | None \<Rightarrow> d_shared E (o_address obj) k)"
  by (auto simp: origin_of_def getOriginStorage_def split: option.splits)

lemma origin_of_cong:
  "o_origin o1 = o_origin o2 \<Longrightarrow> o_address o1 = o_address o2 \<Longrightarrow> origin_of E o1 k = origin_of E o2 k"
  by (simp only: origin_of_eq)

lemma origin_of_fmupd:
  "o_origin o1 = fmupd j v (o_origin o2) \<Longrightarrow> o_address o1 = o_address o2 \<Longrightarrow>
    origin_of E o1 k = (if k = j then Some v else origin_of E o2 k)"
  by (simp add: origin_of_eq split: option.split)

lemma getTrie_fields [simp]:
  "o_address (snd (getTrie E obj)) = o_address obj" "o_data (snd (getTrie E obj)) = o_data obj"
  "o_fake (snd (getTrie E obj)) = o_fake obj" "o_suicided (snd (getTrie E obj)) = o_suicided obj"
  "o_deleted (snd (getTrie E obj)) = o_deleted obj" "o_code (snd (getTrie E obj)) = o_code obj"
  "o_origin (snd (getTrie E obj)) = o_origin obj" "o_pending (snd (getTrie E obj)) = o_pending obj"
  "o_dirty (snd (getTrie E obj)) = o_dirty obj"
  by (auto simp: getTrie_def split: option.splits)

lemma getTrie_cong:
  assumes "o_address o1 = o_address o2" "acc_Root (o_data o1) = acc_Root (o_data o2)" "o_trie o1 = o_trie o2"
  shows "fst (getTrie E o1) = fst (getTrie E o2)"
  using assms by (auto simp: getTrie_def split: option.splits)

lemma getTrie_trie: "o_trie (snd (getTrie E obj)) = Some (fst (getTrie E obj))"
  by (auto simp: getTrie_def split: option.splits)

lemma getTrie_idem: "o_trie o2 = Some (fst (getTrie E o1)) \<Longrightarrow> fst (getTrie E o2) = fst (getTrie E o1)"
  by (simp add: getTrie_def)

lemma stored_slot_cong:
  assumes "o_address o1 = o_address o2" "fst (getTrie E o1) = fst (getTrie E o2)"
  shows "stored_slot E D o1 k = stored_slot E D o2 k"
  unfolding stored_slot_def by (simp only: assms)

lemma GetCommittedState_load_eq: "fst (GetCommittedState_load E D obj k) = stored_slot E D obj k"
  by (auto simp: GetCommittedState_load_def stored_slot_def Let_def split: option.splits prod.splits)

lemma committed_of_eq:
  "committed_of E D obj k =
    (case o_fake obj of
       Some f \<Rightarrow> sto f k
     | None \<Rightarrow>
         (case fmlookup (o_pending obj) k of
            Some v \<Rightarrow> v
          | None \<Rightarrow> (case origin_of E obj k of Some v \<Rightarrow> v | None \<Rightarrow> stored_slot E D obj k)))"
  by (auto simp: committed_of_def obj_GetCommittedState_def origin_of_eq getOriginStorage_def GetCommittedState_load_eq
      split: option.splits)

lemma state_of_eq:
  "state_of E D obj k =
    (case o_fake obj of
       Some f \<Rightarrow> sto f k
     | None \<Rightarrow> (case fmlookup (o_dirty obj) k of Some v \<Rightarrow> v | None \<Rightarrow> committed_of E D obj k))"
  by (auto simp: state_of_def obj_GetState_def committed_of_def split: option.splits)

lemma code_of_eq:
  "code_of E obj =
    (if o_code obj \<noteq> None then o_code obj
     else if acc_CodeHash (o_data obj) = emptyCodeHash E then None
     else d_code E (BytesToHash (acc_CodeHash (o_data obj))))"
  by (auto simp: code_of_def obj_Code_def split: option.splits)

text \<open>Reading fills caches only.\<close>

lemma obj_equiv_cache:
  assumes "o_address o1 = o_address obj" "o_data o1 = o_data obj" "o_fake o1 = o_fake obj" "o_suicided o1 = o_suicided obj"
    "o_deleted o1 = o_deleted obj" "code_of E o1 = code_of E obj" "o_pending o1 = o_pending obj" "o_dirty o1 = o_dirty obj"
    "fst (getTrie E o1) = fst (getTrie E obj)"
    and o: "\<And>k. origin_of E o1 k = origin_of E obj k \<or> origin_of E obj k = None \<and> origin_of E o1 k = Some (stored_slot E D obj k)"
  shows "obj_equiv E D o1 obj"
proof -
  have s: "stored_slot E D o1 k = stored_slot E D obj k" for k using stored_slot_cong assms(1,9) .
  have c: "committed_of E D o1 k = committed_of E D obj k" for k
    using o [of k] by (elim disjE conjE) (simp_all add: committed_of_eq assms(3,7) s split: option.split)
  have "state_of E D o1 k = state_of E D obj k" for k
    by (simp only: state_of_eq assms(3,8) c)
  then show ?thesis using c by (simp add: obj_equiv_def assms(1-6) fun_eq_iff)
qed

lemma obj_equiv_code: "obj_equiv E D (snd (obj_Code E obj)) obj"
proof -
  let ?o = "snd (obj_Code E obj)"
  have f: "o_address ?o = o_address obj" "o_data ?o = o_data obj" "o_fake ?o = o_fake obj" "o_suicided ?o = o_suicided obj"
    "o_deleted ?o = o_deleted obj" "o_origin ?o = o_origin obj" "o_pending ?o = o_pending obj" "o_dirty ?o = o_dirty obj"
    "o_trie ?o = o_trie obj"
    by (auto simp: obj_Code_def split: option.splits)
  have "code_of E ?o = code_of E obj"
    by (auto simp: code_of_eq obj_Code_def split: option.splits)
  moreover have "fst (getTrie E ?o) = fst (getTrie E obj)" by (rule getTrie_cong) (simp_all add: f)
  ultimately show ?thesis using origin_of_cong [of ?o obj] f by (intro obj_equiv_cache) blast+
qed

lemma obj_equiv_load:
  assumes "origin_of E obj k = None"
  shows "obj_equiv E D (snd (GetCommittedState_load E D obj k)) obj"
proof -
  let ?o = "snd (GetCommittedState_load E D obj k)"
  consider "?o = obj"
    | err where "?o = obj\<lparr>o_dbErr := err, o_origin := fmupd k (stored_slot E D obj k) (o_origin obj)\<rparr>"
    | err where "?o = (snd (getTrie E obj))\<lparr>o_dbErr := err, o_origin := fmupd k (stored_slot E D obj k) (o_origin obj)\<rparr>"
    | err where "?o = (snd (getTrie E obj))\<lparr>o_dbErr := err\<rparr>"
  proof (cases "d_snap E \<and> o_address obj |\<in>| D")
    case True
    then show ?thesis using that(1) by (simp add: GetCommittedState_load_def)
  next
    case False
    let ?r = "if d_snap E then d_snap_storage E (o_address obj) k else None"
    let ?enc = "case fmlookup (fst (getTrie E obj)) k of None \<Rightarrow> [] | Some b \<Rightarrow> b"
    show ?thesis
    proof (cases ?r)
      case None
      show ?thesis
      proof (cases "d_trie_fails E (o_address obj) k")
        case True
        have "?o = (snd (getTrie E obj))\<lparr>o_dbErr := True\<rparr>"
          unfolding GetCommittedState_load_def if_not_P [OF False] None using True by (simp add: split_beta)
        then show ?thesis by (rule that(4))
      next
        case ok: False
        have "?o = (snd (getTrie E obj))\<lparr>o_dbErr := o_dbErr (snd (getTrie E obj)) \<or> fst (decode_slot ?enc),
            o_origin := fmupd k (stored_slot E D obj k) (o_origin obj)\<rparr>"
          unfolding GetCommittedState_load_def stored_slot_def if_not_P [OF False] None using ok by (simp add: split_beta Let_def)
        then show ?thesis by (rule that(3))
      qed
    next
      case (Some enc)
      have "?o = obj\<lparr>o_dbErr := o_dbErr obj \<or> fst (decode_slot enc), o_origin := fmupd k (stored_slot E D obj k) (o_origin obj)\<rparr>"
        unfolding GetCommittedState_load_def stored_slot_def if_not_P [OF False] Some by (simp add: split_beta Let_def)
      then show ?thesis by (rule that(2))
    qed
  qed
  then show ?thesis
  proof cases
    case 1
    then show ?thesis by simp
  next
    case 2
    have "fst (getTrie E ?o) = fst (getTrie E obj)" by (rule getTrie_cong) (simp_all add: 2)
    then show ?thesis using assms origin_of_fmupd [of ?o k "stored_slot E D obj k" obj E]
      by (intro obj_equiv_cache) (simp_all add: 2 code_of_eq)
  next
    case 3
    have "fst (getTrie E ?o) = fst (getTrie E obj)" by (rule getTrie_idem) (simp add: 3 getTrie_trie)
    then show ?thesis using assms origin_of_fmupd [of ?o k "stored_slot E D obj k" obj E]
      by (intro obj_equiv_cache) (simp_all add: 3 code_of_eq)
  next
    case 4
    have "fst (getTrie E ?o) = fst (getTrie E obj)" by (rule getTrie_idem) (simp add: 4 getTrie_trie)
    then show ?thesis using origin_of_cong [of ?o obj E]
      by (intro obj_equiv_cache) (simp_all add: 4 code_of_eq)
  qed
qed

lemma obj_equiv_origin: "obj_equiv E D (snd (getOriginStorage E obj k)) obj"
proof -
  let ?o = "snd (getOriginStorage E obj k)"
  have "?o = obj \<or> (\<exists>v. ?o = obj\<lparr>o_origin := fmupd k v (o_origin obj)\<rparr> \<and> fmlookup (o_origin obj) k = None \<and>
      d_shared E (o_address obj) k = Some v)"
    by (auto simp: getOriginStorage_def split: option.splits)
  then show ?thesis
  proof (elim disjE exE)
    fix v
    assume v: "?o = obj\<lparr>o_origin := fmupd k v (o_origin obj)\<rparr> \<and> fmlookup (o_origin obj) k = None \<and>
      d_shared E (o_address obj) k = Some v"
    have "fst (getTrie E ?o) = fst (getTrie E obj)" by (rule getTrie_cong) (simp_all add: v)
    then show ?thesis using v origin_of_fmupd [of ?o k v obj E] origin_of_eq [of E obj k]
      by (intro obj_equiv_cache) (simp_all add: code_of_eq)
  qed simp
qed

lemma obj_equiv_committed: "obj_equiv E D (snd (obj_GetCommittedState E D obj k)) obj"
proof (cases "o_fake obj \<noteq> None \<or> fmlookup (o_pending obj) k \<noteq> None")
  case True
  then show ?thesis by (auto simp: obj_GetCommittedState_def split: option.splits)
next
  case False
  obtain r o1 where r: "getOriginStorage E obj k = (r, o1)" by fastforce
  then have "obj_equiv E D o1 obj" using obj_equiv_origin by (metis snd_conv)
  moreover have "r = None \<Longrightarrow> o1 = obj \<and> origin_of E obj k = None"
    using r by (auto simp: origin_of_def getOriginStorage_def split: option.splits)
  ultimately show ?thesis using False r obj_equiv_load
    by (auto simp: obj_GetCommittedState_def split: option.splits)
qed

lemma obj_equiv_state: "obj_equiv E D (snd (obj_GetState E D obj k)) obj"
  using obj_equiv_committed by (auto simp: obj_GetState_def split: option.splits)

text \<open>Membership in the destructed set matters for the object's own address only.\<close>

lemma obj_equiv_destructs:
  assumes "o_address o1 |\<in>| D \<longleftrightarrow> o_address o1 |\<in>| D'" "obj_equiv E D o1 o2"
  shows "obj_equiv E D' o1 o2"
proof -
  have s: "stored_slot E D obj k = stored_slot E D' obj k" if "o_address obj = o_address o1" for obj k
    using assms(1) by (simp only: stored_slot_def that)
  have c: "committed_of E D obj k = committed_of E D' obj k" if "o_address obj = o_address o1" for obj k
    by (simp only: committed_of_eq s [OF that])
  have t: "state_of E D obj k = state_of E D' obj k" if "o_address obj = o_address o1" for obj k
    by (simp only: state_of_eq c [OF that])
  show ?thesis using assms(2) c [of o1] c [of o2] t [of o1] t [of o2] by (simp add: obj_equiv_def fun_eq_iff)
qed

text \<open>The primitive updates of an object respect the equivalence.\<close>

lemma state_of_setState:
  "state_of E D (setState k v obj) j = (if j = k \<and> o_fake obj = None then v else state_of E D obj j)"
  "committed_of E D (setState k v obj) j = committed_of E D obj j"
proof -
  have "fst (getTrie E (setState k v obj)) = fst (getTrie E obj)" by (rule getTrie_cong) (simp_all add: setState_def)
  then have s: "stored_slot E D (setState k v obj) j = stored_slot E D obj j"
    by (intro stored_slot_cong) (simp_all add: setState_def)
  show c: "committed_of E D (setState k v obj) j = committed_of E D obj j"
  proof -
    have "origin_of E (setState k v obj) j = origin_of E obj j" by (rule origin_of_cong) (simp_all add: setState_def)
    moreover have "o_fake (setState k v obj) = o_fake obj" "o_pending (setState k v obj) = o_pending obj"
      by (simp_all add: setState_def)
    ultimately show ?thesis by (simp only: committed_of_eq s)
  qed
  show "state_of E D (setState k v obj) j = (if j = k \<and> o_fake obj = None then v else state_of E D obj j)"
    unfolding state_of_eq c by (simp add: setState_def split: option.split)
qed

lemma storage_of_update:
  assumes "o_address o1 = o_address o2" "acc_Root (o_data o1) = acc_Root (o_data o2)" "o_trie o1 = o_trie o2"
    "o_fake o1 = o_fake o2" "o_origin o1 = o_origin o2" "o_pending o1 = o_pending o2" "o_dirty o1 = o_dirty o2"
  shows "committed_of E D o1 = committed_of E D o2" "state_of E D o1 = state_of E D o2"
proof -
  have s: "stored_slot E D o1 k = stored_slot E D o2 k" for k
    by (intro stored_slot_cong getTrie_cong assms)
  show c: "committed_of E D o1 = committed_of E D o2" by (rule ext) (simp only: committed_of_eq s origin_of_eq assms)
  show "state_of E D o1 = state_of E D o2" by (rule ext) (simp only: state_of_eq c assms)
qed

lemma set_fields [simp]:
  "o_address (setBalance n obj) = o_address obj" "o_address (setNonce m obj) = o_address obj"
  "o_address (setState k v obj) = o_address obj" "o_address (setCode h c obj) = o_address obj"
  "o_deleted (setBalance n obj) = o_deleted obj" "o_deleted (setNonce m obj) = o_deleted obj"
  "o_deleted (setState k v obj) = o_deleted obj" "o_deleted (setCode h c obj) = o_deleted obj"
  "o_fake (setBalance n obj) = o_fake obj" "o_fake (setNonce m obj) = o_fake obj"
  "o_fake (setState k v obj) = o_fake obj" "o_fake (setCode h c obj) = o_fake obj"
  by (simp_all add: setBalance_def setNonce_def setState_def setCode_def)

lemma code_of_set:
  "code_of E (setBalance n obj) = code_of E obj" "code_of E (setNonce m obj) = code_of E obj"
  "code_of E (setState k v obj) = code_of E obj" "code_of E (obj\<lparr>o_suicided := b\<rparr>) = code_of E obj"
  "code_of E (setCode h c obj) =
    (if c \<noteq> None then c else if hash_bytes h = emptyCodeHash E then None else d_code E h)"
  by (simp_all add: code_of_eq setBalance_def setNonce_def setState_def setCode_def)

lemma storage_of_set:
  "committed_of E D (setBalance n obj) = committed_of E D obj" "state_of E D (setBalance n obj) = state_of E D obj"
  "committed_of E D (setNonce m obj) = committed_of E D obj" "state_of E D (setNonce m obj) = state_of E D obj"
  "committed_of E D (setCode h c obj) = committed_of E D obj" "state_of E D (setCode h c obj) = state_of E D obj"
  "committed_of E D (obj\<lparr>o_suicided := b\<rparr>) = committed_of E D obj" "state_of E D (obj\<lparr>o_suicided := b\<rparr>) = state_of E D obj"
  by (rule storage_of_update; simp add: setBalance_def setNonce_def setCode_def)+

lemma set_data [simp]:
  "o_data (setBalance n obj) = (o_data obj)\<lparr>acc_Balance := n\<rparr>" "o_data (setNonce m obj) = (o_data obj)\<lparr>acc_Nonce := m\<rparr>"
  "o_data (setState k v obj) = o_data obj" "o_data (setCode h c obj) = (o_data obj)\<lparr>acc_CodeHash := hash_bytes h\<rparr>"
  "o_suicided (setBalance n obj) = o_suicided obj" "o_suicided (setNonce m obj) = o_suicided obj"
  "o_suicided (setState k v obj) = o_suicided obj" "o_suicided (setCode h c obj) = o_suicided obj"
  by (simp_all add: setBalance_def setNonce_def setState_def setCode_def)

lemma obj_equiv_set:
  assumes "obj_equiv E D o1 o2"
  shows "obj_equiv E D (setBalance n o1) (setBalance n o2)" "obj_equiv E D (setNonce m o1) (setNonce m o2)"
    "obj_equiv E D (setState k v o1) (setState k v o2)" "obj_equiv E D (setCode h c o1) (setCode h c o2)"
    "obj_equiv E D (o1\<lparr>o_suicided := b\<rparr>) (o2\<lparr>o_suicided := b\<rparr>)"
  using assms by (simp_all add: obj_equiv_def code_of_set storage_of_set state_of_setState fun_eq_iff)

section \<open>Equivalent states\<close>

definition object_of :: "sdb_env \<Rightarrow> StateDB \<Rightarrow> address \<Rightarrow> StateObject option" where
  "object_of E s a = fst (getDeletedStateObject E a s)"

definition dirty_count :: "(address, int) fmap \<Rightarrow> address \<Rightarrow> int" where
  "dirty_count m a = (case fmlookup m a of None \<Rightarrow> 0 | Some n \<Rightarrow> n)"

text \<open>The dirty counter of the \<open>ripemd\<close> precompile is the one thing \<open>touch\<close> leaves behind on purpose.\<close>

definition rest_of :: "StateDB \<Rightarrow> u64 \<times> hash \<times> hash \<times> int \<times> (hash \<Rightarrow> Log list) \<times> u64 \<times> (hash, bytes) fmap \<times> accessList \<times> (address \<Rightarrow> int)" where
  "rest_of s = (sdb_refund s, sdb_thash s, sdb_bhash s, sdb_txIndex s, \<lambda>h. GetLogs h s, sdb_logSize s, sdb_preimages s,
     the_list s, (dirty_count (sdb_dirties s))(ripemd := 0))"

definition same_objects :: "sdb_env \<Rightarrow> StateDB \<Rightarrow> StateDB \<Rightarrow> bool" where
  "same_objects E s t \<longleftrightarrow> (\<forall>a. rel_option (obj_equiv E (sdb_snapDestructs s)) (object_of E s a) (object_of E t a))"

definition sdb_equiv :: "sdb_env \<Rightarrow> StateDB \<Rightarrow> StateDB \<Rightarrow> bool" where
  "sdb_equiv E s t \<longleftrightarrow> sdb_snapDestructs s = sdb_snapDestructs t \<and> same_objects E s t \<and> rest_of s = rest_of t"

text \<open>Well-formed states: objects under their own address, 32-byte code hashes, no debugging storage
  (\<open>SetStorage\<close>, whose writes are not journaled), a well-formed access list.\<close>

definition obj_wf :: "address \<Rightarrow> StateObject \<Rightarrow> bool" where
  "obj_wf a obj \<longleftrightarrow> o_address obj = a \<and> o_fake obj = None \<and> length (acc_CodeHash (o_data obj)) = 32"

definition sdb_wf :: "sdb_env \<Rightarrow> StateDB \<Rightarrow> bool" where
  "sdb_wf E s \<longleftrightarrow> (\<forall>a obj. object_of E s a = Some obj \<longrightarrow> obj_wf a obj) \<and> al_wf (the_list s)"

lemma object_of_eq:
  "object_of E s a =
    (case fmlookup (sdb_objects s) a of Some obj \<Rightarrow> Some obj | None \<Rightarrow> map_option (newObject E a) (fst (read_account E a)))"
  by (simp add: object_of_def getDeletedStateObject_def Let_def split: option.split prod.split)

lemma newObject_fields [simp]:
  "o_address (newObject E a d) = a" "o_fake (newObject E a d) = None" "o_deleted (newObject E a d) = False"
  "o_suicided (newObject E a d) = False" "o_code (newObject E a d) = None" "o_dirty (newObject E a d) = fmempty"
  by (simp_all add: newObject_def Let_def)

lemma object_of_cong: "sdb_objects s = sdb_objects t \<Longrightarrow> object_of E s a = object_of E t a"
  by (simp add: object_of_eq)

lemma object_of_Set [simp]:
  "object_of E (SetStateObject obj s) a = (if a = o_address obj then Some obj else object_of E s a)"
  by (simp add: object_of_eq SetStateObject_def)

lemma sdb_equiv_refl: "sdb_equiv E s s"
  by (simp add: sdb_equiv_def same_objects_def option.rel_refl)

lemma same_objects_cases:
  assumes "same_objects E s t"
  obtains "object_of E s a = None" "object_of E t a = None"
  | o1 o2 where "object_of E s a = Some o1" "object_of E t a = Some o2" "obj_equiv E (sdb_snapDestructs s) o1 o2"
  using assms unfolding same_objects_def by (metis option.rel_cases)

lemma same_objects_trans:
  assumes "sdb_snapDestructs s = sdb_snapDestructs t" "same_objects E s t" "same_objects E t u"
  shows "same_objects E s u"
  unfolding same_objects_def
proof
  fix a
  show "rel_option (obj_equiv E (sdb_snapDestructs s)) (object_of E s a) (object_of E u a)"
    using assms by (cases rule: same_objects_cases [OF assms(2), of a]; cases rule: same_objects_cases [OF assms(3), of a])
      (auto intro: obj_equiv_trans)
qed

lemma same_objects_sym:
  assumes "sdb_snapDestructs s = sdb_snapDestructs t" "same_objects E s t"
  shows "same_objects E t s"
  unfolding same_objects_def
proof
  fix a
  show "rel_option (obj_equiv E (sdb_snapDestructs t)) (object_of E t a) (object_of E s a)"
    using assms by (cases rule: same_objects_cases [OF assms(2), of a]) (auto intro: obj_equiv_sym)
qed

lemma sdb_equiv_sym: "sdb_equiv E s t \<Longrightarrow> sdb_equiv E t s"
  unfolding sdb_equiv_def using same_objects_sym by simp

lemma sdb_equiv_trans: "sdb_equiv E s t \<Longrightarrow> sdb_equiv E t u \<Longrightarrow> sdb_equiv E s u"
  unfolding sdb_equiv_def using same_objects_trans [of s t E u] by simp

lemma sdb_wf_equiv:
  assumes "sdb_wf E s" "sdb_equiv E s t"
  shows "sdb_wf E t"
proof -
  have so: "same_objects E s t" using assms(2) by (simp add: sdb_equiv_def)
  have "obj_wf a obj" if "object_of E t a = Some obj" for a obj
  proof (cases rule: same_objects_cases [OF so, of a])
    case 1
    then show ?thesis using that by simp
  next
    case (2 o1 o2)
    then have "obj_wf a o1" using assms(1) by (simp add: sdb_wf_def)
    then show ?thesis using 2 that by (simp add: obj_wf_def obj_equiv_def)
  qed
  moreover have "the_list s = the_list t" using assms(2) by (simp add: sdb_equiv_def rest_of_def)
  ultimately show ?thesis using assms(1) by (simp add: sdb_wf_def)
qed

section \<open>Reverting an entry respects the equivalence\<close>

lemma Set_fields [simp]:
  "sdb_snapDestructs (SetStateObject obj s) = sdb_snapDestructs s" "rest_of (SetStateObject obj s) = rest_of s"
  "sdb_entries (SetStateObject obj s) = sdb_entries s" "sdb_validRevisions (SetStateObject obj s) = sdb_validRevisions s"
  "sdb_nextRevisionId (SetStateObject obj s) = sdb_nextRevisionId s"
  "sdb_objects (SetStateObject obj s) = fmupd (o_address obj) obj (sdb_objects s)"
  by (simp_all add: SetStateObject_def rest_of_def GetLogs_def the_list_def)

lemma getDeleted_fields:
  assumes "getDeletedStateObject E a s = (r, s1)"
  shows "r = object_of E s a" "object_of E s1 = object_of E s" "sdb_snapDestructs s1 = sdb_snapDestructs s"
    "rest_of s1 = rest_of s" "sdb_entries s1 = sdb_entries s" "sdb_validRevisions s1 = sdb_validRevisions s"
    "sdb_nextRevisionId s1 = sdb_nextRevisionId s"
proof -
  consider "s1 = s" | err where "s1 = s\<lparr>sdb_dbErr := err\<rparr>"
    | d where "object_of E s a = Some (newObject E a d)" "s1 = SetStateObject (newObject E a d) s"
    using assms by (auto simp: getDeletedStateObject_def object_of_eq Let_def split: option.splits prod.splits)
  note c = this
  show "r = object_of E s a" using assms by (simp add: object_of_def)
  show "object_of E s1 = object_of E s"
    using c by cases (auto intro: object_of_cong simp: fun_eq_iff)
  show "sdb_snapDestructs s1 = sdb_snapDestructs s" "sdb_entries s1 = sdb_entries s"
    "sdb_validRevisions s1 = sdb_validRevisions s" "sdb_nextRevisionId s1 = sdb_nextRevisionId s"
    using c by (cases; simp)+
  show "rest_of s1 = rest_of s" using c
  proof cases
    case 3
    then show ?thesis by (simp only: Set_fields)
  qed (simp_all add: rest_of_def GetLogs_def the_list_def)
qed

lemma getStateObject_fields:
  assumes "getStateObject E a s = (r, s1)"
  shows "r = (case object_of E s a of None \<Rightarrow> None | Some obj \<Rightarrow> if o_deleted obj then None else Some obj)"
    "object_of E s1 = object_of E s" "sdb_snapDestructs s1 = sdb_snapDestructs s"
    "rest_of s1 = rest_of s" "sdb_entries s1 = sdb_entries s" "sdb_validRevisions s1 = sdb_validRevisions s"
    "sdb_nextRevisionId s1 = sdb_nextRevisionId s"
proof -
  obtain r1 where r1: "getDeletedStateObject E a s = (r1, s1)"
    "r = (case r1 of Some obj \<Rightarrow> if o_deleted obj then None else Some obj | None \<Rightarrow> None)"
    using assms by (auto simp: getStateObject_def Let_def split: prod.splits)
  note g = getDeleted_fields [OF r1(1)]
  show "r = (case object_of E s a of None \<Rightarrow> None | Some obj \<Rightarrow> if o_deleted obj then None else Some obj)"
    using r1(2) g(1) by (simp split: option.split)
  show "object_of E s1 = object_of E s" "sdb_snapDestructs s1 = sdb_snapDestructs s"
    "rest_of s1 = rest_of s" "sdb_entries s1 = sdb_entries s" "sdb_validRevisions s1 = sdb_validRevisions s"
    "sdb_nextRevisionId s1 = sdb_nextRevisionId s"
    using g(2-7) .
qed

lemma sdb_equiv_same:
  "object_of E s1 = object_of E s \<Longrightarrow> sdb_snapDestructs s1 = sdb_snapDestructs s \<Longrightarrow> rest_of s1 = rest_of s \<Longrightarrow> sdb_equiv E s1 s"
  by (simp add: sdb_equiv_def same_objects_def option.rel_refl)

lemma Set_equiv:
  assumes "sdb_equiv E s t" "obj_equiv E (sdb_snapDestructs s) o1 o2"
  shows "sdb_equiv E (SetStateObject o1 s) (SetStateObject o2 t)"
proof -
  have "o_address o1 = o_address o2" using assms(2) by (simp add: obj_equiv_def)
  then show ?thesis using assms unfolding sdb_equiv_def same_objects_def by simp metis
qed

lemma Set_cached:
  assumes "object_of E s a = Some o2" "o_address o2 = a" "obj_equiv E (sdb_snapDestructs s) o1 o2"
  shows "sdb_equiv E (SetStateObject o1 s) s"
proof -
  have "o_address o1 = a" using assms by (simp add: obj_equiv_def)
  then show ?thesis using assms by (simp add: sdb_equiv_def same_objects_def option.rel_refl)
qed

lemma sdb_equiv_rest:
  assumes "sdb_equiv E s t" "sdb_objects s1 = sdb_objects s" "sdb_objects t1 = sdb_objects t"
    "sdb_snapDestructs s1 = sdb_snapDestructs s" "sdb_snapDestructs t1 = sdb_snapDestructs t" "rest_of s1 = rest_of t1"
  shows "sdb_equiv E s1 t1"
proof -
  have "object_of E s1 a = object_of E s a" "object_of E t1 a = object_of E t a" for a
    using object_of_cong assms(2,3) by blast+
  then have "same_objects E s1 t1 \<longleftrightarrow> same_objects E s t" by (simp add: same_objects_def assms(4))
  then show ?thesis using assms by (simp add: sdb_equiv_def)
qed

lemma getStateObject_equiv:
  assumes e: "sdb_equiv E s t" and s1: "getStateObject E a s = (r1, s1)" and t1: "getStateObject E a t = (r2, t1)"
  shows "sdb_equiv E s1 t1" "rel_option (obj_equiv E (sdb_snapDestructs s1)) r1 r2"
proof -
  note gs = getStateObject_fields [OF s1] and gt = getStateObject_fields [OF t1]
  have "sdb_equiv E s1 s" by (rule sdb_equiv_same [OF gs(2-4)])
  moreover have "sdb_equiv E t t1" by (rule sdb_equiv_sym [OF sdb_equiv_same [OF gt(2-4)]])
  ultimately show "sdb_equiv E s1 t1" using e by (blast intro: sdb_equiv_trans)
  have so: "same_objects E s t" using e by (simp add: sdb_equiv_def)
  show "rel_option (obj_equiv E (sdb_snapDestructs s1)) r1 r2"
  proof (cases rule: same_objects_cases [OF so, of a])
    case 1
    then show ?thesis by (simp add: gs(1) gt(1))
  next
    case (2 o1 o2)
    then have "o_deleted o1 = o_deleted o2" by (simp add: obj_equiv_def)
    then show ?thesis using 2 by (simp add: gs(1,3) gt(1))
  qed
qed

lemma on_object_equiv:
  assumes e: "sdb_equiv E s t" and x: "on_object E a f s = Ok x"
    and f: "\<And>o1 o2 D. obj_equiv E D o1 o2 \<Longrightarrow> obj_equiv E D (f o1) (f o2)"
  shows "\<exists>y. on_object E a f t = Ok y \<and> sdb_equiv E x y"
proof -
  obtain r1 s1 where s1: "getStateObject E a s = (r1, s1)" by fastforce
  obtain r2 t1 where t1: "getStateObject E a t = (r2, t1)" by fastforce
  note g = getStateObject_equiv [OF e s1 t1]
  obtain o1 where o1: "r1 = Some o1" "x = SetStateObject (f o1) s1"
    using x by (cases r1) (simp_all add: s1 on_object_def)
  then obtain o2 where o2: "r2 = Some o2" "obj_equiv E (sdb_snapDestructs s1) o1 o2"
    using g(2) by (cases r2) simp_all
  have "sdb_equiv E (SetStateObject (f o1) s1) (SetStateObject (f o2) t1)"
    by (rule Set_equiv [OF g(1) f [OF o2(2)]])
  then show ?thesis by (simp add: o1 o2(1) t1 on_object_def)
qed

lemma dirty_decr_count:
  "dirty_count (sdb_dirties (dirty_decr e s)) =
    (case dirtied e of None \<Rightarrow> dirty_count (sdb_dirties s) |
       Some a \<Rightarrow> (dirty_count (sdb_dirties s))(a := dirty_count (sdb_dirties s) a - 1))"
proof (cases "dirtied e")
  case (Some a)
  then show ?thesis
    by (cases "dirty_count (sdb_dirties s) a = 1") (auto simp: dirty_decr_def dirty_count_def Let_def fun_eq_iff)
qed (simp add: dirty_decr_def)

lemma dirty_decr_fields [simp]:
  "sdb_objects (dirty_decr e s) = sdb_objects s" "sdb_snapDestructs (dirty_decr e s) = sdb_snapDestructs s"
  "sdb_refund (dirty_decr e s) = sdb_refund s" "sdb_thash (dirty_decr e s) = sdb_thash s"
  "sdb_bhash (dirty_decr e s) = sdb_bhash s" "sdb_txIndex (dirty_decr e s) = sdb_txIndex s"
  "sdb_logs (dirty_decr e s) = sdb_logs s" "sdb_logSize (dirty_decr e s) = sdb_logSize s"
  "sdb_preimages (dirty_decr e s) = sdb_preimages s" "sdb_accessList (dirty_decr e s) = sdb_accessList s"
  "sdb_nextRevisionId (dirty_decr e s) = sdb_nextRevisionId s"
  by (simp_all add: dirty_decr_def Let_def split: option.split)

lemma dirty_decr_equiv:
  assumes "sdb_equiv E s t"
  shows "sdb_equiv E (dirty_decr e s) (dirty_decr e t)"
proof (rule sdb_equiv_rest [OF assms])
  have r: "rest_of s = rest_of t" using assms by (simp add: sdb_equiv_def)
  then have "(dirty_count (sdb_dirties s))(ripemd := 0) = (dirty_count (sdb_dirties t))(ripemd := 0)"
    by (simp add: rest_of_def)
  then have "(dirty_count (sdb_dirties (dirty_decr e s)))(ripemd := 0) = (dirty_count (sdb_dirties (dirty_decr e t)))(ripemd := 0)"
    by (auto simp: dirty_decr_count fun_eq_iff split: option.split if_splits)
  then show "rest_of (dirty_decr e s) = rest_of (dirty_decr e t)"
    using r by (simp add: rest_of_def GetLogs_def the_list_def)
qed simp_all

text \<open>A slot entry is undone only while its address is in the list.\<close>

fun applicable :: "journalEntry \<Rightarrow> StateDB \<Rightarrow> bool" where
  "applicable (accessListAddSlotChange a slot) s = (a \<in> al_addrs (the_list s))"
| "applicable e s = True"

lemma applicable_equiv: "sdb_equiv E s t \<Longrightarrow> applicable e s \<Longrightarrow> applicable e t"
  by (cases e) (simp_all add: sdb_equiv_def rest_of_def)

lemma revert_create_equiv:
  assumes "sdb_equiv E s t" "revert_entry E (createObjectChange a) s = Ok x"
  shows "\<exists>y. revert_entry E (createObjectChange a) t = Ok y \<and> sdb_equiv E x y"
proof -
  let ?f = "\<lambda>u. u\<lparr>sdb_objects := fmdrop a (sdb_objects u), sdb_objectsDirty := sdb_objectsDirty u |-| {|a|}\<rparr>"
  have o: "object_of E (?f u) b = (if b = a then map_option (newObject E a) (fst (read_account E a)) else object_of E u b)" for u b
    by (simp add: object_of_eq)
  have r: "rest_of (?f u) = rest_of u" for u by (simp add: rest_of_def GetLogs_def the_list_def)
  have "same_objects E (?f s) (?f t)"
  proof -
    have "same_objects E s t" using assms(1) by (simp add: sdb_equiv_def)
    then show ?thesis unfolding same_objects_def o by (simp add: option.rel_refl)
  qed
  then have "sdb_equiv E (?f s) (?f t)" using assms(1) r by (simp add: sdb_equiv_def)
  then show ?thesis using assms(2) by simp
qed

lemma destructs_equiv:
  assumes "sdb_equiv E s t" "\<And>b obj. object_of E s b = Some obj \<Longrightarrow> b \<noteq> a \<Longrightarrow> o_address obj = b"
    "object_of E s a = Some obj" "object_of E t a = Some obj"
  shows "sdb_equiv E (s\<lparr>sdb_snapDestructs := sdb_snapDestructs s |-| {|a|}\<rparr>) (t\<lparr>sdb_snapDestructs := sdb_snapDestructs t |-| {|a|}\<rparr>)"
    (is "sdb_equiv E ?s ?t")
proof -
  have o: "object_of E ?s b = object_of E s b" "object_of E ?t b = object_of E t b" for b
    by (rule object_of_cong; simp)+
  have d: "sdb_snapDestructs s = sdb_snapDestructs t" and so: "same_objects E s t"
    using assms(1) by (simp_all add: sdb_equiv_def)
  have "rel_option (obj_equiv E (sdb_snapDestructs ?s)) (object_of E s b) (object_of E t b)" for b
  proof (cases "b = a")
    case True
    then show ?thesis by (simp add: assms(3,4))
  next
    case False
    show ?thesis
    proof (cases rule: same_objects_cases [OF so, of b])
      case (2 o1 o2)
      then have "o_address o1 = b" using assms(2) False by blast
      then have "obj_equiv E (sdb_snapDestructs ?s) o1 o2" using 2(3) False by (intro obj_equiv_destructs [OF _ 2(3)]) simp
      then show ?thesis using 2 by simp
    qed simp
  qed
  then have "same_objects E ?s ?t" by (simp add: same_objects_def o)
  moreover have "rest_of ?s = rest_of ?t"
    using assms(1) by (simp add: sdb_equiv_def rest_of_def GetLogs_def the_list_def)
  ultimately show ?thesis using d by (simp add: sdb_equiv_def)
qed

lemma revert_reset_equiv:
  assumes "sdb_wf E s" "sdb_equiv E s t" "revert_entry E (resetObjectChange prev pd) s = Ok x"
  shows "\<exists>y. revert_entry E (resetObjectChange prev pd) t = Ok y \<and> sdb_equiv E x y"
proof -
  have e: "sdb_equiv E (SetStateObject prev s) (SetStateObject prev t)" by (rule Set_equiv [OF assms(2) obj_equiv_refl])
  have "o_address obj = b" if "object_of E (SetStateObject prev s) b = Some obj" "b \<noteq> o_address prev" for b obj
    using assms(1) that by (simp add: sdb_wf_def obj_wf_def)
  note d = destructs_equiv [OF e this, where a = "o_address prev", simplified object_of_Set, simplified]
  show ?thesis using assms(3) e d by (auto simp: Let_def)
qed

lemma revert_suicide_equiv:
  assumes "sdb_equiv E s t" "revert_entry E (suicideChange a b n) s = Ok x"
  shows "\<exists>y. revert_entry E (suicideChange a b n) t = Ok y \<and> sdb_equiv E x y"
proof -
  obtain r1 s1 where s1: "getStateObject E a s = (r1, s1)" by fastforce
  obtain r2 t1 where t1: "getStateObject E a t = (r2, t1)" by fastforce
  note g = getStateObject_equiv [OF assms(1) s1 t1]
  show ?thesis
  proof (cases r1)
    case None
    then have "r2 = None" using g(2) by (cases r2) simp_all
    then show ?thesis using assms(2) None g(1) by (simp add: s1 t1)
  next
    case (Some o1)
    then obtain o2 where o2: "r2 = Some o2" "obj_equiv E (sdb_snapDestructs s1) o1 o2" using g(2) by (cases r2) simp_all
    have "sdb_equiv E (SetStateObject (setBalance n (o1\<lparr>o_suicided := b\<rparr>)) s1) (SetStateObject (setBalance n (o2\<lparr>o_suicided := b\<rparr>)) t1)"
      by (rule Set_equiv [OF g(1)]) (intro obj_equiv_set o2(2))
    then show ?thesis using assms(2) Some o2(1) by (simp add: s1 t1)
  qed
qed

lemma GetLogs_drop:
  assumes "GetLogs h s \<noteq> []"
    "s1 = s\<lparr>sdb_logs := (if length (GetLogs h s) = 1 then fmdrop h (sdb_logs s) else fmupd h (butlast (GetLogs h s)) (sdb_logs s)),
                   sdb_logSize := sdb_logSize s - 1\<rparr>"
  shows "GetLogs k s1 = (if k = h then butlast (GetLogs h s) else GetLogs k s)"
proof -
  have "butlast xs = []" if "length xs = 1" for xs :: "Log list" using that by (cases xs) auto
  then show ?thesis using assms by (simp add: GetLogs_def)
qed

lemma revert_log_equiv:
  assumes "sdb_equiv E s t" "revert_entry E (addLogChange h) s = Ok x"
  shows "\<exists>y. revert_entry E (addLogChange h) t = Ok y \<and> sdb_equiv E x y"
proof -
  have r: "rest_of s = rest_of t" using assms(1) by (simp add: sdb_equiv_def)
  then have l: "GetLogs k s = GetLogs k t" for k by (simp add: rest_of_def fun_eq_iff)
  have ne: "GetLogs h s \<noteq> []" "GetLogs h t \<noteq> []" using assms(2) by (auto simp: Let_def l split: if_splits)
  obtain y where y: "revert_entry E (addLogChange h) t = Ok y" using ne by (simp add: Let_def)
  have x': "x = s\<lparr>sdb_logs := (if length (GetLogs h s) = 1 then fmdrop h (sdb_logs s) else fmupd h (butlast (GetLogs h s)) (sdb_logs s)),
                   sdb_logSize := sdb_logSize s - 1\<rparr>"
    and y': "y = t\<lparr>sdb_logs := (if length (GetLogs h t) = 1 then fmdrop h (sdb_logs t) else fmupd h (butlast (GetLogs h t)) (sdb_logs t)),
                   sdb_logSize := sdb_logSize t - 1\<rparr>"
    using assms(2) y ne by (simp_all add: Let_def)
  have lx: "(\<lambda>k. GetLogs k x) = (\<lambda>k. GetLogs k y)"
    by (rule ext) (simp only: GetLogs_drop [OF ne(1) x'] GetLogs_drop [OF ne(2) y'] l)
  have "sdb_equiv E x y"
  proof (rule sdb_equiv_rest [OF assms(1)])
    show "rest_of x = rest_of y"
      using r lx unfolding rest_of_def by (simp add: x' y' the_list_def del: GetLogs_def)
  qed (simp_all add: x' y')
  then show ?thesis using y by blast
qed

lemma sdb_equiv_restD:
  assumes "sdb_equiv E s t"
  shows "sdb_refund s = sdb_refund t" "sdb_thash s = sdb_thash t" "sdb_bhash s = sdb_bhash t" "sdb_txIndex s = sdb_txIndex t"
    "GetLogs h s = GetLogs h t" "sdb_logSize s = sdb_logSize t" "sdb_preimages s = sdb_preimages t" "the_list s = the_list t"
    "(dirty_count (sdb_dirties s))(ripemd := 0) = (dirty_count (sdb_dirties t))(ripemd := 0)"
    "sdb_snapDestructs s = sdb_snapDestructs t" "same_objects E s t" "rest_of s = rest_of t"
  using assms by (simp_all add: sdb_equiv_def rest_of_def fun_eq_iff)

lemma revert_list_equiv:
  assumes "sdb_equiv E s t"
    "the_list s1 = the_list t1" "s1 = s\<lparr>sdb_accessList := al\<rparr>" "t1 = t\<lparr>sdb_accessList := al'\<rparr>"
  shows "sdb_equiv E s1 t1"
proof (rule sdb_equiv_rest [OF assms(1)])
  show "rest_of s1 = rest_of t1"
    using sdb_equiv_restD [OF assms(1)] assms(2) by (simp add: rest_of_def GetLogs_def assms(3,4) fun_eq_iff)
qed (simp_all add: assms(3,4))

lemma revert_address_equiv:
  assumes "sdb_equiv E s t" "revert_entry E (accessListAddAccountChange a) s = Ok x"
  shows "\<exists>y. revert_entry E (accessListAddAccountChange a) t = Ok y \<and> sdb_equiv E x y"
proof -
  have d: "DeleteAddress a newAccessList = newAccessList" by (simp add: DeleteAddress_def newAccessList_def)
  have n: "\<exists>al. u = u\<lparr>sdb_accessList := al\<rparr>" for u :: StateDB by (rule exI [of _ "sdb_accessList u"]) simp
  obtain y where y: "revert_entry E (accessListAddAccountChange a) t = Ok y" by simp
  have l: "the_list z = DeleteAddress a (the_list u) \<and> (\<exists>al. z = u\<lparr>sdb_accessList := al\<rparr>)"
    if "revert_entry E (accessListAddAccountChange a) u = Ok z" for u z
  proof (cases "sdb_accessList u")
    case None
    then have "z = u" using that by simp
    then show ?thesis using None n by (auto simp: the_list_def d)
  qed (use that in \<open>auto simp: the_list_def\<close>)
  show ?thesis using l [OF assms(2)] l [OF y] y revert_list_equiv [OF assms(1)] sdb_equiv_restD(8) [OF assms(1)]
    by (elim conjE exE) (intro exI [of _ y] conjI; simp)
qed

lemma revert_slot_equiv:
  assumes "sdb_equiv E s t" "a \<in> al_addrs (the_list s)" "revert_entry E (accessListAddSlotChange a slot) s = Ok x"
  shows "\<exists>y. revert_entry E (accessListAddSlotChange a slot) t = Ok y \<and> sdb_equiv E x y"
proof -
  have l: "the_list s = the_list t" by (rule sdb_equiv_restD [OF assms(1)])
  obtain al where s: "sdb_accessList s = Some al" using assms(2) by (cases "sdb_accessList s") (simp_all add: the_list_def)
  obtain al2 where t: "sdb_accessList t = Some al2"
    using assms(2) by (cases "sdb_accessList t") (simp_all add: l, simp add: the_list_def)
  have "al2 = al" using l by (simp add: the_list_def s t)
  then obtain al1 where al1: "DeleteSlot a slot al = Ok al1" "x = s\<lparr>sdb_accessList := Some al1\<rparr>"
    "revert_entry E (accessListAddSlotChange a slot) t = Ok (t\<lparr>sdb_accessList := Some al1\<rparr>)"
    using assms(3) s t by auto
  have "sdb_equiv E x (t\<lparr>sdb_accessList := Some al1\<rparr>)"
    by (rule revert_list_equiv [OF assms(1) _ al1(2) refl]) (simp add: al1(2) the_list_def)
  then show ?thesis using al1(3) by blast
qed

lemma revert_entry_equiv:
  assumes "sdb_wf E s" "sdb_equiv E s t" "applicable e s" "revert_entry E e s = Ok x"
  shows "\<exists>y. revert_entry E e t = Ok y \<and> sdb_equiv E x y"
proof -
  note r = sdb_equiv_restD [OF assms(2)]
  show ?thesis
  proof (cases e)
    case (createObjectChange a)
    then show ?thesis using revert_create_equiv [OF assms(2)] assms(4) by blast
  next
    case (resetObjectChange prev pd)
    then show ?thesis using revert_reset_equiv [OF assms(1,2)] assms(4) by blast
  next
    case (suicideChange a b n)
    then show ?thesis using revert_suicide_equiv [OF assms(2)] assms(4) by blast
  next
    case (refundChange p)
    have "sdb_equiv E (s\<lparr>sdb_refund := p\<rparr>) (t\<lparr>sdb_refund := p\<rparr>)"
      by (rule sdb_equiv_rest [OF assms(2)]) (use r in \<open>simp_all add: rest_of_def GetLogs_def the_list_def fun_eq_iff\<close>)
    then show ?thesis using assms(4) refundChange by simp
  next
    case (addLogChange h)
    then show ?thesis using revert_log_equiv [OF assms(2)] assms(4) by blast
  next
    case (addPreimageChange h)
    have "sdb_equiv E (s\<lparr>sdb_preimages := fmdrop h (sdb_preimages s)\<rparr>) (t\<lparr>sdb_preimages := fmdrop h (sdb_preimages t)\<rparr>)"
      by (rule sdb_equiv_rest [OF assms(2)]) (use r in \<open>simp_all add: rest_of_def GetLogs_def the_list_def fun_eq_iff\<close>)
    then show ?thesis using assms(4) addPreimageChange by simp
  next
    case (accessListAddAccountChange a)
    then show ?thesis using revert_address_equiv [OF assms(2)] assms(4) by blast
  next
    case (accessListAddSlotChange a slot)
    then show ?thesis using revert_slot_equiv [OF assms(2)] assms(3,4) by simp
  next
    case (balanceChange a p)
    then have "on_object E a (setBalance p) s = Ok x" using assms(4) by simp
    from on_object_equiv [OF assms(2) this obj_equiv_set(1)] show ?thesis by (simp add: balanceChange)
  next
    case (nonceChange a p)
    then have "on_object E a (setNonce p) s = Ok x" using assms(4) by simp
    from on_object_equiv [OF assms(2) this obj_equiv_set(2)] show ?thesis by (simp add: nonceChange)
  next
    case (storageChange a k v)
    then have "on_object E a (setState k v) s = Ok x" using assms(4) by simp
    from on_object_equiv [OF assms(2) this obj_equiv_set(3)] show ?thesis by (simp add: storageChange)
  next
    case (codeChange a c h)
    then have "on_object E a (setCode (BytesToHash h) c) s = Ok x" using assms(4) by simp
    from on_object_equiv [OF assms(2) this obj_equiv_set(4)] show ?thesis by (simp add: codeChange)
  next
    case (touchChange a)
    then show ?thesis using assms(2,4) by simp
  qed
qed

lemma undo_entry_equiv:
  assumes "sdb_wf E s" "sdb_equiv E s t" "applicable e s" "undo_entry E e s = Ok x"
  shows "\<exists>y. undo_entry E e t = Ok y \<and> sdb_equiv E x y"
proof -
  obtain x1 where "revert_entry E e s = Ok x1" "x = dirty_decr e x1" using assms(4) by (auto simp: undo_entry_def)
  moreover obtain y1 where "revert_entry E e t = Ok y1" "sdb_equiv E x1 y1"
    using revert_entry_equiv [OF assms(1-3)] calculation by blast
  ultimately show ?thesis using dirty_decr_equiv by (auto simp: undo_entry_def)
qed

text \<open>The journal is an undo log.\<close>

interpretation journal: undo_log "sdb_equiv E" "sdb_wf E" applicable "undo_entry E" for E
  by unfold_locales (fact sdb_equiv_refl sdb_equiv_sym sdb_equiv_trans sdb_wf_equiv applicable_equiv undo_entry_equiv)+

end
