(* ===== verification/StateDB_Revert.thy ===== *)
theory StateDB_Revert
  imports StateDB_Equiv
begin

text \<open>
  Snapshots of the state database can be reverted to. Every operation appends entries to the journal
  that form a trail back to an equivalent of the state it started from (\<open>sdb_ext\<close>), so \<open>RevertToSnapshot\<close>
  leads back to the state of the snapshot, whatever operations, nested snapshots and reverts happened
  since.
\<close>

section \<open>Every operation leaves a trail\<close>

definition sdb_ext :: "sdb_env \<Rightarrow> StateDB \<Rightarrow> StateDB \<Rightarrow> bool" where
  "sdb_ext E s s' \<longleftrightarrow>
    (\<exists>es. sdb_entries s' = sdb_entries s @ es \<and> journal.trail E es s' s) \<and>
    sdb_validRevisions s' = sdb_validRevisions s \<and> sdb_nextRevisionId s' = sdb_nextRevisionId s"

lemma ext_wf: "sdb_ext E s s' \<Longrightarrow> sdb_wf E s'"
  by (auto simp: sdb_ext_def dest: journal.trail_wf)

lemma ext_trans:
  assumes "sdb_ext E s t" "sdb_ext E t u"
  shows "sdb_ext E s u"
proof -
  obtain es1 es2 where "sdb_entries t = sdb_entries s @ es1" "journal.trail E es1 t s"
    "sdb_entries u = sdb_entries t @ es2" "journal.trail E es2 u t" using assms by (auto simp: sdb_ext_def)
  then have "sdb_entries u = sdb_entries s @ (es1 @ es2)" "journal.trail E (es1 @ es2) u s"
    using journal.trail_trans by auto
  then show ?thesis using assms by (auto simp: sdb_ext_def)
qed

lemma ext_cached:
  assumes "sdb_wf E s" "sdb_equiv E s' s" "sdb_entries s' = sdb_entries s" "sdb_validRevisions s' = sdb_validRevisions s"
    "sdb_nextRevisionId s' = sdb_nextRevisionId s"
  shows "sdb_ext E s s'"
proof -
  have "sdb_wf E s'" using sdb_wf_equiv [OF assms(1) sdb_equiv_sym [OF assms(2)]] .
  then have "journal.trail E [] s' s" using assms(2) by (rule journal.trail_nil)
  then show ?thesis using assms(3-5) by (auto simp: sdb_ext_def)
qed

lemma ext_refl: "sdb_wf E s \<Longrightarrow> sdb_ext E s s"
  by (rule ext_cached) (simp_all add: sdb_equiv_refl)

lemma ext_append:
  assumes "sdb_wf E s" "sdb_wf E s'" "applicable e s'" "revert_entry E e s' = Ok x" "sdb_equiv E (dirty_decr e x) s"
    "sdb_entries s' = sdb_entries s @ [e]" "sdb_validRevisions s' = sdb_validRevisions s"
    "sdb_nextRevisionId s' = sdb_nextRevisionId s"
  shows "sdb_ext E s s'"
proof -
  have "sdb_wf E (dirty_decr e x)" by (rule sdb_wf_equiv [OF assms(1) sdb_equiv_sym [OF assms(5)]])
  moreover have "undo_entry E e s' = Ok (dirty_decr e x)" using assms(4) by (simp add: undo_entry_def)
  ultimately have "journal.trail E [e] s' s" using journal.trail_single assms(2,3,5) by blast
  then show ?thesis using assms(6-8) by (auto simp: sdb_ext_def)
qed

lemma append_fields [simp]:
  "sdb_objects (journal_append e s) = sdb_objects s" "sdb_snapDestructs (journal_append e s) = sdb_snapDestructs s"
  "sdb_refund (journal_append e s) = sdb_refund s" "sdb_thash (journal_append e s) = sdb_thash s"
  "sdb_bhash (journal_append e s) = sdb_bhash s" "sdb_txIndex (journal_append e s) = sdb_txIndex s"
  "sdb_logs (journal_append e s) = sdb_logs s" "sdb_logSize (journal_append e s) = sdb_logSize s"
  "sdb_preimages (journal_append e s) = sdb_preimages s" "sdb_accessList (journal_append e s) = sdb_accessList s"
  "sdb_validRevisions (journal_append e s) = sdb_validRevisions s" "sdb_nextRevisionId (journal_append e s) = sdb_nextRevisionId s"
  "sdb_entries (journal_append e s) = sdb_entries s @ [e]" "the_list (journal_append e s) = the_list s"
  "object_of E (journal_append e s) = object_of E s"
  by (simp_all add: journal_append_def dirty_incr_def Let_def the_list_def object_of_eq fun_eq_iff split: option.split)

lemma append_clean [simp]: "dirtied e = None \<Longrightarrow> sdb_dirties (journal_append e s) = sdb_dirties s" "dirtied e = None \<Longrightarrow> dirty_decr e s = s"
  by (simp_all add: journal_append_def dirty_decr_def)

lemma dirty_incr_count: "dirty_count (sdb_dirties (dirty_incr a s)) = (dirty_count (sdb_dirties s))(a := dirty_count (sdb_dirties s) a + 1)"
  by (auto simp: dirty_incr_def dirty_count_def fun_eq_iff split: option.split)

lemma append_count:
  "dirtied e = Some a \<Longrightarrow>
    dirty_count (sdb_dirties (journal_append e s)) = (dirty_count (sdb_dirties s))(a := dirty_count (sdb_dirties s) a + 1)"
  using dirty_incr_count [of a "s\<lparr>sdb_entries := sdb_entries s @ [e]\<rparr>"] by (simp add: journal_append_def)

lemma rest_decr_append:
  assumes "rest_of u = rest_of (journal_append e s)"
  shows "rest_of (dirty_decr e u) = rest_of s"
proof -
  let ?c = "\<lambda>u. dirty_count (sdb_dirties u)"
  have c: "(?c u)(ripemd := 0) = (?c (journal_append e s))(ripemd := 0)" using assms by (simp add: rest_of_def)
  have "(?c (dirty_decr e u))(ripemd := 0) = (?c s)(ripemd := 0)"
  proof (cases "dirtied e")
    case None
    then show ?thesis using c by simp
  next
    case (Some a)
    have "(?c (dirty_decr e u)) b = ?c s b" if "b \<noteq> ripemd" for b
    proof -
      have "?c u b = ?c (journal_append e s) b" using fun_cong [OF c, of b] that by simp
      then show ?thesis using Some by (cases "b = a") (simp_all add: dirty_decr_count append_count)
    qed
    then show ?thesis by (simp add: fun_eq_iff)
  qed
  then show ?thesis using assms by (simp add: rest_of_def GetLogs_def the_list_def)
qed

text \<open>An operation that changes the object of one account.\<close>

lemma Set_list [simp]: "the_list (SetStateObject obj s) = the_list s"
  by (simp add: the_list_def SetStateObject_def)

lemma wf_Set: "sdb_wf E s \<Longrightarrow> obj_wf a obj \<Longrightarrow> sdb_wf E (SetStateObject obj s)"
  unfolding sdb_wf_def by (auto simp: obj_wf_def)

lemma wf_append: "sdb_wf E s \<Longrightarrow> sdb_wf E (journal_append e s)"
  by (simp add: sdb_wf_def)

lemma ext_object:
  assumes wf: "sdb_wf E s" and obj: "object_of E s a = Some obj"
    and obj': "obj_wf a obj'" "\<not> o_deleted obj'" and e: "\<And>t. applicable e t"
    and g: "\<And>t x. on_object E a g t = Ok x \<Longrightarrow> revert_entry E e t = Ok x"
    and undone: "obj_equiv E (sdb_snapDestructs s) (g obj') obj"
  shows "sdb_ext E s (SetStateObject obj' (journal_append e s))"
proof -
  let ?s = "SetStateObject obj' (journal_append e s)"
  have a: "o_address obj' = a" "o_address obj = a" using obj'(1) wf obj by (simp_all add: obj_wf_def sdb_wf_def)
  then have ga: "o_address (g obj') = a" using undone by (simp add: obj_equiv_def)
  obtain r s1 where s1: "getStateObject E a ?s = (r, s1)" by fastforce
  note f = getStateObject_fields [OF s1]
  have r: "r = Some obj'" using f(1) obj'(2) a by simp
  let ?x = "SetStateObject (g obj') s1"
  have x: "revert_entry E e ?s = Ok ?x" by (rule g) (simp add: on_object_def s1 r)
  have "sdb_equiv E (dirty_decr e ?x) s"
  proof -
    have o: "object_of E (dirty_decr e ?x) b = (if b = a then Some (g obj') else object_of E s b)" for b
    proof -
      have "object_of E (dirty_decr e ?x) b = object_of E ?x b" by (rule object_of_cong) simp
      also have "\<dots> = (if b = a then Some (g obj') else object_of E s b)" by (simp add: ga f(2) a)
      finally show ?thesis .
    qed
    have "rest_of ?x = rest_of (journal_append e s)" using f(4) by simp
    then have "rest_of (dirty_decr e ?x) = rest_of s" by (rule rest_decr_append)
    moreover have "same_objects E (dirty_decr e ?x) s"
      using undone f(3) by (simp add: same_objects_def o obj option.rel_refl)
    ultimately show ?thesis using f(3) by (simp add: sdb_equiv_def)
  qed
  moreover have "sdb_wf E ?s" by (rule wf_Set [OF wf_append [OF wf] obj'(1)])
  ultimately show ?thesis by (intro ext_append [OF wf _ e x]) simp_all
qed

lemma fmupd_idem: "fmupd a x (fmupd a y m) = fmupd a x m"
  by (rule fmap_ext) simp

lemma Set_Set: "o_address n1 = o_address n2 \<Longrightarrow> SetStateObject n1 (SetStateObject n2 s) = SetStateObject n1 s"
  by (simp add: SetStateObject_def fmupd_idem)

text \<open>Creating an object, whatever object with the same address is stored afterwards.\<close>

lemma newObject_wf: "obj_wf a (newObject E a \<lparr>acc_Nonce = n, acc_Balance = b, acc_Root = r, acc_CodeHash = []\<rparr>)"
  by (simp add: obj_wf_def newObject_def Let_def emptyCodeHash_def)

lemma createObject_cases:
  assumes "createObject E a s0 = ((n, p), s')"
  obtains s e s1 where "getDeletedStateObject E a s0 = (object_of E s0 a, s)"
    "obj_wf a n" "\<not> o_deleted n"
    "s1 = (if d_snap E \<and> object_of E s0 a \<noteq> None \<and> a |\<notin>| sdb_snapDestructs s
           then s\<lparr>sdb_snapDestructs := finsert a (sdb_snapDestructs s)\<rparr> else s)"
    "e = (case object_of E s0 a of None \<Rightarrow> createObjectChange a
          | Some po \<Rightarrow> resetObjectChange po (d_snap E \<and> a |\<in>| sdb_snapDestructs s))"
    "s' = SetStateObject n (journal_append e s1)"
proof -
  obtain r s where g: "getDeletedStateObject E a s0 = (r, s)" by fastforce
  then have r: "r = object_of E s0 a" by (simp add: object_of_def)
  let ?n = "setNonce 0 (newObject E a \<lparr>acc_Nonce = 0, acc_Balance = 0, acc_Root = 0, acc_CodeHash = []\<rparr>)"
  have "obj_wf a ?n" "\<not> o_deleted ?n" using newObject_wf by (simp_all add: obj_wf_def)
  moreover have "n = ?n" using assms by (simp add: createObject_def g Let_def)
  moreover have "getDeletedStateObject E a s0 = (object_of E s0 a, s)" using g r by simp
  ultimately show thesis
    using that [OF _ _ _ refl refl] assms
    by (cases "object_of E s0 a"; cases "d_snap E"; cases "a |\<in>| sdb_snapDestructs s") (simp_all add: createObject_def Let_def)
qed

lemma create_ext_none:
  assumes wf: "sdb_wf E s" and none: "object_of E s a = None" and n: "obj_wf a n"
  shows "sdb_ext E s (SetStateObject n (journal_append (createObjectChange a) s))"
proof -
  let ?e = "createObjectChange a"
  let ?s = "SetStateObject n (journal_append ?e s)"
  let ?x = "?s\<lparr>sdb_objects := fmdrop a (sdb_objects ?s), sdb_objectsDirty := sdb_objectsDirty ?s |-| {|a|}\<rparr>"
  have a: "o_address n = a" using n by (simp add: obj_wf_def)
  have "object_of E (dirty_decr ?e ?x) b = object_of E s b" for b
    using none by (simp add: object_of_eq a split: option.splits)
  moreover have "rest_of ?x = rest_of (journal_append ?e s)"
    using Set_fields(2) [of n "journal_append ?e s"] by (simp add: rest_of_def GetLogs_def the_list_def)
  ultimately have "sdb_equiv E (dirty_decr ?e ?x) s" by (intro sdb_equiv_same rest_decr_append) auto
  moreover have "sdb_wf E ?s" by (rule wf_Set [OF wf_append [OF wf] n])
  ultimately show ?thesis by (intro ext_append [OF wf, where e = ?e and x = ?x]) simp_all
qed

lemma create_ext_some:
  assumes wf: "sdb_wf E s" and po: "object_of E s a = Some po" and n: "obj_wf a n"
    and s1: "s1 = (if d_snap E \<and> a |\<notin>| sdb_snapDestructs s then s\<lparr>sdb_snapDestructs := finsert a (sdb_snapDestructs s)\<rparr> else s)"
  shows "sdb_ext E s (SetStateObject n (journal_append (resetObjectChange po (d_snap E \<and> a |\<in>| sdb_snapDestructs s)) s1))"
proof -
  let ?pd = "d_snap E \<and> a |\<in>| sdb_snapDestructs s"
  let ?e = "resetObjectChange po ?pd"
  let ?s = "SetStateObject n (journal_append ?e s1)"
  let ?y = "SetStateObject po ?s"
  let ?x = "if \<not> ?pd \<and> d_snap E then ?y\<lparr>sdb_snapDestructs := sdb_snapDestructs ?y |-| {|a|}\<rparr> else ?y"
  have a: "o_address n = a" "o_address po = a" using n wf po by (simp_all add: obj_wf_def sdb_wf_def)
  have o1: "object_of E s1 b = object_of E s b" for b by (rule object_of_cong) (simp add: s1)
  have "rest_of s1 = rest_of s" by (simp add: s1 rest_of_def GetLogs_def the_list_def)
  then have "rest_of (journal_append ?e s1) = rest_of s"
    by (simp add: rest_of_def GetLogs_def the_list_def)
  then have r: "rest_of ?x = rest_of s"
    using Set_fields(2) by (simp add: rest_of_def GetLogs_def the_list_def)
  have "object_of E ?x b = object_of E ?y b" for b by (rule object_of_cong) simp
  then have "object_of E ?x b = object_of E s b" for b by (simp add: a o1 po)
  moreover have "sdb_snapDestructs ?x = sdb_snapDestructs s" by (auto simp: s1)
  ultimately have "sdb_equiv E (dirty_decr ?e ?x) s" using r by (intro sdb_equiv_same) auto
  moreover have "sdb_wf E s1" using wf by (simp add: sdb_wf_def o1) (simp add: s1 the_list_def)
  then have "sdb_wf E ?s" by (intro wf_Set [OF wf_append n])
  moreover have "revert_entry E ?e ?s = Ok ?x" by (simp add: Let_def a)
  moreover have "sdb_entries ?s = sdb_entries s @ [?e]" "sdb_validRevisions ?s = sdb_validRevisions s"
    "sdb_nextRevisionId ?s = sdb_nextRevisionId s" by (simp_all add: s1)
  ultimately show ?thesis by (intro ext_append [OF wf, where e = ?e and x = ?x]) simp_all
qed

lemma getStateObject_ext:
  assumes "sdb_wf E s" "getStateObject E a s = (r, s1)"
  shows "sdb_ext E s s1"
  using getStateObject_fields [OF assms(2)] by (intro ext_cached [OF assms(1)] sdb_equiv_same)

lemma createObject_ext:
  assumes wf: "sdb_wf E s0" and c: "createObject E a s0 = ((n, p), s')"
  shows "sdb_ext E s0 s'" "obj_wf a m \<Longrightarrow> sdb_ext E s0 (SetStateObject m s')" "object_of E s' a = Some n" "\<not> o_deleted n" "obj_wf a n"
proof -
  obtain s e s1 where g: "getDeletedStateObject E a s0 = (object_of E s0 a, s)" "obj_wf a n" "\<not> o_deleted n"
    "s1 = (if d_snap E \<and> object_of E s0 a \<noteq> None \<and> a |\<notin>| sdb_snapDestructs s
           then s\<lparr>sdb_snapDestructs := finsert a (sdb_snapDestructs s)\<rparr> else s)"
    "e = (case object_of E s0 a of None \<Rightarrow> createObjectChange a
          | Some po \<Rightarrow> resetObjectChange po (d_snap E \<and> a |\<in>| sdb_snapDestructs s))"
    "s' = SetStateObject n (journal_append e s1)"
    by (rule createObject_cases [OF c])
  note f = getDeleted_fields [OF g(1)]
  have s: "sdb_ext E s0 s" using f by (intro ext_cached [OF wf] sdb_equiv_same)
  have m: "sdb_ext E s0 (SetStateObject k (journal_append e s1))" if k: "obj_wf a k" for k
  proof (cases "object_of E s0 a")
    case None
    then have "sdb_ext E s (SetStateObject k (journal_append e s1))"
      using create_ext_none [OF ext_wf [OF s] _ k] f(2) g(4,5) by simp
    then show ?thesis by (rule ext_trans [OF s])
  next
    case (Some po)
    then have "sdb_ext E s (SetStateObject k (journal_append e s1))"
      using create_ext_some [OF ext_wf [OF s] _ k, of po s1] f(2) g(4,5) by simp
    then show ?thesis by (rule ext_trans [OF s])
  qed
  have a: "o_address n = a" using g(2) by (simp add: obj_wf_def)
  show "sdb_ext E s0 s'" using m [OF g(2)] g(6) by simp
  show "sdb_ext E s0 (SetStateObject m s')" if "obj_wf a m"
    using m [OF that] Set_Set [of m n] that a g(6) by (simp add: obj_wf_def)
  show "object_of E s' a = Some n" "\<not> o_deleted n" "obj_wf a n" using g a by simp_all
qed

lemma GetOrNew_ext:
  assumes wf: "sdb_wf E s" and g: "GetOrNewStateObject E a s = (obj, s1)"
  shows "sdb_ext E s s1" "object_of E s1 a = Some obj" "\<not> o_deleted obj" "obj_wf a obj"
proof -
  obtain r t where t: "getStateObject E a s = (r, t)" by fastforce
  note f = getStateObject_fields [OF t] and x = getStateObject_ext [OF wf t]
  have "sdb_ext E s s1 \<and> object_of E s1 a = Some obj \<and> \<not> o_deleted obj \<and> obj_wf a obj"
  proof (cases r)
    case None
    obtain p where "createObject E a t = ((obj, p), s1)" using g None t by (auto simp: GetOrNewStateObject_def split: prod.splits)
    from createObject_ext [OF ext_wf [OF x] this] show ?thesis using ext_trans [OF x] by blast
  next
    case (Some o1)
    then have o1: "obj = o1" "s1 = t" using g t by (simp_all add: GetOrNewStateObject_def)
    have "object_of E s a = Some o1" "\<not> o_deleted o1" using f(1) Some by (auto split: option.splits if_splits)
    then show ?thesis using x f(2) wf o1 by (simp add: sdb_wf_def)
  qed
  then show "sdb_ext E s s1" "object_of E s1 a = Some obj" "\<not> o_deleted obj" "obj_wf a obj" by blast+
qed

lemma CreateAccount_ext:
  assumes "sdb_wf E s"
  shows "sdb_ext E s (CreateAccount E a s)"
proof -
  obtain n p s1 where c: "createObject E a s = ((n, p), s1)" by (metis prod.exhaust)
  note x = createObject_ext [OF assms c]
  have "obj_wf a (setBalance b n)" for b using x(5) by (simp add: obj_wf_def)
  then show ?thesis using x(1,2) by (simp add: CreateAccount_def c split: option.split)
qed

lemma hash_bytes_BytesToHash: "length b = 32 \<Longrightarrow> hash_bytes (BytesToHash b) = b"
proof -
  assume l: "length b = 32"
  have "be_nat b < 2 ^ 256" using be_nat_less [of b] l by simp
  then have "unat (BytesToHash b) = be_nat b" by (simp add: BytesToHash_def unat_of_nat take_bit_nat_eq_self)
  then have "be_nat (hash_bytes (BytesToHash b)) = be_nat b" by (simp only: be_nat_hash_bytes)
  then show ?thesis by (rule be_nat_inject [rotated]) (simp add: l)
qed

lemma obj_SetBalance_ext:
  assumes wf: "sdb_wf E s" and o: "object_of E s a = Some obj" "\<not> o_deleted obj" "obj_wf a obj"
  shows "sdb_ext E s (obj_SetBalance obj n s)"
proof -
  have a: "o_address obj = a" using o by (simp add: obj_wf_def)
  have "setBalance (acc_Balance (o_data obj)) (setBalance n obj) = obj" by (simp add: setBalance_def)
  then show ?thesis unfolding obj_SetBalance_def a using o
    by (intro ext_object [OF wf o(1), where g = "setBalance (acc_Balance (o_data obj))"]) (simp_all add: obj_wf_def)
qed

lemma obj_SetNonce_ext:
  assumes wf: "sdb_wf E s" and o: "object_of E s a = Some obj" "\<not> o_deleted obj" "obj_wf a obj"
  shows "sdb_ext E s (obj_SetNonce obj n s)"
proof -
  have a: "o_address obj = a" using o by (simp add: obj_wf_def)
  have "setNonce (acc_Nonce (o_data obj)) (setNonce n obj) = obj" by (simp add: setNonce_def)
  then show ?thesis unfolding obj_SetNonce_def a using o
    by (intro ext_object [OF wf o(1), where g = "setNonce (acc_Nonce (o_data obj))"]) (simp_all add: obj_wf_def)
qed

lemma obj_SetCode_ext:
  assumes wf: "sdb_wf E s" and o: "object_of E s a = Some obj" "\<not> o_deleted obj" "obj_wf a obj"
  shows "sdb_ext E s (obj_SetCode E obj h code s)"
proof -
  let ?o = "snd (obj_Code E obj)" and ?D = "sdb_snapDestructs s"
  let ?g = "setCode (BytesToHash (acc_CodeHash (o_data ?o))) (code_of E obj)"
  have a: "o_address obj = a" and l: "length (acc_CodeHash (o_data obj)) = 32" using o by (simp_all add: obj_wf_def)
  have q: "obj_equiv E ?D ?o obj" by (rule obj_equiv_code)
  then have f: "o_address ?o = a" "o_data ?o = o_data obj" "o_fake ?o = o_fake obj" "o_deleted ?o = o_deleted obj"
    using a by (simp_all add: obj_equiv_def)
  have h: "hash_bytes (BytesToHash (acc_CodeHash (o_data obj))) = acc_CodeHash (o_data obj)"
    by (rule hash_bytes_BytesToHash [OF l])
  have c: "code_of E (?g (setCode h (Some code) ?o)) = code_of E obj"
  proof (cases "code_of E obj")
    case None
    then have "acc_CodeHash (o_data obj) = emptyCodeHash E \<or> d_code E (BytesToHash (acc_CodeHash (o_data obj))) = None"
      using code_of_eq [of E obj] by (auto split: if_splits)
    then show ?thesis unfolding code_of_set f h None by auto
  qed (simp add: code_of_set)
  have "obj_equiv E ?D (?g (setCode h (Some code) ?o)) obj"
    using q c unfolding obj_equiv_def by (simp add: f h storage_of_set)
  then have "sdb_ext E s (SetStateObject (setCode h (Some code) ?o) (journal_append (codeChange a (code_of E obj) (acc_CodeHash (o_data ?o))) s))"
    using o f by (intro ext_object [OF wf o(1), where g = ?g]) (simp_all add: obj_wf_def)
  then show ?thesis by (simp add: obj_SetCode_def split_beta a code_of_def)
qed

lemma obj_SetState_ext:
  assumes wf: "sdb_wf E s" and o: "object_of E s a = Some obj" "\<not> o_deleted obj" "obj_wf a obj"
  shows "sdb_ext E s (obj_SetState E obj k v s)"
proof -
  let ?D = "sdb_snapDestructs s"
  let ?o = "snd (obj_GetState E ?D obj k)" and ?p = "state_of E ?D obj k"
  have a: "o_address obj = a" and n: "o_fake obj = None" using o by (simp_all add: obj_wf_def)
  have q: "obj_equiv E ?D ?o obj" by (rule obj_equiv_state)
  then have f: "o_address ?o = a" "o_data ?o = o_data obj" "o_fake ?o = None" "o_deleted ?o = o_deleted obj"
    using a n by (simp_all add: obj_equiv_def)
  show ?thesis
  proof (cases "?p = v")
    case True
    have "sdb_equiv E (SetStateObject ?o s) s" by (rule Set_cached [OF o(1) a q])
    then have "sdb_ext E s (SetStateObject ?o s)" by (intro ext_cached [OF wf]) simp_all
    then show ?thesis using True by (simp add: obj_SetState_def n split_beta state_of_def)
  next
    case False
    have "obj_equiv E ?D (setState k ?p (setState k v ?o)) obj"
      using q unfolding obj_equiv_def by (simp add: f n code_of_set fun_eq_iff state_of_setState)
    then have "sdb_ext E s (SetStateObject (setState k v ?o) (journal_append (storageChange a k ?p) s))"
      using o f by (intro ext_object [OF wf o(1), where g = "setState k ?p"]) (simp_all add: obj_wf_def)
    then show ?thesis using False by (simp add: obj_SetState_def n split_beta state_of_def a)
  qed
qed

lemma touch_ext:
  assumes wf: "sdb_wf E s"
  shows "sdb_ext E s (touch obj s)"
proof -
  let ?e = "touchChange (o_address obj)"
  let ?s = "touch obj s"
  have r: "rest_of (dirty_incr ripemd u) = rest_of u" for u
    by (simp add: rest_of_def dirty_incr_count) (simp add: dirty_incr_def GetLogs_def the_list_def)
  have s: "rest_of ?s = rest_of (journal_append ?e s)" using r by (simp add: touch_def Let_def)
  have f: "sdb_objects ?s = sdb_objects s" "sdb_snapDestructs ?s = sdb_snapDestructs s" "sdb_entries ?s = sdb_entries s @ [?e]"
    "sdb_validRevisions ?s = sdb_validRevisions s" "sdb_nextRevisionId ?s = sdb_nextRevisionId s" "the_list ?s = the_list s"
    by (simp_all add: touch_def Let_def dirty_incr_def the_list_def)
  have o: "object_of E ?s b = object_of E s b" "object_of E (dirty_decr ?e ?s) b = object_of E s b" for b
    by (rule object_of_cong; simp add: f)+
  have "sdb_equiv E (dirty_decr ?e ?s) s"
    using o f rest_decr_append [OF s] by (intro sdb_equiv_same) auto
  moreover have "sdb_wf E ?s" using wf by (simp add: sdb_wf_def o f)
  ultimately show ?thesis by (intro ext_append [OF wf, where e = ?e and x = ?s]) (simp_all add: f)
qed

lemma Suicide_ext:
  assumes wf: "sdb_wf E s"
  shows "sdb_ext E s (snd (Suicide E a s))"
proof -
  obtain r s1 where s1: "getStateObject E a s = (r, s1)" by fastforce
  note x = getStateObject_ext [OF wf s1] and f = getStateObject_fields [OF s1]
  show ?thesis
  proof (cases r)
    case None
    then show ?thesis using x by (simp add: Suicide_def s1)
  next
    case (Some obj)
    let ?e = "suicideChange a (o_suicided obj) (acc_Balance (o_data obj))"
    let ?g = "\<lambda>ob. setBalance (acc_Balance (o_data obj)) (ob\<lparr>o_suicided := o_suicided obj\<rparr>)"
    have obj: "object_of E s1 a = Some obj" "\<not> o_deleted obj" using f(1,2) Some by (auto split: option.splits if_splits)
    then have w: "obj_wf a obj" using ext_wf [OF x] by (simp add: sdb_wf_def)
    have "?g (setBalance 0 (obj\<lparr>o_suicided := True\<rparr>)) = obj" by (simp add: setBalance_def)
    moreover have "revert_entry E ?e t = Ok y" if "on_object E a ?g t = Ok y" for t y
      using that by (auto simp: on_object_def split: prod.splits option.splits)
    ultimately have "sdb_ext E s1 (SetStateObject (setBalance 0 (obj\<lparr>o_suicided := True\<rparr>)) (journal_append ?e s1))"
      using obj w by (intro ext_object [OF ext_wf [OF x] obj(1), where g = ?g]) (simp_all add: obj_wf_def)
    then show ?thesis using ext_trans [OF x] Some by (simp add: Suicide_def s1)
  qed
qed

text \<open>The operations on one account, by way of its object.\<close>

lemma on_account_ext:
  assumes wf: "sdb_wf E s"
    and f: "\<And>obj s1. sdb_wf E s1 \<Longrightarrow> object_of E s1 a = Some obj \<Longrightarrow> \<not> o_deleted obj \<Longrightarrow> obj_wf a obj \<Longrightarrow> sdb_ext E s1 (f obj s1)"
  shows "sdb_ext E s (case GetOrNewStateObject E a s of (obj, s1) \<Rightarrow> f obj s1)"
proof -
  obtain obj s1 where g: "GetOrNewStateObject E a s = (obj, s1)" by fastforce
  note x = GetOrNew_ext [OF wf g]
  have "sdb_ext E s1 (f obj s1)" by (rule f [OF ext_wf [OF x(1)] x(2-4)])
  then show ?thesis using ext_trans [OF x(1)] by (simp add: g)
qed

lemma account_ops_ext:
  assumes wf: "sdb_wf E s"
  shows "sdb_ext E s (AddBalance E a n s)" "sdb_ext E s (SubBalance E a n s)" "sdb_ext E s (SetBalance E a n s)"
    "sdb_ext E s (SetNonce E a m s)" "sdb_ext E s (SetCode E a c s)" "sdb_ext E s (SetState E a k v s)"
proof -
  show "sdb_ext E s (AddBalance E a n s)" unfolding AddBalance_def Let_def
    by (rule on_account_ext [OF wf]) (simp add: obj_AddBalance_def touch_ext ext_refl obj_SetBalance_ext)
  show "sdb_ext E s (SubBalance E a n s)" unfolding SubBalance_def Let_def
    by (rule on_account_ext [OF wf]) (simp add: obj_SubBalance_def ext_refl obj_SetBalance_ext)
  show "sdb_ext E s (SetBalance E a n s)" unfolding SetBalance_def Let_def
    by (rule on_account_ext [OF wf]) (rule obj_SetBalance_ext)
  show "sdb_ext E s (SetNonce E a m s)" unfolding SetNonce_def Let_def
    by (rule on_account_ext [OF wf]) (rule obj_SetNonce_ext)
  show "sdb_ext E s (SetCode E a c s)" unfolding SetCode_def Let_def
    by (rule on_account_ext [OF wf]) (rule obj_SetCode_ext)
  show "sdb_ext E s (SetState E a k v s)" unfolding SetState_def Let_def
    by (rule on_account_ext [OF wf]) (rule obj_SetState_ext)
qed

lemma reads_ext:
  assumes wf: "sdb_wf E s"
  shows "sdb_ext E s (snd (Exist E a s))" "sdb_ext E s (snd (GetCode E a s))" "sdb_ext E s (snd (GetState E a k s))"
    "sdb_ext E s (snd (GetCommittedState E a k s))"
proof -
  obtain r s1 where s1: "getStateObject E a s = (r, s1)" by fastforce
  note x = getStateObject_ext [OF wf s1] and f = getStateObject_fields [OF s1]
  show "sdb_ext E s (snd (Exist E a s))" using x by (simp add: Exist_def s1)
  have c: "sdb_ext E s (SetStateObject o1 s1)" if "r = Some obj" "obj_equiv E (sdb_snapDestructs s1) o1 obj" for o1 obj
  proof -
    have obj: "object_of E s1 a = Some obj" using f(1,2) that by (auto split: option.splits if_splits)
    then have "o_address obj = a" using ext_wf [OF x] by (simp add: sdb_wf_def obj_wf_def)
    then have "sdb_equiv E (SetStateObject o1 s1) s1" by (rule Set_cached [OF obj _ that(2)])
    then have "sdb_ext E s1 (SetStateObject o1 s1)" by (intro ext_cached [OF ext_wf [OF x]]) simp_all
    then show ?thesis by (rule ext_trans [OF x])
  qed
  show "sdb_ext E s (snd (GetCode E a s))"
    using x c [OF _ obj_equiv_code] by (simp add: GetCode_def s1 split_beta split: option.split)
  show "sdb_ext E s (snd (GetState E a k s))"
    using x c [OF _ obj_equiv_state] by (simp add: GetState_def s1 split_beta split: option.split)
  show "sdb_ext E s (snd (GetCommittedState E a k s))"
    using x c [OF _ obj_equiv_committed] by (simp add: GetCommittedState_def s1 split_beta split: option.split)
qed

text \<open>The operations that change no object.\<close>

lemma ext_rest:
  assumes wf: "sdb_wf E s" and e: "dirtied e = None" "applicable e s'" "revert_entry E e s' = Ok x"
    and s': "sdb_objects s' = sdb_objects s" "al_wf (the_list s')" "sdb_entries s' = sdb_entries s @ [e]"
      "sdb_validRevisions s' = sdb_validRevisions s" "sdb_nextRevisionId s' = sdb_nextRevisionId s"
    and x: "sdb_objects x = sdb_objects s" "sdb_snapDestructs x = sdb_snapDestructs s" "rest_of x = rest_of s"
  shows "sdb_ext E s s'"
proof -
  have o: "object_of E s' b = object_of E s b" "object_of E x b = object_of E s b" for b
    by (rule object_of_cong; simp add: s' x)+
  have "sdb_wf E s'" using wf s'(2) by (simp add: sdb_wf_def o)
  moreover have "sdb_equiv E (dirty_decr e x) s" using o x(2,3) e(1) by (intro sdb_equiv_same) auto
  ultimately show ?thesis by (intro ext_append [OF wf _ e(2,3)] s')
qed

lemma wf_list: "sdb_wf E s \<Longrightarrow> al_wf (the_list s)"
  by (simp add: sdb_wf_def)

lemma AddRefund_ext:
  assumes wf: "sdb_wf E s"
  shows "sdb_ext E s (AddRefund g s)" "SubRefund g s = Ok s' \<Longrightarrow> sdb_ext E s s'"
proof -
  have r: "sdb_ext E s ((journal_append (refundChange (sdb_refund s)) s)\<lparr>sdb_refund := n\<rparr>)" (is "sdb_ext E s ?s") for n
  proof (rule ext_rest [OF wf, where e = "refundChange (sdb_refund s)" and x = "?s\<lparr>sdb_refund := sdb_refund s\<rparr>"])
    show "al_wf (the_list ?s)" using wf_list [OF wf] by (simp add: the_list_def)
  qed (simp_all add: rest_of_def GetLogs_def the_list_def)
  show "sdb_ext E s (AddRefund g s)" using r by (simp add: AddRefund_def)
  show "sdb_ext E s s'" if "SubRefund g s = Ok s'" using r that by (auto simp: SubRefund_def Let_def split: if_splits)
qed

lemma AddPreimage_ext:
  assumes wf: "sdb_wf E s"
  shows "sdb_ext E s (AddPreimage h b s)"
proof (cases "fmlookup (sdb_preimages s) h")
  case None
  let ?s = "(journal_append (addPreimageChange h) s)\<lparr>sdb_preimages := fmupd h b (sdb_preimages s)\<rparr>"
  have "sdb_ext E s ?s"
  proof (rule ext_rest [OF wf, where e = "addPreimageChange h" and x = "?s\<lparr>sdb_preimages := fmdrop h (sdb_preimages ?s)\<rparr>"])
    show "al_wf (the_list ?s)" using wf_list [OF wf] by (simp add: the_list_def)
  qed (simp_all add: rest_of_def GetLogs_def the_list_def fmdrop_fmupd_fresh [OF None])
  then show ?thesis using None by (simp add: AddPreimage_def)
qed (simp add: AddPreimage_def ext_refl [OF wf])

lemma AddLog_ext:
  assumes wf: "sdb_wf E s"
  shows "sdb_ext E s (AddLog l s)"
proof -
  let ?h = "sdb_thash s" and ?s = "AddLog l s"
  let ?x = "?s\<lparr>sdb_logs := (if length (GetLogs ?h ?s) = 1 then fmdrop ?h (sdb_logs ?s) else fmupd ?h (butlast (GetLogs ?h ?s)) (sdb_logs ?s)),
               sdb_logSize := sdb_logSize ?s - 1\<rparr>"
  obtain l1 where l1: "GetLogs ?h ?s = GetLogs ?h s @ [l1]" "\<And>k. k \<noteq> ?h \<Longrightarrow> GetLogs k ?s = GetLogs k s"
    by (auto simp: AddLog_def Let_def GetLogs_def)
  have f: "sdb_objects ?s = sdb_objects s" "the_list ?s = the_list s" "sdb_entries ?s = sdb_entries s @ [addLogChange ?h]"
    "sdb_validRevisions ?s = sdb_validRevisions s" "sdb_nextRevisionId ?s = sdb_nextRevisionId s"
    "sdb_snapDestructs ?s = sdb_snapDestructs s" "sdb_logSize ?s = sdb_logSize s + 1"
    by (simp_all add: AddLog_def Let_def the_list_def)
  have ne: "GetLogs ?h ?s \<noteq> []" using l1(1) by simp
  have "(\<lambda>k. GetLogs k ?x) = (\<lambda>k. GetLogs k s)"
    by (rule ext) (use GetLogs_drop [OF ne refl] l1 in simp)
  then have r: "rest_of ?x = rest_of s"
    unfolding rest_of_def by (simp add: f(7)) (simp add: AddLog_def Let_def the_list_def)
  show ?thesis
  proof (rule ext_rest [OF wf, where e = "addLogChange ?h" and x = ?x])
    show "revert_entry E (addLogChange ?h) ?s = Ok ?x" using ne by (simp add: Let_def)
    show "rest_of ?x = rest_of s" by (rule r)
  qed (use wf_list [OF wf] in \<open>simp_all add: f\<close>)
qed

lemma ext_list:
  assumes wf: "sdb_wf E s" and al: "al_wf al" and e: "e = accessListAddAccountChange a \<and> DeleteAddress a al = the_list s \<or>
      e = accessListAddSlotChange a k \<and> DeleteSlot a k al = Ok (the_list s) \<and> a \<in> al_addrs al"
  shows "sdb_ext E s (journal_append e (s\<lparr>sdb_accessList := Some al\<rparr>))" (is "sdb_ext E s ?s")
proof (rule ext_rest [OF wf, where e = e and x = "?s\<lparr>sdb_accessList := Some (the_list s)\<rparr>"])
  show "dirtied e = None" "applicable e ?s" "al_wf (the_list ?s)"
    using e al by (auto simp: the_list_def)
  show "revert_entry E e ?s = Ok (?s\<lparr>sdb_accessList := Some (the_list s)\<rparr>)" using e by auto
  have "dirtied e = None" using e by auto
  then show "rest_of (?s\<lparr>sdb_accessList := Some (the_list s)\<rparr>) = rest_of s"
    by (simp add: rest_of_def GetLogs_def) (simp add: the_list_def)
qed simp_all

lemma ext_same_list:
  assumes wf: "sdb_wf E s"
  shows "sdb_ext E s (s\<lparr>sdb_accessList := Some (the_list s)\<rparr>)" (is "sdb_ext E s ?s")
proof (rule ext_cached [OF wf])
  have "object_of E ?s b = object_of E s b" for b by (rule object_of_cong) simp
  then show "sdb_equiv E ?s s"
    by (intro sdb_equiv_same) (auto simp: rest_of_def GetLogs_def the_list_def)
qed simp_all

lemma AddAddressToAccessList_ext:
  assumes wf: "sdb_wf E s"
  shows "sdb_ext E s (AddAddressToAccessList a s)"
proof -
  obtain b al where a: "AddAddress a (the_list s) = (b, al)" by fastforce
  note x = AddAddress_spec [OF wf_list [OF wf] a]
  show ?thesis
  proof (cases b)
    case True
    then show ?thesis using ext_list [OF wf x(1), where a = a] x(5) by (simp add: AddAddressToAccessList_def a)
  next
    case False
    then have "al = the_list s" using a by (auto simp: AddAddress_def split: if_splits)
    then show ?thesis using False ext_same_list [OF wf] by (simp add: AddAddressToAccessList_def a)
  qed
qed

lemma append_list: "(journal_append e s)\<lparr>sdb_accessList := al\<rparr> = journal_append e (s\<lparr>sdb_accessList := al\<rparr>)"
  by (simp add: journal_append_def dirty_incr_def Let_def split: option.split)

lemma AddSlotToAccessList_ext:
  assumes wf: "sdb_wf E s"
  shows "\<exists>s'. AddSlotToAccessList a k s = Ok s' \<and> sdb_ext E s s'"
proof -
  let ?al = "the_list s"
  note w = wf_list [OF wf]
  consider "fmlookup (al_addresses ?al) a = None" | "fmlookup (al_addresses ?al) a = Some (-1)"
    | idx where "fmlookup (al_addresses ?al) a = Some idx" "idx \<noteq> -1"
    by (cases "fmlookup (al_addresses ?al) a") auto
  then show ?thesis
  proof cases
    case 1
    obtain al where al: "AddSlot a k ?al = Ok ((True, True), al)" "al_wf al" "a \<in> al_addrs al"
      "DeleteSlot a k al = Ok (?al\<lparr>al_addresses := fmupd a (-1) (al_addresses ?al)\<rparr>)"
      using AddSlot_fresh [OF w, of a k] 1 by auto
    let ?al1 = "?al\<lparr>al_addresses := fmupd a (-1) (al_addresses ?al)\<rparr>"
    have a1: "AddAddress a ?al = (True, ?al1)" using 1 by (simp add: AddAddress_def)
    let ?s1 = "journal_append (accessListAddAccountChange a) (s\<lparr>sdb_accessList := Some ?al1\<rparr>)"
    have x1: "sdb_ext E s ?s1"
      using AddAddress_spec [OF w a1] by (intro ext_list [OF wf, where a = a]) simp_all
    have "the_list ?s1 = ?al1" by (simp add: the_list_def)
    then have "sdb_ext E ?s1 (journal_append (accessListAddSlotChange a k) (?s1\<lparr>sdb_accessList := Some al\<rparr>))"
      using al by (intro ext_list [OF ext_wf [OF x1], where a = a and k = k]) simp_all
    then show ?thesis using ext_trans [OF x1] al(1) by (simp add: AddSlotToAccessList_def append_list)
  next
    case 2
    obtain al where al: "AddSlot a k ?al = Ok ((False, True), al)" "al_wf al" "a \<in> al_addrs al"
      "DeleteSlot a k al = Ok (?al\<lparr>al_addresses := fmupd a (-1) (al_addresses ?al)\<rparr>)"
      using AddSlot_fresh [OF w, of a k] 2 by auto
    have "DeleteSlot a k al = Ok ?al" using al(4) fmupd_same [OF 2] by simp
    then have "sdb_ext E s (journal_append (accessListAddSlotChange a k) (s\<lparr>sdb_accessList := Some al\<rparr>))"
      using al by (intro ext_list [OF wf, where a = a and k = k]) simp_all
    then show ?thesis using al(1) by (simp add: AddSlotToAccessList_def)
  next
    case (3 idx)
    obtain al where al: "AddSlot a k ?al = Ok ((False, k |\<notin>| al_slots ?al ! nat idx), al)" "al_wf al" "al_addrs al = al_addrs ?al"
      "k |\<notin>| al_slots ?al ! nat idx \<longrightarrow> DeleteSlot a k al = Ok ?al" "k |\<in>| al_slots ?al ! nat idx \<longrightarrow> al = ?al"
      using AddSlot_known [OF w 3, of k] by auto
    have "a \<in> al_addrs al" using 3 al(3) by (auto simp: al_addrs_def fmlookup_dom_iff)
    then have "k |\<notin>| al_slots ?al ! nat idx \<Longrightarrow>
        sdb_ext E s (journal_append (accessListAddSlotChange a k) (s\<lparr>sdb_accessList := Some al\<rparr>))"
      using al by (intro ext_list [OF wf, where a = a and k = k]) simp_all
    then show ?thesis using al(1,5) ext_same_list [OF wf] by (auto simp: AddSlotToAccessList_def Let_def)
  qed
qed

lemma PrepareAccessList_ext:
  assumes wf: "sdb_wf E s"
  shows "\<exists>s'. PrepareAccessList snd_addr dst pre al s = Ok s' \<and> sdb_ext E s s'"
proof -
  have slots: "\<exists>s'. add_slots a keys t = Ok s' \<and> sdb_ext E t s'" if "sdb_wf E t" for a keys t
    using that
  proof (induction keys arbitrary: t)
    case (Cons k keys)
    obtain t1 where t1: "AddSlotToAccessList a k t = Ok t1" "sdb_ext E t t1" using AddSlotToAccessList_ext [OF Cons.prems] by blast
    then show ?case using Cons.IH [OF ext_wf [OF t1(2)]] ext_trans [OF t1(2)] by auto
  qed (simp add: ext_refl)
  have tuples: "\<exists>s'. add_tuples al t = Ok s' \<and> sdb_ext E t s'" if "sdb_wf E t" for t
    using that
  proof (induction al arbitrary: t)
    case (Cons el al)
    obtain a keys where el: "el = (a, keys)" by fastforce
    have x: "sdb_ext E t (AddAddressToAccessList a t)" by (rule AddAddressToAccessList_ext [OF Cons.prems])
    obtain t1 where t1: "add_slots a keys (AddAddressToAccessList a t) = Ok t1" "sdb_ext E (AddAddressToAccessList a t) t1"
      using slots [OF ext_wf [OF x]] by blast
    have x1: "sdb_ext E t t1" by (rule ext_trans [OF x t1(2)])
    then show ?case using Cons.IH [OF ext_wf [OF x1]] ext_trans [OF x1] t1(1) by (auto simp: el)
  qed (simp add: ext_refl)
  have pre: "sdb_ext E t (fold AddAddressToAccessList as t)" if "sdb_wf E t" for as t
    using that
  proof (induction as arbitrary: t)
    case (Cons a as)
    have x: "sdb_ext E t (AddAddressToAccessList a t)" by (rule AddAddressToAccessList_ext [OF Cons.prems])
    then show ?case using Cons.IH [OF ext_wf [OF x]] ext_trans [OF x] by simp
  qed (simp add: ext_refl)
  let ?s2 = "case dst of None \<Rightarrow> AddAddressToAccessList snd_addr s | Some d \<Rightarrow> AddAddressToAccessList d (AddAddressToAccessList snd_addr s)"
  have s1: "sdb_ext E s (AddAddressToAccessList snd_addr s)" by (rule AddAddressToAccessList_ext [OF wf])
  then have s2: "sdb_ext E s ?s2"
    using ext_trans [OF s1 AddAddressToAccessList_ext [OF ext_wf [OF s1]]] by (simp split: option.split)
  have s3: "sdb_ext E s (fold AddAddressToAccessList pre ?s2)" by (rule ext_trans [OF s2 pre [OF ext_wf [OF s2]]])
  show ?thesis using tuples [OF ext_wf [OF s3]] ext_trans [OF s3] by (auto simp: PrepareAccessList_def)
qed

section \<open>Traces of operations\<close>

datatype sdb_op =
    OpAddBalance address int | OpSubBalance address int | OpSetBalance address int
  | OpSetNonce address u64 | OpSetCode address bytes | OpSetState address hash hash
  | OpSuicide address | OpCreateAccount address
  | OpAddLog Log | OpAddPreimage hash bytes | OpAddRefund u64 | OpSubRefund u64
  | OpAddAddress address | OpAddSlot address hash | OpPrepareAccessList address "address option" "address list" AccessList
  | OpExist address | OpGetCode address | OpGetState address hash | OpGetCommittedState address hash
  | OpSnapshot | OpRevert int

fun sdb_exec :: "sdb_env \<Rightarrow> sdb_op \<Rightarrow> StateDB \<Rightarrow> (unit, StateDB) res" where
  "sdb_exec E (OpAddBalance a n) s = Ok (AddBalance E a n s)"
| "sdb_exec E (OpSubBalance a n) s = Ok (SubBalance E a n s)"
| "sdb_exec E (OpSetBalance a n) s = Ok (SetBalance E a n s)"
| "sdb_exec E (OpSetNonce a n) s = Ok (SetNonce E a n s)"
| "sdb_exec E (OpSetCode a c) s = Ok (SetCode E a c s)"
| "sdb_exec E (OpSetState a k v) s = Ok (SetState E a k v s)"
| "sdb_exec E (OpSuicide a) s = Ok (snd (Suicide E a s))"
| "sdb_exec E (OpCreateAccount a) s = Ok (CreateAccount E a s)"
| "sdb_exec E (OpAddLog l) s = Ok (AddLog l s)"
| "sdb_exec E (OpAddPreimage h b) s = Ok (AddPreimage h b s)"
| "sdb_exec E (OpAddRefund g) s = Ok (AddRefund g s)"
| "sdb_exec E (OpSubRefund g) s = SubRefund g s"
| "sdb_exec E (OpAddAddress a) s = Ok (AddAddressToAccessList a s)"
| "sdb_exec E (OpAddSlot a k) s = AddSlotToAccessList a k s"
| "sdb_exec E (OpPrepareAccessList a d pre al) s = PrepareAccessList a d pre al s"
| "sdb_exec E (OpExist a) s = Ok (snd (Exist E a s))"
| "sdb_exec E (OpGetCode a) s = Ok (snd (GetCode E a s))"
| "sdb_exec E (OpGetState a k) s = Ok (snd (GetState E a k s))"
| "sdb_exec E (OpGetCommittedState a k) s = Ok (snd (GetCommittedState E a k s))"
| "sdb_exec E OpSnapshot s = Ok (snd (Snapshot s))"
| "sdb_exec E (OpRevert rev0) s = RevertToSnapshot E rev0 s"

fun sdb_run :: "sdb_env \<Rightarrow> sdb_op list \<Rightarrow> StateDB \<Rightarrow> (unit, StateDB) res" where
  "sdb_run E [] s = Ok s"
| "sdb_run E (op # ops) s = bind_res (sdb_exec E op s) (sdb_run E ops)"

lemma sdb_exec_ext:
  assumes "sdb_wf E s" "sdb_exec E op s = Ok s'" "op \<noteq> OpSnapshot" "\<And>rev0. op \<noteq> OpRevert rev0"
  shows "sdb_ext E s s'"
proof (cases op)
  case (OpAddSlot a k)
  then show ?thesis using AddSlotToAccessList_ext [OF assms(1), of a k] assms(2) by auto
next
  case (OpPrepareAccessList a d pre al)
  then show ?thesis using PrepareAccessList_ext [OF assms(1), of a d pre al] assms(2) by auto
next
  case (OpSubRefund g)
  then show ?thesis using AddRefund_ext(2) [OF assms(1), of g] assms(2) by simp
qed (use assms in \<open>simp_all add: account_ops_ext reads_ext Suicide_ext CreateAccount_ext AddRefund_ext AddPreimage_ext AddLog_ext
  AddAddressToAccessList_ext, auto simp: account_ops_ext reads_ext Suicide_ext CreateAccount_ext AddRefund_ext AddPreimage_ext AddLog_ext
  AddAddressToAccessList_ext\<close>)

text \<open>What holds of the state from a snapshot on: the entries since form a trail back to it, and the
  revisions taken since have larger identifiers and point into those entries, in order.\<close>

definition since_snapshot :: "sdb_env \<Rightarrow> StateDB \<Rightarrow> int \<Rightarrow> StateDB \<Rightarrow> bool" where
  "since_snapshot E s rev0 t \<longleftrightarrow>
    (\<exists>es later. sdb_entries t = sdb_entries s @ es \<and> journal.trail E es t s \<and>
       sdb_validRevisions t = sdb_validRevisions s @ (rev0, length (sdb_entries s)) # later \<and>
       (\<forall>r \<in> set later. rev0 < fst r \<and> fst r < sdb_nextRevisionId t \<and> length (sdb_entries s) \<le> snd r \<and> snd r \<le> length (sdb_entries t)) \<and>
       sorted_wrt (\<lambda>q r. snd q \<le> snd r) later \<and> rev0 < sdb_nextRevisionId t)"

lemma since_snapshot_wf: "since_snapshot E s rev0 t \<Longrightarrow> sdb_wf E t"
  by (auto simp: since_snapshot_def dest: journal.trail_wf)

lemma since_ext:
  assumes "since_snapshot E s rev0 t" "sdb_ext E t u"
  shows "since_snapshot E s rev0 u"
proof -
  obtain es later where t: "sdb_entries t = sdb_entries s @ es" "journal.trail E es t s"
    "sdb_validRevisions t = sdb_validRevisions s @ (rev0, length (sdb_entries s)) # later"
    "\<forall>r \<in> set later. rev0 < fst r \<and> fst r < sdb_nextRevisionId t \<and> length (sdb_entries s) \<le> snd r \<and> snd r \<le> length (sdb_entries t)"
    "sorted_wrt (\<lambda>q r. snd q \<le> snd r) later" "rev0 < sdb_nextRevisionId t"
    using assms(1) by (auto simp: since_snapshot_def)
  obtain es2 where u: "sdb_entries u = sdb_entries t @ es2" "journal.trail E es2 u t"
    "sdb_validRevisions u = sdb_validRevisions t" "sdb_nextRevisionId u = sdb_nextRevisionId t"
    using assms(2) by (auto simp: sdb_ext_def)
  have "journal.trail E (es @ es2) u s" by (rule journal.trail_trans [OF u(2) t(2)])
  then show ?thesis using t u unfolding since_snapshot_def
    by (intro exI [of _ "es @ es2"] exI [of _ later]) force
qed

lemma fields_equiv:
  "sdb_equiv E (s\<lparr>sdb_entries := es, sdb_validRevisions := rs, sdb_nextRevisionId := n\<rparr>) s"
  "sdb_equiv E (s\<lparr>sdb_nextRevisionId := n, sdb_validRevisions := rs\<rparr>) s"
  "sdb_equiv E (s\<lparr>sdb_entries := es, sdb_validRevisions := rs\<rparr>) s"
  by (rule sdb_equiv_same; auto simp: object_of_eq rest_of_def GetLogs_def the_list_def fun_eq_iff)+

lemma since_Snapshot:
  assumes "since_snapshot E s rev0 t"
  shows "since_snapshot E s rev0 (snd (Snapshot t))"
proof -
  obtain es later where t: "sdb_entries t = sdb_entries s @ es" "journal.trail E es t s"
    "sdb_validRevisions t = sdb_validRevisions s @ (rev0, length (sdb_entries s)) # later"
    "\<forall>r \<in> set later. rev0 < fst r \<and> fst r < sdb_nextRevisionId t \<and> length (sdb_entries s) \<le> snd r \<and> snd r \<le> length (sdb_entries t)"
    "sorted_wrt (\<lambda>q r. snd q \<le> snd r) later" "rev0 < sdb_nextRevisionId t"
    using assms by (auto simp: since_snapshot_def)
  have "journal.trail E es (snd (Snapshot t)) s"
    by (rule journal.trail_equiv [OF t(2)]) (simp add: Snapshot_def sdb_equiv_sym [OF fields_equiv(2)])
  then show ?thesis using t unfolding since_snapshot_def
    by (intro exI [of _ es] exI [of _ "later @ [(sdb_nextRevisionId t, length (sdb_entries t))]"])
       (auto simp: Snapshot_def sorted_wrt_append)
qed

lemma first_index_append: "\<forall>x \<in> set xs. \<not> P x \<Longrightarrow> first_index P (xs @ ys) = length xs + first_index P ys"
  by (induction xs) auto

lemma first_index_le: "first_index P xs \<le> length xs"
  by (induction xs) auto

lemma undo_next: "undo_with (undo_entry E) es s = Ok x \<Longrightarrow> sdb_nextRevisionId x = sdb_nextRevisionId s"
proof (induction es arbitrary: x)
  case (Cons e es)
  obtain s1 where s1: "undo_with (undo_entry E) es s = Ok s1" "undo_entry E e s1 = Ok x" using Cons.prems by auto
  have g: "sdb_nextRevisionId s2 = sdb_nextRevisionId s1" if "getStateObject E a s1 = (r, s2)" for a r s2
    using getStateObject_fields(7) [OF that] .
  obtain y where y: "revert_entry E e s1 = Ok y" "x = dirty_decr e y" using s1(2) by (auto simp: undo_entry_def)
  have "sdb_nextRevisionId y = sdb_nextRevisionId s1"
    using y(1) by (cases e) (auto simp: on_object_def Let_def split: prod.splits option.splits if_splits dest: g)
  then show ?case using Cons.IH [OF s1(1)] y(2) by simp
qed simp

lemma RevertToSnapshot_OkD:
  assumes rev: "RevertToSnapshot E rid t = Ok u" and rs: "sdb_validRevisions t = R @ later" and older: "\<forall>r \<in> set R. fst r < rid"
  obtains j x where "j < length later" "undo_with (undo_entry E) (drop (snd (later ! j)) (sdb_entries t)) t = Ok x"
    "u = x\<lparr>sdb_entries := take (snd (later ! j)) (sdb_entries t), sdb_validRevisions := R @ take j later\<rparr>"
proof -
  let ?P = "\<lambda>r. fst r \<ge> rid"
  let ?j = "first_index ?P later"
  have i: "first_index ?P (R @ later) = length R + ?j" using older by (intro first_index_append) auto
  have j: "?j < length later"
    using rev first_index_le [of ?P later] by (simp add: RevertToSnapshot_def Let_def i rs split: if_splits)
  then obtain x where "journal_revert E (snd (later ! ?j)) t = Ok x" "u = x\<lparr>sdb_validRevisions := R @ take ?j later\<rparr>"
    using rev by (auto simp: RevertToSnapshot_def Let_def i rs split: if_splits)
  then show thesis using that [OF j] by (auto simp: journal_revert_def)
qed

lemma since_Revert:
  assumes since: "since_snapshot E s rev0 t" and rev: "RevertToSnapshot E rid t = Ok u" and rid: "rev0 < rid"
    and older: "\<forall>r \<in> set (sdb_validRevisions s). fst r < rev0"
  shows "since_snapshot E s rev0 u"
proof -
  let ?n = "length (sdb_entries s)"
  obtain es later where t: "sdb_entries t = sdb_entries s @ es" "journal.trail E es t s"
    "sdb_validRevisions t = sdb_validRevisions s @ (rev0, ?n) # later"
    "\<forall>r \<in> set later. rev0 < fst r \<and> fst r < sdb_nextRevisionId t \<and> ?n \<le> snd r \<and> snd r \<le> length (sdb_entries t)"
    "sorted_wrt (\<lambda>q r. snd q \<le> snd r) later" "rev0 < sdb_nextRevisionId t"
    using since by (auto simp: since_snapshot_def)
  let ?R = "sdb_validRevisions s @ [(rev0, ?n)]"
  have rs: "sdb_validRevisions t = ?R @ later" using t(3) by simp
  have "\<forall>r \<in> set ?R. fst r < rid" using older rid by auto
  then obtain j x where j: "j < length later" and x: "undo_with (undo_entry E) (drop (snd (later ! j)) (sdb_entries t)) t = Ok x"
    "u = x\<lparr>sdb_entries := take (snd (later ! j)) (sdb_entries t), sdb_validRevisions := ?R @ take j later\<rparr>"
    by (rule RevertToSnapshot_OkD [OF rev rs])
  let ?k = "snd (later ! j)"
  have k: "?n \<le> ?k" "?k \<le> length (sdb_entries t)" using t(4) nth_mem [OF j] by auto
  let ?es1 = "take (?k - ?n) es"
  have "es = ?es1 @ drop ?k (sdb_entries t)" using k by (simp add: t(1))
  then obtain x' where "undo_with (undo_entry E) (drop ?k (sdb_entries t)) t = Ok x'" "journal.trail E ?es1 x' s"
    using journal.trail_suffix [OF t(2)] by blast
  then have "journal.trail E ?es1 x s" using x(1) by simp
  then have tr: "journal.trail E ?es1 u s" unfolding x(2) by (rule journal.trail_equiv) (rule sdb_equiv_sym [OF fields_equiv(3)])
  have len: "length (sdb_entries u) = ?k" using k by (simp add: x(2))
  have "snd r \<le> ?k" if r: "r \<in> set (take j later)" for r
  proof -
    obtain m where "m < j" "r = later ! m" using r j by (auto simp: in_set_conv_nth)
    then show ?thesis using sorted_wrt_nth_less [OF t(5), of m j] j by simp
  qed
  moreover have "sdb_nextRevisionId u = sdb_nextRevisionId t" using undo_next [OF x(1)] by (simp add: x(2))
  ultimately have lt: "\<forall>r \<in> set (take j later). rev0 < fst r \<and> fst r < sdb_nextRevisionId u \<and> ?n \<le> snd r \<and> snd r \<le> length (sdb_entries u)"
    "rev0 < sdb_nextRevisionId u"
    using t(4,6) len by (auto dest: in_set_takeD)
  have "sdb_entries u = sdb_entries s @ ?es1" using k by (simp add: x(2) t(1))
  then show ?thesis unfolding since_snapshot_def using tr lt sorted_wrt_take [OF t(5)]
    by (intro exI [of _ ?es1] exI [of _ "take j later"]) (simp add: x(2))
qed

lemma since_run:
  assumes "since_snapshot E s rev0 t" "sdb_run E ops t = Ok u" "\<forall>r. OpRevert r \<in> set ops \<longrightarrow> rev0 < r"
    "\<forall>r \<in> set (sdb_validRevisions s). fst r < rev0"
  shows "since_snapshot E s rev0 u"
  using assms(1-3)
proof (induction ops arbitrary: t)
  case (Cons op ops)
  obtain t1 where t1: "sdb_exec E op t = Ok t1" "sdb_run E ops t1 = Ok u" using Cons.prems(2) by auto
  have "since_snapshot E s rev0 t1"
  proof (cases "op = OpSnapshot \<or> (\<exists>r. op = OpRevert r)")
    case True
    then show ?thesis using since_Snapshot [OF Cons.prems(1)] since_Revert [OF Cons.prems(1) _ _ assms(4)] t1(1) Cons.prems(3)
      by auto
  next
    case False
    then show ?thesis using since_ext [OF Cons.prems(1) sdb_exec_ext [OF since_snapshot_wf [OF Cons.prems(1)] t1(1)]] by blast
  qed
  then show ?case using Cons.IH t1(2) Cons.prems(3) by simp
qed simp

lemma since_start:
  assumes "sdb_wf E s" "Snapshot s = (rev0, t)"
  shows "since_snapshot E s rev0 t"
proof -
  have t: "t = s\<lparr>sdb_nextRevisionId := sdb_nextRevisionId s + 1, sdb_validRevisions := sdb_validRevisions s @ [(rev0, length (sdb_entries s))]\<rparr>"
    "rev0 = sdb_nextRevisionId s" using assms(2) by (auto simp: Snapshot_def)
  have "sdb_equiv E t s" unfolding t(1) by (rule fields_equiv)
  moreover have "sdb_wf E t" by (rule sdb_wf_equiv [OF assms(1) sdb_equiv_sym [OF calculation]])
  ultimately have "journal.trail E [] t s" by (intro journal.trail_nil)
  then show ?thesis by (auto simp: since_snapshot_def t)
qed

lemma since_end:
  assumes "since_snapshot E s rev0 t" "\<forall>r \<in> set (sdb_validRevisions s). fst r < rev0"
  shows "\<exists>u. RevertToSnapshot E rev0 t = Ok u \<and> sdb_equiv E u s \<and> sdb_entries u = sdb_entries s \<and>
    sdb_validRevisions u = sdb_validRevisions s"
proof -
  let ?n = "length (sdb_entries s)" and ?P = "\<lambda>r. fst r \<ge> rev0"
  obtain es later where t: "sdb_entries t = sdb_entries s @ es" "journal.trail E es t s"
    "sdb_validRevisions t = sdb_validRevisions s @ (rev0, ?n) # later"
    using assms(1) by (auto simp: since_snapshot_def)
  have "first_index ?P (sdb_validRevisions t) = length (sdb_validRevisions s) + first_index ?P ((rev0, ?n) # later)"
    unfolding t(3) using assms(2) by (intro first_index_append) auto
  then have i: "first_index ?P (sdb_validRevisions t) = length (sdb_validRevisions s)" by simp
  obtain x where x: "undo_with (undo_entry E) es t = Ok x" "sdb_equiv E x s" using journal.trail_undo [OF t(2)] by blast
  let ?u = "x\<lparr>sdb_entries := sdb_entries s, sdb_validRevisions := sdb_validRevisions s\<rparr>"
  have "RevertToSnapshot E rev0 t = Ok ?u"
    by (simp add: RevertToSnapshot_def Let_def i) (simp add: journal_revert_def t x(1))
  moreover have "sdb_equiv E ?u s" by (rule sdb_equiv_trans [OF fields_equiv(3) x(2)])
  ultimately show ?thesis by (intro exI [of _ ?u]) simp
qed

text \<open>A concrete environment, a snapshot with one account and one stored slot.\<close>

definition toy_sdb :: sdb_env where
  "toy_sdb = \<lparr>d_keccak = (\<lambda>b. of_nat (length b) + 1), d_snap = True,
     d_snap_account = (\<lambda>a. Some (if a = 1 then Some \<lparr>acc_Nonce = 4, acc_Balance = 10, acc_Root = 9, acc_CodeHash = hash_bytes 1\<rparr> else None)),
     d_trie_account = (\<lambda>a. None), d_snap_storage = (\<lambda>a k. Some (if k = 2 then [0x07] else [])),
     d_open_trie = (\<lambda>a r. None), d_trie_fails = (\<lambda>a k. False), d_code = (\<lambda>h. None), d_shared = (\<lambda>a k. None)\<rparr>"

lemma hash_bytes_not_Nil [simp]: "hash_bytes h \<noteq> []"
  using length_hash_addr_bytes(1) [of h] by (metis list.size(3) zero_neq_numeral)

lemma toy_sdb_wf: "sdb_wf toy_sdb newStateDB"
  by (simp add: sdb_wf_def object_of_eq read_account_def toy_sdb_def newStateDB_def the_list_def obj_wf_def newObject_def
      Let_def emptyRoot_def emptyCodeHash_def)

text \<open>C2: A snapshot can always be reverted to. After \<open>Snapshot\<close>, run any sequence of operations on the state:
  balance, nonce, code and storage changes, self-destructions, account creations, logs, preimages,
  refunds, access-list additions, reads that fill caches, and nested snapshots with reverts to them.
  Then \<open>RevertToSnapshot\<close> does not panic, and leads to a state equivalent to the one the snapshot was taken of,
  with the same journal and the same open revisions.\<close>

theorem RevertToSnapshot_restores:
  assumes "sdb_wf E s" "\<forall>r \<in> set (sdb_validRevisions s). fst r < sdb_nextRevisionId s" "Snapshot s = (rev0, s1)"
    "sdb_run E ops s1 = Ok s2" "\<forall>r. OpRevert r \<in> set ops \<longrightarrow> rev0 < r"
  shows "\<exists>s3. RevertToSnapshot E rev0 s2 = Ok s3 \<and> sdb_equiv E s3 s \<and> sdb_entries s3 = sdb_entries s \<and>
    sdb_validRevisions s3 = sdb_validRevisions s"
proof -
  have older: "\<forall>r \<in> set (sdb_validRevisions s). fst r < rev0" using assms(2,3) by (simp add: Snapshot_def)
  show ?thesis by (rule since_end [OF since_run [OF since_start [OF assms(1,3)] assms(4,5) older] older])
qed

theorem RevertToSnapshot_restores_witness:
  "\<exists>s2 s3. sdb_run toy_sdb [OpAddBalance 1 5, OpSetState 1 2 3, OpSnapshot, OpSuicide 1, OpAddSlot 1 2, OpRevert 1, OpCreateAccount 1]
      (snd (Snapshot newStateDB)) = Ok s2 \<and> RevertToSnapshot toy_sdb 0 s2 = Ok s3 \<and> sdb_equiv toy_sdb s3 newStateDB"
proof -
  let ?ops = "[OpAddBalance 1 5, OpSetState 1 2 3, OpSnapshot, OpSuicide 1, OpAddSlot 1 2, OpRevert 1, OpCreateAccount 1]"
  have "is_Ok (sdb_run toy_sdb ?ops (snd (Snapshot newStateDB)))" by code_simp
  then obtain s2 where s2: "sdb_run toy_sdb ?ops (snd (Snapshot newStateDB)) = Ok s2" by (auto simp: is_Ok_iff)
  have "Snapshot newStateDB = (0, snd (Snapshot newStateDB))" by (simp add: Snapshot_def newStateDB_def)
  from RevertToSnapshot_restores [OF toy_sdb_wf _ this s2]
  show ?thesis using s2 by (auto simp: newStateDB_def)
qed



end
