(* ===== verification/Key_Value.thy ===== *)
theory Key_Value
  imports Prelude "HOL-Library.Multiset"
begin

text \<open>
  The interface of a key-value store with a default value, as the state database uses its tries: writing
  a key changes what reading that key returns and nothing else. What a client relies on follows:
  after a sequence of writes the last one to a key counts, and writes to different keys can be made in
  any order, in particular in the unspecified order of a Go map.
\<close>

locale kv_store =
  fixes get :: "'s \<Rightarrow> 'k \<Rightarrow> 'v"
    and put :: "'k \<Rightarrow> 'v \<Rightarrow> 's \<Rightarrow> 's"
    and inv :: "'s \<Rightarrow> bool"
  assumes get_put: "inv s \<Longrightarrow> get (put k v s) k' = (if k' = k then v else get s k')"
    and inv_put: "inv s \<Longrightarrow> inv (put k v s)"
begin

primrec puts :: "('k \<times> 'v) list \<Rightarrow> 's \<Rightarrow> 's" where
  "puts [] s = s"
| "puts (w # ws) s = puts ws (put (fst w) (snd w) s)"

lemma inv_puts: "inv s \<Longrightarrow> inv (puts ws s)"
  by (induction ws arbitrary: s) (simp_all add: inv_put)

lemma get_puts_other: "inv s \<Longrightarrow> k \<notin> fst ` set ws \<Longrightarrow> get (puts ws s) k = get s k"
  by (induction ws arbitrary: s) (simp_all add: inv_put get_put)

lemma get_puts: "inv s \<Longrightarrow> distinct (map fst ws) \<Longrightarrow> (k, v) \<in> set ws \<Longrightarrow> get (puts ws s) k = v"
proof (induction ws arbitrary: s)
  case (Cons w ws)
  show ?case
  proof (cases "w = (k, v)")
    case True
    then have "k \<notin> fst ` set ws" using Cons.prems(2) by auto
    then show ?thesis using True get_puts_other [OF inv_put [OF Cons.prems(1)]] get_put [OF Cons.prems(1)] by simp
  next
    case False
    then show ?thesis using Cons.IH [OF inv_put [OF Cons.prems(1)]] Cons.prems(2,3) by simp
  qed
qed simp

lemma puts_any_order:
  assumes "inv s" "distinct (map fst ws)" "mset ws = mset ws'"
  shows "get (puts ws s) k = get (puts ws' s) k"
proof -
  have "mset (map fst ws) = mset (map fst ws')" using assms(3) by simp
  then have d: "distinct (map fst ws')" using assms(2) mset_eq_imp_distinct_iff by blast
  have s: "set ws = set ws'" using assms(3) by (rule mset_eq_setD)
  show ?thesis
  proof (cases "k \<in> fst ` set ws")
    case True
    then obtain v where "(k, v) \<in> set ws" by force
    then show ?thesis using get_puts [OF assms(1,2)] get_puts [OF assms(1) d] s by auto
  next
    case False
    then show ?thesis using get_puts_other [OF assms(1)] s by simp
  qed
qed

end

end
