(* ===== verification/StateDB_Storage.thy ===== *)
theory StateDB_Storage
  imports StateDB_Revert Key_Value
begin

text \<open>
  What a transaction leaves in the state database: storage slots and their encoding in the storage trie,
  reading back what was written, and the finalisation of a transaction.
\<close>

section \<open>Slots in the storage trie\<close>

lemma TrimLeftZeroes_be_nat: "be_nat (TrimLeftZeroes bs) = be_nat bs"
  by (induction bs) (simp_all add: be_nat_Cons)

lemma length_TrimLeftZeroes: "length (TrimLeftZeroes bs) \<le> length bs"
  by (induction bs) simp_all

lemma encode_slot_eq: "encode_slot v = rlp (Str (TrimLeftZeroes (hash_bytes v)))"
proof -
  let ?b = "TrimLeftZeroes (hash_bytes v)"
  have "length ?b \<le> 32" using length_TrimLeftZeroes [of "hash_bytes v"] by simp
  then have l: "length (genc (GBytes ?b)) < 2 ^ 64" by (simp add: rlp_head_def)
  have "EncodeToBytes empty_encbuf (GBytes ?b) = Ok (genc (GBytes ?b))"
    using toBytes_gadd [OF l, of empty_encbuf] gwrite_gadd(1) [OF _ l, of "eb_reset empty_encbuf"]
    by (simp only: EncodeToBytes_def has_negative.simps simp_thms bind_res.simps)
  then show ?thesis by (simp add: encode_slot_def del: rlp.simps)
qed

lemma decode_encode_slot: "decode_slot (encode_slot v) = (False, v)"
proof -
  let ?b = "TrimLeftZeroes (hash_bytes v)"
  have "length ?b \<le> 32" using length_TrimLeftZeroes [of "hash_bytes v"] by simp
  then have l: "length (rlp (Str ?b) @ []) < 2 ^ 63" by (simp add: rlp_head_def)
  have "Split (rlp (Str ?b)) = Ok (kind_of (Str ?b), ?b, [])" using Split_rlp [OF l] by (simp add: content_def)
  moreover have "BytesToHash ?b = v" by (simp add: BytesToHash_def TrimLeftZeroes_be_nat be_nat_hash_bytes)
  moreover have "rlp (Str ?b) \<noteq> []" by (auto simp: rlp_head_def)
  ultimately show ?thesis by (simp add: decode_slot_def encode_slot_eq del: rlp.simps)
qed

text \<open>What a storage trie holds for a slot.\<close>

definition trie_slot :: "(hash, bytes) fmap \<Rightarrow> hash \<Rightarrow> hash" where
  "trie_slot tr k = snd (decode_slot (case fmlookup tr k of None \<Rightarrow> [] | Some b \<Rightarrow> b))"

definition put_slot :: "hash \<Rightarrow> hash \<Rightarrow> (hash, bytes) fmap \<Rightarrow> (hash, bytes) fmap" where
  "put_slot k v tr = (if v = 0 then fmdrop k tr else fmupd k (encode_slot v) tr)"

lemma trie_slot_put: "trie_slot (put_slot k v tr) k' = (if k' = k then v else trie_slot tr k')"
proof (cases "v = 0")
  case True
  then show ?thesis by (simp add: trie_slot_def put_slot_def decode_slot_def)
next
  case False
  then show ?thesis by (simp add: trie_slot_def put_slot_def decode_encode_slot)
qed

interpretation slots: kv_store trie_slot put_slot "\<lambda>_. True"
  by unfold_locales (simp_all add: trie_slot_put)





section \<open>Reading back what was written\<close>

definition balance_of :: "StateObject option \<Rightarrow> int" where
  "balance_of r = (case r of None \<Rightarrow> 0 | Some obj \<Rightarrow> if o_deleted obj then 0 else acc_Balance (o_data obj))"

definition nonce_of :: "StateObject option \<Rightarrow> u64" where
  "nonce_of r = (case r of None \<Rightarrow> 0 | Some obj \<Rightarrow> if o_deleted obj then 0 else acc_Nonce (o_data obj))"

lemma GetBalance_eq: "fst (GetBalance E a s) = balance_of (object_of E s a)"
proof -
  obtain r s1 where g: "getStateObject E a s = (r, s1)" by fastforce
  show ?thesis using getStateObject_fields(1) [OF g]
    by (simp add: GetBalance_def g balance_of_def split: option.split)
qed

lemma GetNonce_eq: "fst (GetNonce E a s) = nonce_of (object_of E s a)"
proof -
  obtain r s1 where g: "getStateObject E a s = (r, s1)" by fastforce
  show ?thesis using getStateObject_fields(1) [OF g]
    by (simp add: GetNonce_def g nonce_of_def split: option.split)
qed

lemma createObject_fresh:
  assumes "createObject E a s = ((obj, p), s1)"
  shows "acc_Balance (o_data obj) = 0" "acc_Nonce (o_data obj) = 0" "b \<noteq> a \<Longrightarrow> object_of E s1 b = object_of E s b"
proof -
  obtain r t where g: "getDeletedStateObject E a s = (r, t)" by fastforce
  let ?n = "setNonce 0 (newObject E a \<lparr>acc_Nonce = 0, acc_Balance = 0, acc_Root = 0, acc_CodeHash = []\<rparr>)"
  have n: "obj = ?n" using assms by (simp add: createObject_def g Let_def)
  then show "acc_Balance (o_data obj) = 0" "acc_Nonce (o_data obj) = 0" by (simp_all add: newObject_def Let_def)
  have a: "o_address obj = a" by (simp add: n)
  obtain e t1 where t1: "s1 = SetStateObject obj (journal_append e t1)" "sdb_objects t1 = sdb_objects t"
    using assms n by (auto simp: createObject_def g Let_def split: if_splits)
  have "object_of E t1 b = object_of E t b" by (rule object_of_cong) (rule t1(2))
  then show "b \<noteq> a \<Longrightarrow> object_of E s1 b = object_of E s b" using getDeleted_fields(2) [OF g] t1(1) a by simp
qed

lemma GetOrNew_object:
  assumes "GetOrNewStateObject E a s = (obj, s1)"
  shows "acc_Balance (o_data obj) = balance_of (object_of E s a)" "acc_Nonce (o_data obj) = nonce_of (object_of E s a)"
    "b \<noteq> a \<Longrightarrow> object_of E s1 b = object_of E s b"
proof -
  obtain r t where t: "getStateObject E a s = (r, t)" by fastforce
  note f = getStateObject_fields [OF t]
  have "acc_Balance (o_data obj) = balance_of (object_of E s a) \<and> acc_Nonce (o_data obj) = nonce_of (object_of E s a) \<and>
    (b \<noteq> a \<longrightarrow> object_of E s1 b = object_of E s b)"
  proof (cases r)
    case None
    then obtain p where c: "createObject E a t = ((obj, p), s1)"
      using assms t by (auto simp: GetOrNewStateObject_def split: prod.splits)
    have "balance_of (object_of E s a) = 0" "nonce_of (object_of E s a) = 0"
      using f(1) None by (auto simp: balance_of_def nonce_of_def split: option.splits if_splits)
    then show ?thesis using createObject_fresh(1,2) [OF c] createObject_fresh(3) [OF c, of b] f(2) by simp
  next
    case (Some o1)
    then have "obj = o1" "s1 = t" using assms t by (simp_all add: GetOrNewStateObject_def)
    moreover have "object_of E s a = Some o1" "\<not> o_deleted o1" using f(1) Some by (auto split: option.splits if_splits)
    ultimately show ?thesis using f(2) by (simp add: balance_of_def nonce_of_def)
  qed
  then show "acc_Balance (o_data obj) = balance_of (object_of E s a)" "acc_Nonce (o_data obj) = nonce_of (object_of E s a)"
    "b \<noteq> a \<Longrightarrow> object_of E s1 b = object_of E s b" by blast+
qed

lemma SetBalance_object:
  assumes "sdb_wf E s" "GetOrNewStateObject E a s = (obj, s1)"
  shows "balance_of (object_of E (obj_SetBalance obj n s1) b) = (if b = a then n else balance_of (object_of E s b))"
    "balance_of (object_of E s1 b) = balance_of (object_of E s b)"
proof -
  note g = GetOrNew_ext [OF assms] and o = GetOrNew_object [OF assms(2)]
  have a: "o_address obj = a" using g(4) by (simp add: obj_wf_def)
  show "balance_of (object_of E (obj_SetBalance obj n s1) b) = (if b = a then n else balance_of (object_of E s b))"
    using o(3) [of b] g(3) by (simp add: obj_SetBalance_def a balance_of_def)
  show "balance_of (object_of E s1 b) = balance_of (object_of E s b)"
    using o(1) o(3) [of b] g(2,3) by (cases "b = a") (simp_all add: balance_of_def)
qed

lemma balance_changes:
  assumes "sdb_wf E s"
  shows "fst (GetBalance E b (AddBalance E a n s)) = fst (GetBalance E b s) + (if b = a then n else 0)"
    "fst (GetBalance E b (SubBalance E a n s)) = fst (GetBalance E b s) - (if b = a then n else 0)"
    "fst (GetBalance E b (SetBalance E a n s)) = (if b = a then n else fst (GetBalance E b s))"
proof -
  obtain obj s1 where g: "GetOrNewStateObject E a s = (obj, s1)" by fastforce
  note o = SetBalance_object [OF assms g] and bal = GetOrNew_object(1) [OF g]
  have t: "object_of E (touch ob s1) b = object_of E s1 b" for ob b
    by (rule object_of_cong) (simp add: touch_def Let_def dirty_incr_def)
  show "fst (GetBalance E b (AddBalance E a n s)) = fst (GetBalance E b s) + (if b = a then n else 0)"
    using o bal t by (simp add: GetBalance_eq AddBalance_def g obj_AddBalance_def)
  show "fst (GetBalance E b (SubBalance E a n s)) = fst (GetBalance E b s) - (if b = a then n else 0)"
    using o bal by (simp add: GetBalance_eq SubBalance_def g obj_SubBalance_def)
  show "fst (GetBalance E b (SetBalance E a n s)) = (if b = a then n else fst (GetBalance E b s))"
    using o by (simp add: GetBalance_eq SetBalance_def g)
qed

lemma nonce_changes:
  assumes "sdb_wf E s"
  shows "fst (GetNonce E b (SetNonce E a n s)) = (if b = a then n else fst (GetNonce E b s))"
proof -
  obtain obj s1 where g: "GetOrNewStateObject E a s = (obj, s1)" by fastforce
  note x = GetOrNew_ext [OF assms g] and o = GetOrNew_object [OF g]
  have a: "o_address obj = a" using x(4) by (simp add: obj_wf_def)
  show ?thesis using o(3) [of b] x(3) by (simp add: GetNonce_eq SetNonce_def g obj_SetNonce_def a nonce_of_def)
qed

text \<open>Transfers, \<open>core/evm.go\<close>.\<close>

definition CanTransfer :: "sdb_env \<Rightarrow> address \<Rightarrow> int \<Rightarrow> StateDB \<Rightarrow> bool \<times> StateDB" where
  "CanTransfer E addr amount s = (let (bal, s1) = GetBalance E addr s in (bal \<ge> amount, s1))"

definition Transfer :: "sdb_env \<Rightarrow> address \<Rightarrow> address \<Rightarrow> int \<Rightarrow> StateDB \<Rightarrow> StateDB" where
  "Transfer E sender recipient amount s = AddBalance E recipient amount (SubBalance E sender amount s)"

text \<open>C17: A transfer moves the amount and nothing else: the sender's balance falls and the recipient's rises by it, no other
  balance changes (and none at all when they are the same account), so the sum over any accounts
  that include both is unchanged. When \<open>CanTransfer\<close> allowed it, no balance becomes negative.\<close>

theorem Transfer_conserves:
  assumes "sdb_wf E s" "finite A" "x \<in> A" "y \<in> A" "0 \<le> n" "fst (CanTransfer E x n s)" "\<forall>b. 0 \<le> fst (GetBalance E b s)"
  shows "(\<Sum>b \<in> A. fst (GetBalance E b (Transfer E x y n s))) = (\<Sum>b \<in> A. fst (GetBalance E b s)) \<and>
    fst (GetBalance E b (Transfer E x y n s)) =
      fst (GetBalance E b s) - (if b = x then n else 0) + (if b = y then n else 0) \<and>
    0 \<le> fst (GetBalance E b (Transfer E x y n s))"
proof -
  have w: "sdb_wf E (SubBalance E x n s)" by (rule ext_wf [OF account_ops_ext(2) [OF assms(1)]])
  have t: "fst (GetBalance E b (Transfer E x y n s)) =
      fst (GetBalance E b s) - (if b = x then n else 0) + (if b = y then n else 0)" for b
    by (simp add: Transfer_def balance_changes(1) [OF w] balance_changes(2) [OF assms(1)])
  have "(\<Sum>b \<in> A. fst (GetBalance E b (Transfer E x y n s))) = (\<Sum>b \<in> A. fst (GetBalance E b s))"
    using assms(2-4) by (simp add: t sum.distrib sum_subtractf sum.delta)
  moreover have "n \<le> fst (GetBalance E x s)" using assms(6) by (simp add: CanTransfer_def split_beta)
  ultimately show ?thesis using t [of b] assms(5,7) by (auto simp: t)
qed

lemma toy_balances: "fst (GetBalance toy_sdb b newStateDB) = (if b = 1 then 10 else 0)"
  by (simp add: GetBalance_eq balance_of_def object_of_eq read_account_def newStateDB_def) (simp add: toy_sdb_def newObject_def Let_def)

theorem Transfer_conserves_witness:
  "fst (CanTransfer toy_sdb 1 4 newStateDB) \<and> fst (GetBalance toy_sdb 1 (Transfer toy_sdb 1 2 4 newStateDB)) = 6 \<and>
    fst (GetBalance toy_sdb 2 (Transfer toy_sdb 1 2 4 newStateDB)) = 4"
proof -
  have c: "fst (CanTransfer toy_sdb 1 4 newStateDB)" by (simp add: CanTransfer_def split_beta toy_balances)
  have "\<forall>b. 0 \<le> fst (GetBalance toy_sdb b newStateDB)" by (simp add: toy_balances)
  from Transfer_conserves [OF toy_sdb_wf _ _ _ _ c this, of "{1, 2}" 2 1] Transfer_conserves [OF toy_sdb_wf _ _ _ _ c this, of "{1, 2}" 2 2]
  show ?thesis using c by (simp add: toy_balances)
qed

definition slot_of :: "sdb_env \<Rightarrow> address fset \<Rightarrow> StateObject option \<Rightarrow> hash \<Rightarrow> hash" where
  "slot_of E D r k = (case r of None \<Rightarrow> 0 | Some obj \<Rightarrow> if o_deleted obj then 0 else state_of E D obj k)"

lemma GetState_eq: "fst (GetState E a k s) = slot_of E (sdb_snapDestructs s) (object_of E s a) k"
proof -
  obtain r s1 where g: "getStateObject E a s = (r, s1)" by fastforce
  show ?thesis using getStateObject_fields(1,3) [OF g]
    by (simp add: GetState_def g slot_of_def state_of_def split_beta split: option.split)
qed

lemma Exist_eq: "fst (Exist E a s) \<longleftrightarrow> (\<exists>obj. object_of E s a = Some obj \<and> \<not> o_deleted obj)"
proof -
  obtain r s1 where g: "getStateObject E a s = (r, s1)" by fastforce
  show ?thesis using getStateObject_fields(1) [OF g] by (auto simp: Exist_def g split: option.split)
qed

lemma SetState_object:
  assumes wf: "sdb_wf E s" and o: "object_of E s a = Some obj" "\<not> o_deleted obj"
  shows "\<exists>ob. object_of E (SetState E a k v s) = (object_of E s)(a := Some ob) \<and> \<not> o_deleted ob \<and>
    (\<forall>j. state_of E (sdb_snapDestructs s) ob j = (if j = k then v else state_of E (sdb_snapDestructs s) obj j)) \<and>
    sdb_snapDestructs (SetState E a k v s) = sdb_snapDestructs s"
proof -
  let ?D = "sdb_snapDestructs s"
  obtain r t where t: "getStateObject E a s = (r, t)" by fastforce
  note f = getStateObject_fields [OF t]
  have r: "r = Some obj" using f(1) o by simp
  have a: "o_address obj = a" and n: "o_fake obj = None" using wf o(1) by (simp_all add: sdb_wf_def obj_wf_def)
  let ?o = "snd (obj_GetState E ?D obj k)"
  have q: "o_address ?o = a" "o_fake ?o = None" "\<not> o_deleted ?o" "state_of E ?D ?o = state_of E ?D obj"
    using obj_equiv_state [of E ?D obj k] a n o(2) by (simp_all add: obj_equiv_def)
  have s: "SetState E a k v s = (if state_of E ?D obj k = v then SetStateObject ?o t
      else SetStateObject (setState k v ?o) (journal_append (storageChange a k (state_of E ?D obj k)) t))"
    by (simp add: SetState_def GetOrNewStateObject_def t r obj_SetState_def n f(3) split_beta state_of_def a)
  show ?thesis
  proof (cases "state_of E ?D obj k = v")
    case True
    then show ?thesis using s q f(2,3) by (intro exI [of _ ?o]) (auto simp: fun_eq_iff)
  next
    case False
    then show ?thesis using s q f(2,3) by (intro exI [of _ "setState k v ?o"]) (auto simp: fun_eq_iff state_of_setState)
  qed
qed

text \<open>C16: What is written is read back, and only that changes: a nonce set is the nonce read, and after \<open>SetState\<close> on an
  existing account its slot holds the value, while every other slot of every account reads as before,
  whether cached, pending, in the snapshot or in the trie.\<close>

theorem SetState_GetState:
  assumes "sdb_wf E s" "fst (Exist E a s)"
  shows "fst (GetState E b j (SetState E a k v s)) = (if b = a \<and> j = k then v else fst (GetState E b j s)) \<and>
    fst (GetNonce E b (SetNonce E a n s)) = (if b = a then n else fst (GetNonce E b s))"
proof -
  obtain obj where o: "object_of E s a = Some obj" "\<not> o_deleted obj" using assms(2) by (auto simp: Exist_eq)
  obtain ob where ob: "object_of E (SetState E a k v s) = (object_of E s)(a := Some ob)" "\<not> o_deleted ob"
    "\<forall>j. state_of E (sdb_snapDestructs s) ob j = (if j = k then v else state_of E (sdb_snapDestructs s) obj j)"
    "sdb_snapDestructs (SetState E a k v s) = sdb_snapDestructs s"
    using SetState_object [OF assms(1) o] by blast
  show ?thesis using nonce_changes [OF assms(1)] ob o by (simp add: GetState_eq slot_of_def)
qed

theorem SetState_GetState_witness:
  "fst (Exist toy_sdb 1 newStateDB) \<and> fst (GetState toy_sdb 1 3 (SetState toy_sdb 1 3 8 newStateDB)) = 8 \<and>
    fst (GetState toy_sdb 1 2 (SetState toy_sdb 1 3 8 newStateDB)) = 7"
proof -
  have e: "fst (Exist toy_sdb 1 newStateDB)" by code_simp
  have "fst (GetState toy_sdb 1 2 newStateDB) = 7" by code_simp
  then show ?thesis using SetState_GetState [OF toy_sdb_wf e, of 1 3 3 8 0] SetState_GetState [OF toy_sdb_wf e, of 1 2 3 8 0] e by simp
qed

text \<open>C19: An account that is created anew over an existing one does not start with empty storage when the processors of the
  block share a storage pool: the new object takes the values the pool holds for the address, before the
  check for destructed accounts is reached, so reading a slot returns the old value of the pool.\<close>

theorem recreated_account_reads_pool:
  assumes "sdb_wf E s" "d_shared E a k = Some v"
  shows "fst (GetState E a k (CreateAccount E a s)) = v"
proof -
  obtain n p s1 where c: "createObject E a s = ((n, p), s1)" by (metis prod.exhaust)
  note x = createObject_ext [OF assms(1) c]
  let ?n = "setNonce 0 (newObject E a \<lparr>acc_Nonce = 0, acc_Balance = 0, acc_Root = 0, acc_CodeHash = []\<rparr>)"
  have n: "n = ?n"
  proof -
    obtain r t where g: "getDeletedStateObject E a s = (r, t)" by fastforce
    show ?thesis using c by (simp add: createObject_def g Let_def)
  qed
  have st: "state_of E D (setBalance m n) k = v" "state_of E D n k = v" for D m
    using assms(2) by (simp_all add: state_of_eq committed_of_eq origin_of_eq n setBalance_def setNonce_def newObject_def Let_def)
  have a: "o_address n = a" using x(5) by (simp add: obj_wf_def)
  show ?thesis using x(3,4) st a
    by (cases p) (simp_all add: CreateAccount_def c GetState_eq slot_of_def)
qed

theorem recreated_account_reads_pool_witness:
  "fst (GetState (toy_sdb\<lparr>d_shared := \<lambda>a k. Some 5\<rparr>) 1 2 (CreateAccount (toy_sdb\<lparr>d_shared := \<lambda>a k. Some 5\<rparr>) 1 newStateDB)) = 5"
proof -
  let ?E = "toy_sdb\<lparr>d_shared := \<lambda>a k. Some 5\<rparr>"
  have "newObject ?E = newObject toy_sdb" by (intro ext) (simp add: newObject_def emptyCodeHash_def Let_def)
  moreover have "read_account ?E = read_account toy_sdb" by (intro ext) (simp add: read_account_def split: option.split)
  ultimately have "object_of ?E s a = object_of toy_sdb s a" for s a
    by (cases "fmlookup (sdb_objects s) a") (simp_all add: object_of_eq)
  then have "sdb_wf ?E newStateDB" using toy_sdb_wf by (simp add: sdb_wf_def)
  then show ?thesis by (rule recreated_account_reads_pool) simp
qed

section \<open>Finalising a transaction\<close>

definition removed :: "sdb_env \<Rightarrow> bool \<Rightarrow> StateDB \<Rightarrow> address \<Rightarrow> bool" where
  "removed E de s a \<longleftrightarrow>
    (case fmlookup (sdb_objects s) a of Some obj \<Rightarrow> o_suicided obj \<or> de \<and> obj_empty E obj | None \<Rightarrow> False)"

definition finalised :: "sdb_env \<Rightarrow> bool \<Rightarrow> StateObject \<Rightarrow> StateObject" where
  "finalised E de obj = (if o_suicided obj \<or> de \<and> obj_empty E obj then obj\<lparr>o_deleted := True\<rparr> else obj_finalise obj)"

lemma finalise_address_fields:
  "fmlookup (sdb_objects (finalise_address E de a s)) b =
    (if b = a then map_option (finalised E de) (fmlookup (sdb_objects s) a) else fmlookup (sdb_objects s) b)"
  by (simp add: finalise_address_def finalised_def Let_def split: option.split)

lemma finalise_address_destructs:
  assumes "\<forall>obj. fmlookup (sdb_objects s) a = Some obj \<longrightarrow> o_address obj = a"
  shows "b |\<in>| sdb_snapDestructs (finalise_address E de a s) \<longleftrightarrow>
    b |\<in>| sdb_snapDestructs s \<or> d_snap E \<and> b = a \<and> removed E de s a"
  using assms by (auto simp: finalise_address_def removed_def Let_def split: option.splits)

lemma finalise_fold:
  assumes "distinct as" "\<forall>a obj. fmlookup (sdb_objects s) a = Some obj \<longrightarrow> o_address obj = a"
  shows "fmlookup (sdb_objects (fold (finalise_address E de) as s)) b =
      (if b \<in> set as then map_option (finalised E de) (fmlookup (sdb_objects s) b) else fmlookup (sdb_objects s) b) \<and>
    (b |\<in>| sdb_snapDestructs (fold (finalise_address E de) as s) \<longleftrightarrow>
      b |\<in>| sdb_snapDestructs s \<or> d_snap E \<and> b \<in> set as \<and> removed E de s b)"
  using assms
proof (induction as arbitrary: s)
  case (Cons a as)
  let ?s = "finalise_address E de a s"
  have "\<forall>c obj. fmlookup (sdb_objects ?s) c = Some obj \<longrightarrow> o_address obj = c"
    using Cons.prems(2) by (auto simp: finalise_address_fields finalised_def obj_finalise_def)
  note IH = Cons.IH [OF _ this]
  have r: "b \<noteq> a \<Longrightarrow> removed E de ?s b = removed E de s b" by (simp add: removed_def finalise_address_fields)
  have d: "b |\<in>| sdb_snapDestructs ?s \<longleftrightarrow> b |\<in>| sdb_snapDestructs s \<or> d_snap E \<and> b = a \<and> removed E de s a"
    using finalise_address_destructs Cons.prems(2) by blast
  show ?case using IH Cons.prems(1) r d by (auto simp: finalise_address_fields)
qed simp

lemma state_of_finalise: "state_of E D (obj_finalise obj) = state_of E D obj"
proof
  fix k
  let ?o = "obj_finalise obj"
  have "fst (getTrie E ?o) = fst (getTrie E obj)" by (rule getTrie_cong) (simp_all add: obj_finalise_def)
  then have s: "stored_slot E D ?o k = stored_slot E D obj k" by (intro stored_slot_cong) (simp_all add: obj_finalise_def)
  have o: "origin_of E ?o k = origin_of E obj k" by (rule origin_of_cong) (simp_all add: obj_finalise_def)
  show "state_of E D ?o k = state_of E D obj k"
    unfolding state_of_eq committed_of_eq s o by (auto simp: obj_finalise_def split: option.split)
qed

lemma state_of_destructs: "(o_address obj |\<in>| D \<longleftrightarrow> o_address obj |\<in>| D') \<Longrightarrow> state_of E D obj k = state_of E D' obj k"
  by (simp only: state_of_eq committed_of_eq stored_slot_def)

lemma clear_fields [simp]:
  "sdb_objects (clearJournalAndRefund s) = sdb_objects s" "sdb_snapDestructs (clearJournalAndRefund s) = sdb_snapDestructs s"
  "sdb_entries (clearJournalAndRefund s) = []" "sdb_validRevisions (clearJournalAndRefund s) = []"
  by (simp_all add: clearJournalAndRefund_def Let_def)

text \<open>C14: Finalising a transaction removes exactly the accounts that self-destructed or, if asked to, are empty, among
  those touched: they no longer exist and are marked destructed for the snapshot. Every other account
  keeps its balance, nonce and storage. The journal and the open revisions are gone.\<close>

theorem Finalise_correct:
  assumes "sdb_wf E s"
  shows "fst (Exist E a (Finalise E de s)) = (fst (Exist E a s) \<and> \<not> (a |\<in>| fmdom (sdb_dirties s) \<and> removed E de s a)) \<and>
    (a |\<in>| fmdom (sdb_dirties s) \<and> removed E de s a \<and> d_snap E \<longrightarrow> a |\<in>| sdb_snapDestructs (Finalise E de s)) \<and>
    (\<not> (a |\<in>| fmdom (sdb_dirties s) \<and> removed E de s a) \<longrightarrow>
       fst (GetBalance E a (Finalise E de s)) = fst (GetBalance E a s) \<and> fst (GetNonce E a (Finalise E de s)) = fst (GetNonce E a s) \<and>
       fst (GetState E a k (Finalise E de s)) = fst (GetState E a k s)) \<and>
    sdb_entries (Finalise E de s) = [] \<and> sdb_validRevisions (Finalise E de s) = []"
proof -
  let ?as = "sorted_list_of_fset (fmdom (sdb_dirties s))" and ?f = "Finalise E de s"
  have as: "set ?as = fset (fmdom (sdb_dirties s))" "distinct ?as" by (simp_all add: sorted_list_of_fset.rep_eq)
  have wf: "\<forall>a obj. fmlookup (sdb_objects s) a = Some obj \<longrightarrow> o_address obj = a"
    using assms by (auto simp: sdb_wf_def obj_wf_def object_of_eq)
  note ff = finalise_fold [OF as(2) wf, of E de a]
  let ?in = "a |\<in>| fmdom (sdb_dirties s)"
  have l: "fmlookup (sdb_objects ?f) a = (if ?in then map_option (finalised E de) (fmlookup (sdb_objects s) a) else fmlookup (sdb_objects s) a)"
    and d: "a |\<in>| sdb_snapDestructs ?f \<longleftrightarrow> a |\<in>| sdb_snapDestructs s \<or> d_snap E \<and> ?in \<and> removed E de s a"
    using ff by (simp_all add: Finalise_def as(1))
  show ?thesis
  proof (cases "fmlookup (sdb_objects s) a")
    case None
    then have o: "object_of E ?f a = object_of E s a" and nr: "\<not> removed E de s a"
      using l by (simp_all add: object_of_eq removed_def)
    have "o_address obj = a" if "object_of E s a = Some obj" for obj using assms that by (simp add: sdb_wf_def obj_wf_def)
    then have "slot_of E (sdb_snapDestructs ?f) (object_of E s a) k = slot_of E (sdb_snapDestructs s) (object_of E s a) k"
      using d nr by (auto simp: slot_of_def split: option.split intro!: state_of_destructs)
    then show ?thesis using nr o
      by (simp add: Exist_eq GetBalance_eq GetNonce_eq GetState_eq) (simp add: Finalise_def)
  next
    case (Some obj)
    have a: "o_address obj = a" using wf Some by blast
    have os: "object_of E s a = Some obj" using Some by (simp add: object_of_eq)
    have rm: "removed E de s a \<longleftrightarrow> o_suicided obj \<or> de \<and> obj_empty E obj" using Some by (simp add: removed_def)
    have of: "object_of E ?f a = Some (if ?in then finalised E de obj else obj)" using l Some by (simp add: object_of_eq)
    have e: "sdb_entries ?f = []" "sdb_validRevisions ?f = []" by (simp_all add: Finalise_def)
    show ?thesis
    proof (cases "?in \<and> removed E de s a")
      case True
      then show ?thesis using os of rm d e by (auto simp: Exist_eq finalised_def)
    next
      case False
      then have "(if ?in then finalised E de obj else obj) = (if ?in then obj_finalise obj else obj)" using rm by (auto simp: finalised_def)
      moreover have "state_of E (sdb_snapDestructs ?f) obj k = state_of E (sdb_snapDestructs s) obj k"
        using d False a by (intro state_of_destructs) auto
      moreover have "o_data (obj_finalise obj) = o_data obj" "o_deleted (obj_finalise obj) = o_deleted obj" by (simp_all add: obj_finalise_def)
      ultimately show ?thesis using False os of e
        by (simp add: Exist_eq GetBalance_eq GetNonce_eq GetState_eq slot_of_def balance_of_def nonce_of_def state_of_finalise)
    qed
  qed
qed

theorem Finalise_correct_witness:
  "\<not> fst (Exist toy_sdb 1 (Finalise toy_sdb True (snd (Suicide toy_sdb 1 newStateDB)))) \<and>
    1 |\<in>| sdb_snapDestructs (Finalise toy_sdb True (snd (Suicide toy_sdb 1 newStateDB)))"
proof -
  let ?s = "snd (Suicide toy_sdb 1 newStateDB)"
  have "sdb_wf toy_sdb ?s" by (rule ext_wf [OF Suicide_ext [OF toy_sdb_wf]])
  moreover have "(1 |\<in>| fmdom (sdb_dirties ?s)) = True" "removed toy_sdb True ?s 1 = True" "d_snap toy_sdb = True" by code_simp+
  ultimately show ?thesis using Finalise_correct [of toy_sdb ?s 1 True] by simp
qed

section \<open>Well-formed states\<close>

lemma finalise_list: "the_list (Finalise E de s) = the_list s"
proof -
  have "sdb_accessList (finalise_address E de a t) = sdb_accessList t" for a t
    by (simp add: finalise_address_def Let_def split: option.split)
  then have "sdb_accessList (fold (finalise_address E de) as t) = sdb_accessList t" for as t
    by (induction as arbitrary: t) simp_all
  then show ?thesis by (simp add: Finalise_def clearJournalAndRefund_def the_list_def Let_def)
qed

lemma Finalise_wf:
  assumes "sdb_wf E s"
  shows "sdb_wf E (Finalise E de s)"
proof -
  let ?as = "sorted_list_of_fset (fmdom (sdb_dirties s))"
  have as: "distinct ?as" by (simp add: sorted_list_of_fset.rep_eq)
  have wf: "obj_wf a obj" if "fmlookup (sdb_objects s) a = Some obj" for a obj
    using assms that by (auto simp: sdb_wf_def object_of_eq)
  then have "\<forall>a obj. fmlookup (sdb_objects s) a = Some obj \<longrightarrow> o_address obj = a" by (simp add: obj_wf_def)
  note ff = finalise_fold [OF as this, of E de, THEN conjunct1]
  have fin: "obj_wf a (finalised E de obj)" if "obj_wf a obj" for a obj
    using that by (simp add: obj_wf_def finalised_def obj_finalise_def)
  have "obj_wf a obj" if "object_of E (Finalise E de s) a = Some obj" for a obj
  proof (cases "fmlookup (sdb_objects s) a")
    case None
    then have "fmlookup (sdb_objects (Finalise E de s)) a = None" using ff [of a] by (simp add: Finalise_def)
    then have "object_of E s a = Some obj" using that None by (simp add: object_of_eq)
    then show ?thesis using assms by (simp add: sdb_wf_def)
  next
    case (Some o0)
    then show ?thesis using that ff [of a] wf [OF Some] fin by (auto simp: Finalise_def object_of_eq split: if_splits)
  qed
  then show ?thesis using assms by (simp add: sdb_wf_def finalise_list)
qed

text \<open>C18: Every trace of operations keeps the state well-formed: each account object is filed under its own
  address with a 32-byte code hash, the access list's indices stay in range, the open revisions have identifiers below the next one and
  point into the journal, and what the journal held before the trace is untouched. Finalising keeps it too.\<close>

theorem sdb_run_well_formed:
  assumes "sdb_wf E s" "Snapshot s = (rev0, t)" "sdb_run E ops t = Ok u" "\<forall>r. OpRevert r \<in> set ops \<longrightarrow> rev0 < r"
    "\<forall>r \<in> set (sdb_validRevisions s). fst r < rev0 \<and> snd r \<le> length (sdb_entries s)"
  shows "sdb_wf E u \<and> sdb_wf E (Finalise E de u) \<and> take (length (sdb_entries s)) (sdb_entries u) = sdb_entries s \<and>
    (\<forall>r \<in> set (sdb_validRevisions u). fst r < sdb_nextRevisionId u \<and> snd r \<le> length (sdb_entries u))"
proof -
  have older: "\<forall>r \<in> set (sdb_validRevisions s). fst r < rev0" using assms(5) by blast
  have since: "since_snapshot E s rev0 u" by (rule since_run [OF since_start [OF assms(1,2)] assms(3,4) older])
  then have "sdb_wf E u" by (rule since_snapshot_wf)
  moreover have "take (length (sdb_entries s)) (sdb_entries u) = sdb_entries s \<and>
    (\<forall>r \<in> set (sdb_validRevisions u). fst r < sdb_nextRevisionId u \<and> snd r \<le> length (sdb_entries u))"
    using since assms(5) by (fastforce simp: since_snapshot_def)
  ultimately show ?thesis using Finalise_wf by blast
qed

theorem sdb_run_well_formed_witness:
  "\<exists>u. sdb_run toy_sdb [OpSetState 1 7 9, OpSnapshot, OpSuicide 1, OpRevert 1] (snd (Snapshot newStateDB)) = Ok u \<and>
    sdb_wf toy_sdb u \<and> sdb_wf toy_sdb (Finalise toy_sdb True u)"
proof -
  let ?ops = "[OpSetState 1 7 9, OpSnapshot, OpSuicide 1, OpRevert 1]" and ?t = "snd (Snapshot newStateDB)"
  have "(case sdb_run toy_sdb ?ops ?t of Ok u \<Rightarrow> True | _ \<Rightarrow> False) = True" by code_simp
  then obtain u where u: "sdb_run toy_sdb ?ops ?t = Ok u" by (cases "sdb_run toy_sdb ?ops ?t") auto
  have "Snapshot newStateDB = (0, ?t)" by (simp add: Snapshot_def newStateDB_def)
  from sdb_run_well_formed [OF toy_sdb_wf this u, of True] show ?thesis using u by (auto simp: newStateDB_def)
qed

end
