(* ===== verification/Parlia_System.thy ===== *)
theory Parlia_System
  imports Parlia_Engine StateDB_Storage
begin

text \<open>
  The system transactions of \<open>consensus/parlia/parlia.go\<close>: initialising the system contracts, slashing the validator that
  missed its turn, registering contract owners and distributing the collected fees, as the block's
  producer makes them in \<open>FinalizeAndAssemble\<close> and every other node replays them in \<open>Finalize\<close>.
  \<open>sys\<close> holds what the functions are handed as pointers: the state, the block's transactions and
  receipts, the system transactions received with the block and the gas used. The virtual machine's
  call, the ABI packing, the signing wallet, the bloom filter and the computation of the state root are the
  fields of \<open>sys_env\<close>, for the block at hand.
\<close>

section \<open>Messages and receipts\<close>

record callmsg =
  c_From :: address
  c_To :: address
  c_Gas :: u64
  c_GasPrice :: int
  c_Value :: int
  c_Data :: bytes

record Receipt =
  rc_Type :: u8
  rc_PostState :: bytes
  rc_Status :: u64
  rc_CumulativeGasUsed :: u64
  rc_Bloom :: bytes
  rc_Logs :: "Log list"
  rc_TxHash :: hash
  rc_ContractAddress :: address
  rc_GasUsed :: u64
  rc_BlockHash :: hash
  rc_BlockNumber :: "int option"
  rc_TransactionIndex :: u64

definition NewReceipt :: "bytes \<Rightarrow> bool \<Rightarrow> u64 \<Rightarrow> Receipt" where
  "NewReceipt root failed cumulativeGasUsed =
    \<lparr>rc_Type = 0, rc_PostState = root, rc_Status = (if failed then 0 else 1), rc_CumulativeGasUsed = cumulativeGasUsed, rc_Bloom = replicate 256 0,
     rc_Logs = [], rc_TxHash = 0, rc_ContractAddress = 0, rc_GasUsed = 0, rc_BlockHash = 0, rc_BlockNumber = None,
     rc_TransactionIndex = 0\<rparr>"

datatype sys_error = PackFailed | SysErr perr

text \<open>\<open>y_call\<close> is \<open>EVM.Call\<close> for a message: whether it succeeded, the gas left and the state after.\<close>

record sys_env =
  y_sdb :: sdb_env
  y_call :: "callmsg \<Rightarrow> StateDB \<Rightarrow> (bool \<times> u64) \<times> StateDB"
  y_root :: "bool \<Rightarrow> StateDB \<Rightarrow> hash \<times> StateDB"
  y_bloom :: "Log list \<Rightarrow> bytes"
  y_signTx :: "address \<Rightarrow> Transaction \<Rightarrow> int option \<Rightarrow> Transaction option"
  y_packSlash :: "address \<Rightarrow> bytes option"
  y_packInit :: "bytes option"
  y_packDeposit :: "address \<Rightarrow> address list \<Rightarrow> bytes option"
  y_packPushOwner :: "address \<Rightarrow> address \<Rightarrow> bytes option"

record sys =
  y_state :: StateDB
  y_txs :: "Transaction list"
  y_receipts :: "Receipt list"
  y_received :: "Transaction option list option"
  y_usedGas :: u64

type_synonym sys_op = "sys \<Rightarrow> sys_error option \<times> sys"

section \<open>System contracts\<close>

definition ValidatorContract :: address where "ValidatorContract = 0x1000"
definition SlashContract :: address where "SlashContract = 0x1001"
definition SystemRewardContract :: address where "SystemRewardContract = 0x1002"
definition LightClientContract :: address where "LightClientContract = 0x1003"
definition TokenHubContract :: address where "TokenHubContract = 0x1004"
definition RelayerIncentivizeContract :: address where "RelayerIncentivizeContract = 0x1005"
definition RelayerHubContract :: address where "RelayerHubContract = 0x1006"
definition GovHubContract :: address where "GovHubContract = 0x1007"
definition CrossChainContract :: address where "CrossChainContract = 0x2000"


definition systemContracts :: "address list" where
  "systemContracts = [ValidatorContract, SlashContract, SystemRewardContract, LightClientContract, RelayerHubContract,
    GovHubContract, TokenHubContract, RelayerIncentivizeContract, CrossChainContract]"

definition isToSystemContract :: "address \<Rightarrow> bool" where
  "isToSystemContract to \<longleftrightarrow> to \<in> set systemContracts"

definition p_signer :: "parlia \<Rightarrow> signer" where
  "p_signer p = NewEIP155Signer (ChainID (p_chainConfig p))"

definition IsSystemTransaction :: "parlia \<Rightarrow> Transaction \<Rightarrow> header \<Rightarrow> (perr, bool) res" where
  "IsSystemTransaction p tx h =
    (case tx_To tx of
       None \<Rightarrow> Ok False
     | Some to \<Rightarrow>
         (case signer_Sender (e_crypto (p_env p)) (p_signer p) tx of
            Ok sender \<Rightarrow> Ok (sender = h_Coinbase h \<and> isToSystemContract to \<and> tx_GasPrice tx = 0)
          | Err e \<Rightarrow> Err UnAuthorizedTransaction
          | Panic \<Rightarrow> Panic))"

definition IsSystemContract :: "address option \<Rightarrow> bool" where
  "IsSystemContract to = (case to of None \<Rightarrow> False | Some a \<Rightarrow> isToSystemContract a)"

definition getSystemMessage :: "address \<Rightarrow> address \<Rightarrow> bytes \<Rightarrow> int \<Rightarrow> callmsg" where
  "getSystemMessage from toAddress data val =
    \<lparr>c_From = from, c_To = toAddress, c_Gas = (- 1) div 2, c_GasPrice = 0, c_Value = val, c_Data = data\<rparr>"

section \<open>Applying a system transaction\<close>

definition applyMessage :: "sys_env \<Rightarrow> callmsg \<Rightarrow> StateDB \<Rightarrow> u64 option \<times> StateDB" where
  "applyMessage Y msg s =
    (let ((ok, returnGas), s1) = y_call Y msg s in (if ok then Some (c_Gas msg - returnGas) else None, s1))"

text \<open>The producer signs the expected transaction; everyone else takes the next one received, which must
  hash to the same.\<close>

definition actual_tx ::
  "parlia \<Rightarrow> sys_env \<Rightarrow> bool \<Rightarrow> callmsg \<Rightarrow> Transaction \<Rightarrow> Transaction option list option \<Rightarrow>
    sys_error + Transaction \<times> Transaction option list option" where
  "actual_tx p Y mining msg expected received =
    (if c_From msg = p_val p \<and> mining then
       (case y_signTx Y (c_From msg) expected (ChainID (p_chainConfig p)) of
          None \<Rightarrow> Inl (SysErr SignTxFailed) | Some tx \<Rightarrow> Inr (tx, received))
     else
       (case received of
          Some (Some actual # rest) \<Rightarrow>
            (if signer_Hash (e_crypto (p_env p)) (p_signer p) actual \<noteq> signer_Hash (e_crypto (p_env p)) (p_signer p) expected
             then Inl (SysErr UnexpectedTransaction) else Inr (actual, Some rest))
        | _ \<Rightarrow> Inl (SysErr NoActualTransaction)))"

definition system_receipt :: "parlia \<Rightarrow> sys_env \<Rightarrow> header \<Rightarrow> Transaction \<Rightarrow> bytes \<Rightarrow> u64 \<Rightarrow> u64 \<Rightarrow> StateDB \<Rightarrow> Receipt" where
  "system_receipt p Y h tx root usedGas gasUsed s =
    (let th = tx_Hash (e_crypto (p_env p)) tx; logs = GetLogs th s
     in (NewReceipt root False usedGas)\<lparr>rc_TxHash := th, rc_GasUsed := gasUsed, rc_Logs := logs, rc_Bloom := y_bloom Y logs,
          rc_BlockHash := sdb_bhash s, rc_BlockNumber := h_Number h, rc_TransactionIndex := of_int (sdb_txIndex s)\<rparr>)"

definition seal_tx :: "parlia \<Rightarrow> sys_env \<Rightarrow> header \<Rightarrow> StateDB \<Rightarrow> bytes \<times> StateDB" where
  "seal_tx p Y h s =
    (if IsByzantium (p_chainConfig p) (h_Number h) then ([], Finalise (y_sdb Y) True s)
     else let (r, s1) = y_root Y (IsEIP158 (p_chainConfig p) (h_Number h)) s in (hash_bytes r, s1))"

definition applyTransaction :: "parlia \<Rightarrow> sys_env \<Rightarrow> header \<Rightarrow> bool \<Rightarrow> callmsg \<Rightarrow> sys_op" where
  "applyTransaction p Y h mining msg y =
    (let (nonce, s1) = GetNonce (y_sdb Y) (c_From msg) (y_state y);
         expected = NewTransaction nonce (c_To msg) (c_Value msg) (c_Gas msg) (c_GasPrice msg) (c_Data msg)
     in case actual_tx p Y mining msg expected (y_received y) of
          Inl e \<Rightarrow> (Some e, y\<lparr>y_state := s1\<rparr>)
        | Inr (tx, received) \<Rightarrow>
            (let s2 = Prepare_state (tx_Hash (e_crypto (p_env p)) tx) 0 (int (length (y_txs y))) s1;
                 (r, s3) = applyMessage Y msg s2
             in case r of
                  None \<Rightarrow> (Some (SysErr CallFailed), y\<lparr>y_state := s3, y_received := received\<rparr>)
                | Some gasUsed \<Rightarrow>
                    (let (root, s4) = seal_tx p Y h s3; usedGas = y_usedGas y + gasUsed
                     in (None, \<lparr>y_state = SetNonce (y_sdb Y) (c_From msg) (nonce + 1) s4, y_txs = y_txs y @ [tx],
                                y_receipts = y_receipts y @ [system_receipt p Y h tx root usedGas gasUsed s4],
                                y_received = received, y_usedGas = usedGas\<rparr>))))"

section \<open>The system transactions of a block\<close>

definition system_call :: "parlia \<Rightarrow> sys_env \<Rightarrow> header \<Rightarrow> bool \<Rightarrow> address \<Rightarrow> bytes option \<Rightarrow> int \<Rightarrow> sys_op" where
  "system_call p Y h mining to packed amount y =
    (case packed of
       None \<Rightarrow> (Some PackFailed, y)
     | Some data \<Rightarrow> applyTransaction p Y h mining (getSystemMessage (h_Coinbase h) to data amount) y)"




definition distributeToSystem :: "parlia \<Rightarrow> sys_env \<Rightarrow> header \<Rightarrow> bool \<Rightarrow> int \<Rightarrow> sys_op" where
  "distributeToSystem p Y h mining amount = system_call p Y h mining SystemRewardContract (Some []) amount"









section \<open>Finalising and assembling a block\<close>







section \<open>Replaying what the producer did\<close>























section \<open>How many owners are registered\<close>






section \<open>An example\<close>











end
