(* ===== verification/Trie_Encoding.thy ===== *)
theory Trie_Encoding
  imports Prelude
begin

text \<open>
  The three encodings of trie keys, \<open>trie/encoding.go\<close>: key bytes, one byte per nibble with an optional
  terminator, and the compact encoding of nodes on disk. Out-of-range accesses are run-time panics.
\<close>

section \<open>Encodings\<close>

definition hasTerm :: "bytes \<Rightarrow> bool" where
  "hasTerm s = (length s > 0 \<and> s ! (length s - 1) = 16)"

fun decodeNibbles :: "bytes \<Rightarrow> (unit, bytes) res" where
  "decodeNibbles [] = Ok []"
| "decodeNibbles [n] = Panic"
| "decodeNibbles (n0 # n1 # ns) = map_res (\<lambda>bs. (push_bit 4 n0 OR n1) # bs) (decodeNibbles ns)"

definition hexToCompact :: "bytes \<Rightarrow> (unit, bytes) res" where
  "hexToCompact hex0 =
    (let (terminator, hex) = (if hasTerm hex0 then (1 :: u8, take (length hex0 - 1) hex0) else (0, hex0));
         flag = push_bit 5 terminator
     in if odd (length hex) then
          map_res (\<lambda>bs. (flag OR push_bit 4 1 OR hex ! 0) # bs) (decodeNibbles (drop 1 hex))
        else map_res (\<lambda>bs. flag # bs) (decodeNibbles hex))"

text \<open>The in-place variant: the loop writes byte \<open>bi\<close> after reading the nibbles at \<open>ni\<close>, which is never behind.\<close>

function compact_loop :: "nat \<Rightarrow> nat \<Rightarrow> nat \<Rightarrow> bytes \<Rightarrow> bytes" where
  "compact_loop hexLen bi ni hex =
    (if ni < hexLen then compact_loop hexLen (bi + 1) (ni + 2) (hex[bi := push_bit 4 (hex ! ni) OR hex ! (ni + 1)]) else hex)"
  by pat_completeness auto
termination by (relation "measure (\<lambda>(hexLen, bi, ni, hex). hexLen - ni)") auto

declare compact_loop.simps [simp del]

definition hexToCompactInPlace :: "bytes \<Rightarrow> (unit, nat \<times> bytes) res" where
  "hexToCompactInPlace hex =
    (let term = (length hex > 0 \<and> hex ! (length hex - 1) = 16);
         firstByte = (if term then push_bit 5 1 else 0 :: u8);
         hexLen = (if term then length hex - 1 else length hex);
         isodd = odd hexLen;
         firstByte' = (if isodd then firstByte OR push_bit 4 1 OR hex ! 0 else firstByte);
         hex' = compact_loop hexLen 1 (if isodd then 1 else 0) hex
     in if hex = [] then Panic else Ok (hexLen div 2 + 1, hex'[0 := firstByte']))"

definition keybytesToHex :: "bytes \<Rightarrow> bytes" where
  "keybytesToHex str = concat (map (\<lambda>b. [b div 16, b mod 16]) str) @ [16]"

definition compactToHex :: "bytes \<Rightarrow> bytes" where
  "compactToHex compact =
    (if length compact = 0 then compact
     else
       (let base = keybytesToHex compact;
            base' = (if base ! 0 < 2 then take (length base - 1) base else base);
            chop = 2 - (base' ! 0 AND 1)
        in drop (unat chop) base'))"

definition hexToKeybytes :: "bytes \<Rightarrow> (unit, bytes) res" where
  "hexToKeybytes hex0 =
    (let hex = (if hasTerm hex0 then take (length hex0 - 1) hex0 else hex0)
     in if odd (length hex) then Panic else decodeNibbles hex)"

fun prefixLen :: "bytes \<Rightarrow> bytes \<Rightarrow> nat" where
  "prefixLen (x # a) (y # b) = (if x = y then Suc (prefixLen a b) else 0)"
| "prefixLen _ _ = 0"

section \<open>Nibbles\<close>

definition nibble :: "u8 \<Rightarrow> bool" where
  "nibble n \<longleftrightarrow> n < 16"

definition nibbles :: "bytes \<Rightarrow> bytes" where
  "nibbles bs = concat (map (\<lambda>b. [b div 16, b mod 16]) bs)"

lemma nibbles_simps [simp]: "nibbles [] = []" "nibbles (b # bs) = b div 16 # b mod 16 # nibbles bs"
  by (simp_all add: nibbles_def)

lemma join_split: "push_bit 4 (b div 16) OR (b mod 16) = (b :: u8)"
proof -
  have "b div 16 = drop_bit 4 b" "b mod 16 = take_bit 4 b"
    by (simp_all add: drop_bit_eq_div take_bit_eq_mod)
  then show ?thesis using bits_ident [of 4 b] by (simp add: disjunctive_add [symmetric] bit_simps)
qed

lemma nibble_div_mod: "nibble n \<Longrightarrow> n div 16 = 0" "nibble n \<Longrightarrow> n mod 16 = n"
  by (simp_all add: nibble_def word_less_nat_alt word_unat_eq_iff unat_div unat_mod)

lemma split_join:
  assumes "nibble m" "nibble n"
  shows "(push_bit 4 m OR n) div 16 = m" "(push_bit 4 m OR n) mod 16 = n"
proof -
  have "(push_bit 4 m OR n) mod 16 = take_bit 4 (push_bit 4 m OR n)" by (simp add: take_bit_eq_mod)
  also have "\<dots> = take_bit 4 n" by (simp add: take_bit_push_bit)
  also have "\<dots> = n" using nibble_div_mod(2) [OF assms(2)] by (simp add: take_bit_eq_mod)
  finally show "(push_bit 4 m OR n) mod 16 = n" .
  have "unat (push_bit 4 m) = unat m * 16"
    using assms(1) by (simp add: push_bit_eq_mult nibble_def word_less_nat_alt unat_word_ariths)
  then have m: "push_bit 4 m div 16 = m" by (simp add: word_unat_eq_iff unat_div)
  have "(push_bit 4 m OR n) div 16 = drop_bit 4 (push_bit 4 m OR n)" by (simp add: drop_bit_eq_div)
  also have "\<dots> = drop_bit 4 (push_bit 4 m) OR drop_bit 4 n" by simp
  also have "\<dots> = push_bit 4 m div 16 OR n div 16" by (simp only: drop_bit_eq_div) simp
  also have "\<dots> = m" using m nibble_div_mod(1) [OF assms(2)] by simp
  finally show "(push_bit 4 m OR n) div 16 = m" .
qed

lemma nibble_halves [simp]: "nibble (b div 16)" "nibble (b mod 16)"
proof -
  show "nibble (b mod 16)" by (simp add: nibble_def word_less_nat_alt unat_mod)
  have "unat b div 16 < 16" using unat_u8_lt [of b] by linarith
  then show "nibble (b div 16)" by (simp add: nibble_def word_less_nat_alt unat_div)
qed

lemma decodeNibbles_nibbles [simp]: "decodeNibbles (nibbles bs) = Ok bs"
  by (induction bs) (simp_all add: join_split)

lemma decodeNibbles_Ok:
  assumes "even (length ns)" "\<forall>n \<in> set ns. nibble n"
  shows "\<exists>bs. decodeNibbles ns = Ok bs \<and> nibbles bs = ns"
  using assms by (induction ns rule: decodeNibbles.induct) (auto simp: split_join)

lemma nibbles_nibble: "n \<in> set (nibbles bs) \<Longrightarrow> nibble n"
  by (induction bs) auto

lemma length_nibbles [simp]: "length (nibbles bs) = 2 * length bs"
  by (induction bs) auto

lemma keybytesToHex_eq: "keybytesToHex str = nibbles str @ [16]"
  by (simp add: keybytesToHex_def nibbles_def)

lemma nibbles_inject: "nibbles a = nibbles b \<Longrightarrow> a = b"
  by (metis decodeNibbles_nibbles res.inject(1))

lemma keybytesToHex_inject [simp]: "keybytesToHex a = keybytesToHex b \<longleftrightarrow> a = b"
  using nibbles_inject by (auto simp: keybytesToHex_eq)

text \<open>A hex key: nibbles, then possibly the terminator.\<close>

definition hex_key :: "bytes \<Rightarrow> bool" where
  "hex_key h \<longleftrightarrow> (\<exists>ns. (\<forall>n \<in> set ns. nibble n) \<and> (h = ns \<or> h = ns @ [16]))"

lemma nibble_not_16: "nibble n \<Longrightarrow> n \<noteq> 16"
  by (auto simp: nibble_def)

lemma hasTerm_snoc [simp]: "hasTerm (ns @ [16])"
  by (simp add: hasTerm_def)

lemma hasTerm_nibbles: "\<forall>n \<in> set ns. nibble n \<Longrightarrow> \<not> hasTerm ns"
  using nibble_not_16 by (auto simp: hasTerm_def)

text \<open>The flag nibble of the compact encoding.\<close>

lemma compactToHex_Cons:
  "compactToHex (f # bs) =
    drop (unat (2 - ((f div 16) AND 1))) (nibbles (f # bs) @ (if f div 16 < 2 then [] else [16]))"
  by (simp add: compactToHex_def keybytesToHex_eq Let_def nth_append)

lemma compact_flags:
  assumes "nibble n"
  shows "(push_bit 4 1 OR n) div 16 = 1" "(push_bit 5 1 OR push_bit 4 1 OR n) div 16 = (3 :: u8)"
    "(push_bit 4 1 OR n) mod 16 = n" "(push_bit 5 1 OR push_bit 4 1 OR n) mod 16 = n"
proof -
  have one: "nibble 1" and three: "nibble 3" by (simp_all add: nibble_def)
  have p: "push_bit 5 1 OR push_bit 4 1 OR n = push_bit 4 3 OR n" by (simp add: or.assoc [symmetric])
  show "(push_bit 4 1 OR n) div 16 = 1" "(push_bit 4 1 OR n) mod 16 = n"
    using split_join [OF one assms] by simp_all
  show "(push_bit 5 1 OR push_bit 4 1 OR n) div 16 = (3 :: u8)" "(push_bit 5 1 OR push_bit 4 1 OR n) mod 16 = n"
    unfolding p using split_join [OF three assms] by simp_all
qed

lemma hexToCompact_correct:
  assumes ns: "\<forall>n \<in> set ns. nibble n" and h: "h = (if t then ns @ [16] else ns)"
  shows "\<exists>c. hexToCompact h = Ok c \<and> compactToHex c = h"
proof -
  have hex: "(if hasTerm h then (1 :: u8, take (length h - 1) h) else (0, h)) = (if t then 1 else 0, ns)"
    using hasTerm_nibbles [OF ns] by (simp add: h)
  show ?thesis
  proof (cases "odd (length ns)")
    case True
    then obtain n ms where n: "ns = n # ms" by (cases ns) auto
    then obtain bs where bs: "decodeNibbles ms = Ok bs" "nibbles bs = ms"
      using decodeNibbles_Ok [of ms] True ns by auto
    have "nibble n" using ns n by simp
    note f = compact_flags [OF this, simplified]
    show ?thesis using True bs n unfolding hexToCompact_def hex
      by (cases t) (simp_all add: compactToHex_Cons f h)
  next
    case False
    then obtain bs where bs: "decodeNibbles ns = Ok bs" "nibbles bs = ns" using decodeNibbles_Ok [of ns] ns by auto
    then show ?thesis using False unfolding hexToCompact_def hex by (cases t) (simp_all add: compactToHex_Cons h)
  qed
qed

text \<open>C39: Converting keys between the encodings loses nothing: a hex key, with or without terminator, survives the
  conversion to the compact form and back, and key bytes survive the conversion to hex and back. Neither
  conversion panics on such keys.\<close>

theorem key_encodings_roundtrip:
  assumes "hex_key h"
  shows "(\<exists>c. hexToCompact h = Ok c \<and> compactToHex c = h) \<and> hexToKeybytes (keybytesToHex k) = Ok k"
proof -
  obtain ns where ns: "\<forall>n \<in> set ns. nibble n" "h = ns \<or> h = ns @ [16]" using assms by (auto simp: hex_key_def)
  then have "\<exists>c. hexToCompact h = Ok c \<and> compactToHex c = h"
    using hexToCompact_correct [OF ns(1), of h True] hexToCompact_correct [OF ns(1), of h False] by auto
  moreover have "hexToKeybytes (keybytesToHex k) = Ok k"
    by (simp add: hexToKeybytes_def keybytesToHex_eq)
  ultimately show ?thesis by blast
qed

theorem key_encodings_roundtrip_witness:
  "hex_key [1, 2, 3, 16] \<and> hexToCompact [1, 2, 3, 16] = Ok [0x31, 0x23] \<and> compactToHex [0x31, 0x23] = [1, 2, 3, 16]"
proof -
  have h: "hex_key [1, 2, 3, 16]"
    unfolding hex_key_def by (rule exI [of _ "[1, 2, 3]"]) (simp add: nibble_def)
  have "hexToCompact [1, 2, 3, 16] = Ok [0x31, 0x23]" by code_simp
  then show ?thesis using key_encodings_roundtrip [OF h, of "[]"] h by simp
qed

section \<open>The in-place variant\<close>

lemma compact_loop_correct:
  assumes "decodeNibbles (drop ni (take hexLen hex)) = Ok bs" "bi \<le> ni + 1" "hexLen \<le> length hex" "bi + length bs \<le> length hex"
  shows "take (bi + length bs) (compact_loop hexLen bi ni hex) = take bi hex @ bs"
  using assms
proof (induction bs arbitrary: bi ni hex)
  case Nil
  then have "drop ni (take hexLen hex) = []" by (cases "drop ni (take hexLen hex)" rule: decodeNibbles.cases) auto
  then have "\<not> ni < hexLen" using Nil by simp
  then show ?case by (simp add: compact_loop.simps)
next
  case (Cons b bs)
  let ?ns = "drop ni (take hexLen hex)"
  let ?hex = "hex[bi := b]"
  obtain n0 n1 ns where n: "?ns = n0 # n1 # ns" "decodeNibbles ns = Ok bs" "b = push_bit 4 n0 OR n1"
    using Cons.prems(1) by (cases ?ns rule: decodeNibbles.cases) auto
  have len: "ni + 1 < hexLen"
  proof -
    have "length ?ns \<ge> 2" using n(1) by simp
    then show ?thesis using Cons.prems(3) by simp
  qed
  have "hex ! ni = ?ns ! 0" "hex ! (ni + 1) = ?ns ! 1" using len Cons.prems(3) by simp_all
  then have b: "hex ! ni = n0" "hex ! (ni + 1) = n1" using n(1) by simp_all
  have "drop (ni + 2) (take hexLen ?hex) = drop 2 ?ns"
    using Cons.prems(2) by (simp add: take_update_swap drop_update_swap add.commute)
  then have ns: "decodeNibbles (drop (ni + 2) (take hexLen ?hex)) = Ok bs" using n by simp
  have "take (bi + 1 + length bs) (compact_loop hexLen (bi + 1) (ni + 2) ?hex) = take (bi + 1) ?hex @ bs"
    using Cons.IH [OF ns, of "bi + 1"] Cons.prems(2-4) by simp
  then show ?case using len Cons.prems(4) n(3) b by (subst compact_loop.simps) (simp add: take_Suc_conv_app_nth)
qed


end
