(* ===== verification/Trie.thy ===== *)
theory Trie
  imports Trie_Encoding Key_Value
begin

text \<open>
  The Merkle-Patricia trie, \<open>trie/trie.go\<close>: lookup, insertion and deletion on the node structure, with
  nodes that are still on disk loaded on the way. The node database is a parameter from hashes to
  nodes; a missing node is an error. The hash and dirty flags cached in a node, which only hashing and
  committing use, are not part of the model. Recursion through the database is bounded by fuel, twice
  the length of the key: every step either consumes a nibble or replaces a hash by the node it
  stands for, which is not a hash itself.
\<close>

section \<open>Nodes and operations\<close>

datatype node = NilNode | ValueNode bytes | ShortNode bytes node | FullNode "node list" | HashNode bytes

datatype trie_error = MissingNodeError hash bytes | OutOfFuel

type_synonym tdb = "hash \<Rightarrow> node option"

definition resolveHash :: "tdb \<Rightarrow> bytes \<Rightarrow> bytes \<Rightarrow> (trie_error, node) res" where
  "resolveHash db n prefix0 =
    (case db (BytesToHash n) of Some nd \<Rightarrow> Ok nd | None \<Rightarrow> Err (MissingNodeError (BytesToHash n) prefix0))"

definition resolve :: "tdb \<Rightarrow> node \<Rightarrow> bytes \<Rightarrow> (trie_error, node) res" where
  "resolve db n prefix0 = (case n of HashNode h \<Rightarrow> resolveHash db h prefix0 | _ \<Rightarrow> Ok n)"

definition child :: "node list \<Rightarrow> u8 \<Rightarrow> (trie_error, node) res" where
  "child cs i = (if unat i < length cs then Ok (cs ! unat i) else Panic)"

fun tryGet :: "nat \<Rightarrow> tdb \<Rightarrow> node \<Rightarrow> bytes \<Rightarrow> nat \<Rightarrow> (trie_error, bytes option \<times> node \<times> bool) res" where
  "tryGet 0 db n key pos = Err OutOfFuel"
| "tryGet (Suc f) db NilNode key pos = Ok (None, NilNode, False)"
| "tryGet (Suc f) db (ValueNode v) key pos = Ok (Some v, ValueNode v, False)"
| "tryGet (Suc f) db (ShortNode k val) key pos =
    (if length key - pos < length k \<or> k \<noteq> take (length k) (drop pos key) then Ok (None, ShortNode k val, False)
     else map_res (\<lambda>(v, nn, r). (v, ShortNode k (if r then nn else val), r)) (tryGet f db val key (pos + length k)))"
| "tryGet (Suc f) db (FullNode cs) key pos =
    (if pos \<ge> length key then Panic
     else bind_res (child cs (key ! pos)) (\<lambda>c.
       map_res (\<lambda>(v, nn, r). (v, FullNode (if r then cs[unat (key ! pos) := nn] else cs), r)) (tryGet f db c key (pos + 1))))"
| "tryGet (Suc f) db (HashNode h) key pos =
    bind_res (resolveHash db h (take pos key)) (\<lambda>c. map_res (\<lambda>(v, nn, r). (v, nn, True)) (tryGet f db c key pos))"

fun insert_node :: "nat \<Rightarrow> tdb \<Rightarrow> node \<Rightarrow> bytes \<Rightarrow> bytes \<Rightarrow> node \<Rightarrow> (trie_error, bool \<times> node) res" where
  "insert_node 0 db n pre key value = Err OutOfFuel"
| "insert_node (Suc f) db n pre [] value =
    (case n of
       ValueNode v \<Rightarrow> (case value of ValueNode w \<Rightarrow> Ok (v \<noteq> w, value) | _ \<Rightarrow> Panic)
     | _ \<Rightarrow> Ok (True, value))"
| "insert_node (Suc f) db (ShortNode k val) pre (x # xs) value =
    (let key = x # xs; ml = prefixLen key k
     in if ml = length k then
          map_res (\<lambda>(dirty, nn). if dirty then (True, ShortNode k nn) else (False, ShortNode k val))
            (insert_node f db val (pre @ take ml key) (drop ml key) value)
        else if ml \<ge> length key \<or> unat (k ! ml) \<ge> 17 \<or> unat (key ! ml) \<ge> 17 then Panic
        else
          bind_res (insert_node f db NilNode (pre @ take (ml + 1) k) (drop (ml + 1) k) val) (\<lambda>(_, c1).
          bind_res (insert_node f db NilNode (pre @ take (ml + 1) key) (drop (ml + 1) key) value) (\<lambda>(_, c2).
            let branch = FullNode ((replicate 17 NilNode)[unat (k ! ml) := c1, unat (key ! ml) := c2])
            in Ok (True, if ml = 0 then branch else ShortNode (take ml key) branch))))"
| "insert_node (Suc f) db (FullNode cs) pre (x # xs) value =
    bind_res (child cs x) (\<lambda>c.
      map_res (\<lambda>(dirty, nn). if dirty then (True, FullNode (cs[unat x := nn])) else (False, FullNode cs))
        (insert_node f db c (pre @ [x]) xs value))"
| "insert_node (Suc f) db NilNode pre (x # xs) value = Ok (True, ShortNode (x # xs) value)"
| "insert_node (Suc f) db (ValueNode v) pre (x # xs) value = Panic"
| "insert_node (Suc f) db (HashNode h) pre (x # xs) value =
    bind_res (resolveHash db h pre) (\<lambda>rn.
      map_res (\<lambda>(dirty, nn). if dirty then (True, nn) else (False, rn)) (insert_node f db rn pre (x # xs) value))"

text \<open>The index of the only child that is left, -1 if there is none and -2 if there are several.\<close>

fun single_child :: "nat \<Rightarrow> int \<Rightarrow> node list \<Rightarrow> int" where
  "single_child i pos [] = pos"
| "single_child i pos (c # cs) =
    (if c \<noteq> NilNode then (if pos = -1 then single_child (i + 1) (int i) cs else -2) else single_child (i + 1) pos cs)"

definition reduce_full :: "tdb \<Rightarrow> bytes \<Rightarrow> node list \<Rightarrow> (trie_error, bool \<times> node) res" where
  "reduce_full db pre cs =
    (let pos = single_child 0 (-1) cs
     in if pos \<ge> 0 then
          (let keep = Ok (True, ShortNode [of_int pos] (cs ! nat pos))
           in if pos \<noteq> 16 then
                bind_res (resolve db (cs ! nat pos) pre) (\<lambda>cnode.
                  case cnode of ShortNode k val \<Rightarrow> Ok (True, ShortNode (of_int pos # k) val) | _ \<Rightarrow> keep)
              else keep)
        else Ok (True, FullNode cs))"

fun delete_node :: "nat \<Rightarrow> tdb \<Rightarrow> node \<Rightarrow> bytes \<Rightarrow> bytes \<Rightarrow> (trie_error, bool \<times> node) res" where
  "delete_node 0 db n pre key = Err OutOfFuel"
| "delete_node (Suc f) db (ShortNode k val) pre key =
    (let ml = prefixLen key k
     in if ml < length k then Ok (False, ShortNode k val)
        else if ml = length key then Ok (True, NilNode)
        else
          map_res (\<lambda>(dirty, ch).
            if \<not> dirty then (False, ShortNode k val)
            else (True, case ch of ShortNode ck cv \<Rightarrow> ShortNode (k @ ck) cv | _ \<Rightarrow> ShortNode k ch))
            (delete_node f db val (pre @ take (length k) key) (drop (length k) key)))"
| "delete_node (Suc f) db (FullNode cs) pre key =
    (case key of
       [] \<Rightarrow> Panic
     | x # xs \<Rightarrow>
         bind_res (child cs x) (\<lambda>c.
         bind_res (delete_node f db c (pre @ [x]) xs) (\<lambda>(dirty, nn).
           if \<not> dirty then Ok (False, FullNode cs) else reduce_full db pre (cs[unat x := nn]))))"
| "delete_node (Suc f) db (ValueNode v) pre key = Ok (True, NilNode)"
| "delete_node (Suc f) db NilNode pre key = Ok (False, NilNode)"
| "delete_node (Suc f) db (HashNode h) pre key =
    bind_res (resolveHash db h pre) (\<lambda>rn.
      map_res (\<lambda>(dirty, nn). if dirty then (True, nn) else (False, rn)) (delete_node f db rn pre key))"

record trie =
  t_root :: node
  t_unhashed :: int

definition fuel_for :: "bytes \<Rightarrow> nat" where
  "fuel_for k = 2 * length k + 3"

definition TryGet :: "tdb \<Rightarrow> bytes \<Rightarrow> trie \<Rightarrow> (trie_error, bytes option) res \<times> trie" where
  "TryGet db key t =
    (let k = keybytesToHex key
     in case tryGet (fuel_for k) db (t_root t) k 0 of
          Ok (v, newroot, didResolve) \<Rightarrow> (Ok v, if didResolve then t\<lparr>t_root := newroot\<rparr> else t)
        | Err e \<Rightarrow> (Err e, t)
        | Panic \<Rightarrow> (Panic, t))"

definition set_root :: "trie \<Rightarrow> (trie_error, bool \<times> node) res \<Rightarrow> (trie_error, unit) res \<times> trie" where
  "set_root t r =
    (case r of Ok (_, n) \<Rightarrow> (Ok (), t\<lparr>t_root := n\<rparr>) | Err e \<Rightarrow> (Err e, t) | Panic \<Rightarrow> (Panic, t))"

definition TryUpdate :: "tdb \<Rightarrow> bytes \<Rightarrow> bytes \<Rightarrow> trie \<Rightarrow> (trie_error, unit) res \<times> trie" where
  "TryUpdate db key value t0 =
    (let t = t0\<lparr>t_unhashed := t_unhashed t0 + 1\<rparr>; k = keybytesToHex key
     in if length value \<noteq> 0 then set_root t (insert_node (fuel_for k) db (t_root t) [] k (ValueNode value))
        else set_root t (delete_node (fuel_for k) db (t_root t) [] k))"

definition TryDelete :: "tdb \<Rightarrow> bytes \<Rightarrow> trie \<Rightarrow> (trie_error, unit) res \<times> trie" where
  "TryDelete db key t0 =
    (let t = t0\<lparr>t_unhashed := t_unhashed t0 + 1\<rparr>; k = keybytesToHex key
     in set_root t (delete_node (fuel_for k) db (t_root t) [] k))"

section \<open>Well-formed nodes and the map they stand for\<close>

text \<open>Keys are terminated: \<open>tkey False\<close> holds of nibbles followed by 16, \<open>tkey True\<close> of what is left after the
  terminator. The key of a short node is a piece of such a key.\<close>

fun tkey :: "bool \<Rightarrow> bytes \<Rightarrow> bool" where
  "tkey True key = (key = [])"
| "tkey False [] = False"
| "tkey False (x # xs) = (unat x \<le> 16 \<and> tkey (x = 16) xs)"

fun tpath :: "bytes \<Rightarrow> bool" where
  "tpath [] = True"
| "tpath (x # xs) = (unat x \<le> 16 \<and> (if x = 16 then xs = [] else tpath xs))"

type_synonym nmap = "bytes \<Rightarrow> bytes option"

definition below :: "bytes \<Rightarrow> nmap \<Rightarrow> nmap" where
  "below k m = (\<lambda>key. if take (length k) key = k then m (drop (length k) key) else None)"

definition branch_map :: "(nat \<Rightarrow> nmap) \<Rightarrow> nmap" where
  "branch_map ms = (\<lambda>key. case key of [] \<Rightarrow> None | x # xs \<Rightarrow> if unat x < 17 then ms (unat x) xs else None)"

text \<open>\<open>tnode db b n m\<close>: the node is well-formed and stands for the map \<open>m\<close>; \<open>b\<close> says that the terminator has been
  passed. Value nodes occur exactly there.\<close>

inductive tnode :: "tdb \<Rightarrow> bool \<Rightarrow> node \<Rightarrow> nmap \<Rightarrow> bool" for db where
  tnode_nil: "tnode db b NilNode (\<lambda>_. None)"
| tnode_value: "tnode db True (ValueNode v) (\<lambda>key. if key = [] then Some v else None)"
| tnode_short: "k \<noteq> [] \<Longrightarrow> tpath k \<Longrightarrow> tnode db (hasTerm k) n m \<Longrightarrow> tnode db False (ShortNode k n) (below k m)"
| tnode_full: "length cs = 17 \<Longrightarrow> (\<And>i. i < 17 \<Longrightarrow> tnode db (i = 16) (cs ! i) (ms i)) \<Longrightarrow>
    tnode db False (FullNode cs) (branch_map ms)"
| tnode_hash: "db (BytesToHash h) = Some n \<Longrightarrow> (\<And>h'. n \<noteq> HashNode h') \<Longrightarrow> tnode db False n m \<Longrightarrow> tnode db False (HashNode h) m"

inductive_cases tnode_NilE: "tnode db b NilNode m"
inductive_cases tnode_ValueE: "tnode db b (ValueNode v) m"
inductive_cases tnode_ShortE: "tnode db b (ShortNode k n) m"
inductive_cases tnode_FullE: "tnode db b (FullNode cs) m"
inductive_cases tnode_HashE: "tnode db b (HashNode h) m"

lemma tkey_append: "tpath k \<Longrightarrow> tkey False (k @ r) \<Longrightarrow> tkey (hasTerm k) r"
proof (induction k)
  case Nil
  then show ?case by (simp add: hasTerm_def)
next
  case (Cons x k)
  then show ?case by (cases "x = 16"; cases k) (auto simp: hasTerm_def)
qed

lemma tkey_nonempty: "tkey False key \<Longrightarrow> \<exists>x xs. key = x # xs \<and> unat x < 17 \<and> tkey (unat x = 16) xs"
proof (cases key)
  case (Cons x xs)
  moreover assume "tkey False key"
  moreover have "x = 16 \<longleftrightarrow> unat x = 16" by (simp add: word_unat_eq_iff)
  ultimately show ?thesis by auto
qed simp

lemma prefixLen_le: "prefixLen a b \<le> length a" "prefixLen a b \<le> length b"
  by (induction a b rule: prefixLen.induct) auto

lemma prefixLen_take: "take (prefixLen a b) a = take (prefixLen a b) b"
  by (induction a b rule: prefixLen.induct) auto

lemma prefixLen_full: "prefixLen a b = length b \<longleftrightarrow> take (length b) a = b"
  by (induction a b rule: prefixLen.induct) auto

lemma prefixLen_differ: "prefixLen a b < length a \<Longrightarrow> prefixLen a b < length b \<Longrightarrow> a ! prefixLen a b \<noteq> b ! prefixLen a b"
  by (induction a b rule: prefixLen.induct) (auto split: if_splits)

text \<open>A terminated key is never a proper piece of a path.\<close>

lemma tkey_not_shorter: "tkey False key \<Longrightarrow> tpath k \<Longrightarrow> prefixLen key k = length key \<Longrightarrow> k = key"
proof (induction key k rule: prefixLen.induct)
  case (1 x a y b)
  then show ?case by (cases "x = 16"; cases b) (auto split: if_splits)
qed auto

lemma drop_eq_ConsD: "drop p k = x # xs \<Longrightarrow> p < length k \<and> k ! p = x \<and> drop (p + 1) k = xs"
proof -
  assume d: "drop p k = x # xs"
  then have p: "p < length k" by (metis drop_all linorder_not_less list.distinct(1))
  show ?thesis using Cons_nth_drop_Suc [OF p] d p by simp
qed

lemma tnode_mono: "tnode db b n m \<Longrightarrow> m = m' \<Longrightarrow> tnode db b n m'"
  by simp

definition hash_cost :: "node \<Rightarrow> nat" where
  "hash_cost n = (case n of HashNode _ \<Rightarrow> 1 | _ \<Rightarrow> 0)"

lemma hash_cost_le [simp]: "hash_cost n \<le> 1"
  by (simp add: hash_cost_def split: node.split)

lemma hash_cost_simps [simp]: "hash_cost (HashNode h) = 1" "(\<And>h. n \<noteq> HashNode h) \<Longrightarrow> hash_cost n = 0"
  by (auto simp: hash_cost_def split: node.split)

lemma below_drop: "take (length k) key = k \<Longrightarrow> below k m key = m (drop (length k) key)"
  by (simp add: below_def)

lemma tryGet_correct:
  assumes "tnode db b n m" "tkey b (drop pos key)" "pos \<le> length key" "2 * (length key - pos) + hash_cost n < f"
  shows "\<exists>n' r. tryGet f db n key pos = Ok (m (drop pos key), n', r) \<and> tnode db b n' m \<and> (\<not> r \<longrightarrow> n' = n)"
  using assms
proof (induction arbitrary: pos f rule: tnode.induct)
  case (tnode_nil b)
  then show ?case by (cases f) (auto intro: tnode.tnode_nil)
next
  case (tnode_value v)
  then show ?case by (cases f) (auto intro: tnode.tnode_value)
next
  case (tnode_short k n m)
  let ?k = "drop pos key"
  obtain f' where f: "f = Suc f'" using tnode_short.prems(3) by (cases f) auto
  show ?case
  proof (cases "take (length k) ?k = k")
    case False
    then show ?thesis using tnode.tnode_short [OF tnode_short.hyps] by (auto simp: f below_def)
  next
    case True
    then have eq: "k @ drop (pos + length k) key = ?k" by (metis append_take_drop_id drop_drop add.commute)
    have le: "length k \<le> length key - pos" using True by (metis length_drop length_take min.absorb_iff2 min.commute)
    have "tkey (hasTerm k) (drop (pos + length k) key)"
      using tkey_append [OF tnode_short.hyps(2)] tnode_short.prems(1) eq by simp
    moreover have "2 * (length key - (pos + length k)) + hash_cost n < f'"
      using tnode_short.prems(3) tnode_short.hyps(1) le hash_cost_le [of n] f by (cases k) auto
    moreover have "pos + length k \<le> length key" using le tnode_short.prems(2) by simp
    ultimately obtain n' r where n': "tryGet f' db n key (pos + length k) = Ok (m (drop (pos + length k) key), n', r)"
      "tnode db (hasTerm k) n' m" "\<not> r \<longrightarrow> n' = n" using tnode_short.IH by blast
    have "below k m ?k = m (drop (pos + length k) key)" using below_drop [OF True] by (simp add: add.commute)
    moreover have "tryGet f db (ShortNode k n) key pos = Ok (m (drop (pos + length k) key), ShortNode k (if r then n' else n), r)"
      using True le n'(1) by (simp add: f)
    ultimately show ?thesis
      using tnode.tnode_short [OF tnode_short.hyps(1,2) n'(2)] tnode.tnode_short [OF tnode_short.hyps(1-3)] n'(3) by auto
  qed
next
  case (tnode_full cs ms)
  let ?k = "drop pos key"
  obtain f' where f: "f = Suc f'" using tnode_full.prems(3) by (cases f) auto
  obtain x xs where x: "?k = x # xs" "unat x < 17" "tkey (unat x = 16) xs" using tkey_nonempty tnode_full.prems(1) by blast
  have lt: "pos < length key" and key: "key ! pos = x" "drop (pos + 1) key = xs"
    using drop_eq_ConsD [OF x(1)] by simp_all
  let ?c = "cs ! unat x"
  have "2 * (length key - (pos + 1)) + hash_cost ?c < f'" using tnode_full.prems(3) f lt hash_cost_le [of ?c] by simp
  moreover have "tkey (unat x = 16) (drop (pos + 1) key)" using x(3) key(2) by simp
  ultimately obtain n' r where n': "tryGet f' db ?c key (pos + 1) = Ok (ms (unat x) xs, n', r)"
    "tnode db (unat x = 16) n' (ms (unat x))" "\<not> r \<longrightarrow> n' = ?c" using tnode_full.IH [OF x(2), of "pos + 1" f'] lt key(2) by auto
  have upd: "tnode db False (FullNode (cs[unat x := n'])) (branch_map ms)"
    using tnode_full.hyps n'(2) x(2) by (intro tnode.tnode_full) (auto simp: nth_list_update)
  have same: "tnode db False (FullNode cs) (branch_map ms)" by (rule tnode.tnode_full [OF tnode_full.hyps])
  have "tryGet f db (FullNode cs) key pos = Ok (ms (unat x) xs, FullNode (if r then cs[unat x := n'] else cs), r)"
    using lt key x(2) n'(1) tnode_full.hyps(1) by (simp add: f child_def)
  moreover have "branch_map ms ?k = ms (unat x) xs" using x(1,2) by (simp add: branch_map_def)
  ultimately show ?case using upd same by auto
next
  case (tnode_hash h n m)
  obtain f' where f: "f = Suc f'" using tnode_hash.prems(3) by (cases f) auto
  have "2 * (length key - pos) + hash_cost n < f'" using tnode_hash.prems(3) tnode_hash.hyps(2) f by simp
  then obtain n' r where "tryGet f' db n key pos = Ok (m (drop pos key), n', r)" "tnode db False n' m"
    using tnode_hash.IH tnode_hash.prems(1,2) by blast
  then show ?case using tnode_hash.hyps(1) by (auto simp: f resolveHash_def)
qed

section \<open>Insertion\<close>

lemma tpath_append: "tpath (a @ b) \<Longrightarrow> tpath a \<and> (b \<noteq> [] \<longrightarrow> \<not> hasTerm a \<and> tpath b)"
proof (induction a)
  case Nil
  then show ?case by (simp add: hasTerm_def)
next
  case (Cons x a)
  then show ?case by (cases "x = 16"; cases a) (auto simp: hasTerm_def)
qed

lemma tpath_join: "tpath a \<Longrightarrow> \<not> hasTerm a \<Longrightarrow> tpath b \<Longrightarrow> tpath (a @ b)"
proof (induction a)
  case (Cons x a)
  then show ?case by (cases "x = 16"; cases a) (auto simp: hasTerm_def)
qed simp

lemma hasTerm_append: "b \<noteq> [] \<Longrightarrow> hasTerm (a @ b) = hasTerm b"
  by (cases b rule: rev_cases) (simp_all add: hasTerm_def nth_append)

lemma tkey_tpath: "tkey False key \<Longrightarrow> tpath key \<and> hasTerm key"
proof (induction key)
  case (Cons x key)
  then show ?case by (cases "x = 16"; cases key) (auto simp: hasTerm_def)
qed simp

text \<open>Hanging a node below a path.\<close>

definition hang :: "bytes \<Rightarrow> node \<Rightarrow> node" where
  "hang k n = (if k = [] then n else ShortNode k n)"

lemma insert_node_nil: "0 < f \<Longrightarrow> insert_node f db NilNode pre key value = Ok (True, hang key value)"
  by (cases f; cases key) (simp_all add: hang_def)

lemma insert_node_short:
  "key \<noteq> [] \<Longrightarrow> insert_node (Suc f) db (ShortNode k val) pre key value =
    (let ml = prefixLen key k
     in if ml = length k then
          map_res (\<lambda>(dirty, nn). if dirty then (True, ShortNode k nn) else (False, ShortNode k val))
            (insert_node f db val (pre @ take ml key) (drop ml key) value)
        else if ml \<ge> length key \<or> unat (k ! ml) \<ge> 17 \<or> unat (key ! ml) \<ge> 17 then Panic
        else
          bind_res (insert_node f db NilNode (pre @ take (ml + 1) k) (drop (ml + 1) k) val) (\<lambda>(_, c1).
          bind_res (insert_node f db NilNode (pre @ take (ml + 1) key) (drop (ml + 1) key) value) (\<lambda>(_, c2).
            let branch = FullNode ((replicate 17 NilNode)[unat (k ! ml) := c1, unat (key ! ml) := c2])
            in Ok (True, if ml = 0 then branch else ShortNode (take ml key) branch))))"
  by (cases key) (simp_all only: insert_node.simps Let_def list.distinct simp_thms)

lemma below_Nil [simp]: "below [] m = m"
  by (simp add: below_def)

lemma below_Cons: "below (x # k) m (y # key) = (if x = y then below k m key else None)" "below (x # k) m [] = None"
  by (simp_all add: below_def)

lemma below_append: "below (a @ b) m = below a (below b m)"
proof
  fix key
  show "below (a @ b) m key = below a (below b m) key"
  proof (induction a arbitrary: key)
    case (Cons x a)
    then show ?case by (cases key) (simp_all add: below_Cons)
  qed simp
qed

lemma hang_tnode: "tpath k \<Longrightarrow> k \<noteq> [] \<Longrightarrow> tnode db (hasTerm k) n m \<Longrightarrow> tnode db False (hang k n) (below k m)"
  by (simp add: hang_def tnode_short)

text \<open>The part of a path after one nibble.\<close>

lemma hang_tail:
  assumes "tpath (x # k)" "tnode db (hasTerm (x # k)) n m"
  shows "tnode db (unat x = 16) (hang k n) (below k m)"
proof (cases "x = 16")
  case True
  then show ?thesis using assms by (simp add: hang_def hasTerm_def)
next
  case False
  then have "unat x \<noteq> 16" by (auto simp: word_unat_eq_iff)
  then show ?thesis using False assms
    by (cases k) (simp_all add: hang_def hasTerm_def tnode_short)
qed

definition two_way :: "u8 \<Rightarrow> nmap \<Rightarrow> u8 \<Rightarrow> nmap \<Rightarrow> nat \<Rightarrow> nmap" where
  "two_way x m1 y m2 = (\<lambda>_ _. None)(unat x := m1, unat y := m2)"

lemma two_way_tnode:
  assumes "x \<noteq> y" "unat x < 17" "unat y < 17" "tnode db (unat x = 16) c1 m1" "tnode db (unat y = 16) c2 m2"
  shows "tnode db False (FullNode ((replicate 17 NilNode)[unat x := c1, unat y := c2])) (branch_map (two_way x m1 y m2))"
proof (rule tnode_full)
  have "unat x \<noteq> unat y" using assms(1) by (simp add: word_unat_eq_iff)
  then show "tnode db (i = 16) ((replicate 17 NilNode)[unat x := c1, unat y := c2] ! i) (two_way x m1 y m2 i)" if "i < 17" for i
    using assms that by (auto simp: two_way_def nth_list_update tnode_nil)
qed simp

lemma branch_two_way:
  assumes "x \<noteq> y" "unat x < 17" "unat y < 17"
  shows "branch_map (two_way x (below k m) y (below key (\<lambda>z. if z = [] then Some v else None))) = (below (x # k) m)(y # key \<mapsto> v)"
proof
  fix z
  have ne: "unat x \<noteq> unat y" using assms(1) by (simp add: word_unat_eq_iff)
  have u: "below key (\<lambda>z. if z = [] then Some v else None) zs = (if zs = key then Some v else None)" for zs
    by (auto simp: below_def)
  show "branch_map (two_way x (below k m) y (below key (\<lambda>z. if z = [] then Some v else None))) z = ((below (x # k) m)(y # key \<mapsto> v)) z"
  proof (cases z)
    case (Cons w zs)
    have "unat w = unat x \<longleftrightarrow> w = x" "unat w = unat y \<longleftrightarrow> w = y" by (simp_all add: word_unat_eq_iff)
    then show ?thesis using Cons ne assms by (auto simp: branch_map_def two_way_def below_Cons u)
  qed (simp add: branch_map_def below_Cons)
qed

lemma below_upd: "(below k m)(k @ r \<mapsto> v) = below k (m(r \<mapsto> v))"
  by (auto simp: below_def fun_eq_iff) (metis append_take_drop_id)

lemma branch_upd: "unat x < 17 \<Longrightarrow> (branch_map ms)(x # xs := y) = branch_map (ms(unat x := (ms (unat x))(xs := y)))"
  by (auto simp: branch_map_def fun_eq_iff word_unat_eq_iff split: list.split)

lemma insert_short_differ:
  assumes k: "tpath k" "tnode db (hasTerm k) val m" and key: "tkey False key" and f: "0 < f"
    and ml: "prefixLen key k \<noteq> length k"
  shows "\<exists>n'. insert_node (Suc f) db (ShortNode k val) pre key (ValueNode v) = Ok (True, n') \<and> tnode db False n' ((below k m)(key \<mapsto> v)) \<and>
    below k m key = None"
proof -
  let ?l = "prefixLen key k"
  have lk: "?l < length k" using ml prefixLen_le(2) [of key k] by simp
  have lkey: "?l < length key"
    using prefixLen_le(1) [of key k] tkey_not_shorter [OF key k(1)] lk by (cases "?l = length key") auto
  define p where "p = take ?l key"
  define x1 k1 where "x1 = k ! ?l" and "k1 = drop (?l + 1) k"
  define x2 k2 where "x2 = key ! ?l" and "k2 = drop (?l + 1) key"
  have K: "k = p @ x1 # k1" using prefixLen_take [of key k] lk by (simp add: p_def x1_def k1_def id_take_nth_drop)
  have KEY: "key = p @ x2 # k2" using lkey by (simp add: p_def x2_def k2_def id_take_nth_drop)
  have ne: "x1 \<noteq> x2" using prefixLen_differ [OF lkey lk] by (simp add: x1_def x2_def)
  have tp: "tpath p" "\<not> hasTerm p" "tpath (x1 # k1)" using tpath_append [of p "x1 # k1"] k(1) K by auto
  have tk: "tpath key" "hasTerm key" using tkey_tpath [OF key] by auto
  have tk2: "tpath (x2 # k2)" "hasTerm (x2 # k2)" using tpath_append [of p "x2 # k2"] tk KEY by (auto simp: hasTerm_append)
  have hk: "hasTerm (x1 # k1) = hasTerm k" by (simp add: K hasTerm_append)
  have lt: "unat x1 < 17" "unat x2 < 17" using tp(3) tk2(1) by (auto split: if_splits)
  have c1: "tnode db (unat x1 = 16) (hang k1 val) (below k1 m)" using hang_tail [OF tp(3)] k(2) hk by simp
  have c2: "tnode db (unat x2 = 16) (hang k2 (ValueNode v)) (below k2 (\<lambda>z. if z = [] then Some v else None))"
    using hang_tail [OF tk2(1)] tk2(2) tnode_value by simp
  let ?branch = "FullNode ((replicate 17 NilNode)[unat x1 := hang k1 val, unat x2 := hang k2 (ValueNode v)])"
  have b: "tnode db False ?branch ((below (x1 # k1) m)(x2 # k2 \<mapsto> v))"
    using two_way_tnode [OF ne lt c1 c2] branch_two_way [OF ne lt] by simp
  have "tnode db False (hang p ?branch) (below p ((below (x1 # k1) m)(x2 # k2 \<mapsto> v)))"
    using b tp(1,2) by (cases "p = []") (auto simp: hang_def intro: tnode_short)
  moreover have "below p ((below (x1 # k1) m)(x2 # k2 \<mapsto> v)) = (below k m)(key \<mapsto> v)"
    by (simp add: K KEY below_append below_upd)
  moreover have "insert_node (Suc f) db (ShortNode k val) pre key (ValueNode v) = Ok (True, hang p ?branch)"
  proof -
    have p: "hang p ?branch = (if ?l = 0 then ?branch else ShortNode p ?branch)" using lkey by (auto simp: p_def hang_def)
    have "key \<noteq> []" using key by auto
    then show ?thesis unfolding p using ml lkey lt
      by (simp only: insert_node_short Let_def insert_node_nil [OF f] bind_res.simps prod.case if_False not_le simp_thms
          x1_def [symmetric] x2_def [symmetric] k1_def [symmetric] k2_def [symmetric] p_def [symmetric])
         simp
  qed
  moreover have "below k m key = None"
    using ml prefixLen_full [of key k] by (simp add: below_def)
  ultimately show ?thesis by auto
qed

lemma tkey_cases: "tkey b key \<Longrightarrow> (b = True \<and> key = []) \<or> (b = False \<and> key \<noteq> [])"
  by (cases b; cases key) auto

text \<open>A node that is replaced only when something changed stands for the updated map either way.\<close>

lemma tnode_if_changed:
  assumes "tnode db b n m" "tnode db b n' (m(key := y))" "\<not> d \<Longrightarrow> m key = y"
  shows "tnode db b (if d then n' else n) (m(key := y))"
proof (cases d)
  case False
  then have "m(key := y) = m" using assms(3) by (simp add: fun_upd_idem)
  then show ?thesis using False assms(1) by (simp only: if_False)
qed (simp only: assms(2) if_True)

lemma insert_correct:
  assumes "tnode db b n m" "tkey b key" "2 * length key + hash_cost n + 1 < f"
  shows "\<exists>n'. insert_node f db n pre key (ValueNode v) = Ok (m key \<noteq> Some v, n') \<and> tnode db b n' (m(key \<mapsto> v))"
  using assms
proof (induction arbitrary: key f pre rule: tnode.induct)
  case (tnode_nil b)
  have m: "(\<lambda>_. None)(key \<mapsto> v) = below key (\<lambda>z. if z = [] then Some v else None)" by (auto simp: below_def fun_eq_iff)
  have "tnode db b (hang key (ValueNode v)) (below key (\<lambda>z. if z = [] then Some v else None))"
  proof (cases b)
    case True
    then show ?thesis using tnode_nil.prems(1) tnode_value by (simp add: hang_def)
  next
    case False
    then have "tkey False key" using tnode_nil.prems(1) by simp
    then show ?thesis using False tkey_tpath tnode_value by (cases key) (auto intro!: hang_tnode)
  qed
  then show ?case using insert_node_nil [of f db pre key "ValueNode v"] tnode_nil.prems(2) unfolding m by simp
next
  case (tnode_value w)
  then obtain f' where f: "f = Suc f'" by (cases f) auto
  have key: "key = []" using tnode_value.prems(1) by simp
  have eq: "(\<lambda>z. if z = [] then Some w else None)([] \<mapsto> v) = (\<lambda>z. if z = [] then Some v else None)" by (auto simp: fun_eq_iff)
  have t: "tnode db True (ValueNode v) ((\<lambda>z. if z = [] then Some w else None)(key \<mapsto> v))"
    unfolding key by (rule tnode_mono [OF tnode.tnode_value eq [symmetric]])
  have e: "insert_node f db (ValueNode w) pre key (ValueNode v) = Ok ((if key = [] then Some w else None) \<noteq> Some v, ValueNode v)"
    by (simp add: key f)
  show ?case by (intro exI conjI) (rule e, rule t)
next
  case (tnode_short k n m)
  obtain f' where f: "f = Suc f'" "0 < f'" using tnode_short.prems(2) by (cases f) auto
  have ne: "key \<noteq> []" using tnode_short.prems(1) by (cases key) auto
  show ?case
  proof (cases "prefixLen key k = length k")
    case False
    then obtain n' where n': "insert_node f db (ShortNode k n) pre key (ValueNode v) = Ok (True, n')"
      "tnode db False n' ((below k m)(key \<mapsto> v))" "below k m key = None"
      using insert_short_differ [OF tnode_short.hyps(2,3) tnode_short.prems(1) f(2) False, of pre v] f(1) by blast
    then have "insert_node f db (ShortNode k n) pre key (ValueNode v) = Ok (below k m key \<noteq> Some v, n')" by simp
    then show ?thesis using n'(2) by blast
  next
    case True
    then have t: "take (length k) key = k" by (simp add: prefixLen_full)
    define r where "r = drop (length k) key"
    have key: "key = k @ r" using t by (metis append_take_drop_id r_def)
    have "tkey (hasTerm k) r" using tkey_append [OF tnode_short.hyps(2)] tnode_short.prems(1) key by simp
    moreover have "2 * length r + hash_cost n + 1 < f'"
      using tnode_short.prems(2) tnode_short.hyps(1) hash_cost_le [of n] f(1) key by (cases k) auto
    ultimately obtain n' where n': "insert_node f' db n (pre @ take (length k) key) r (ValueNode v) = Ok (m r \<noteq> Some v, n')"
      "tnode db (hasTerm k) n' (m(r \<mapsto> v))" using tnode_short.IH by blast
    have m: "below k m key = m r" using below_drop [OF t] by (simp add: r_def)
    have "insert_node f db (ShortNode k n) pre key (ValueNode v) =
        Ok (below k m key \<noteq> Some v, if below k m key \<noteq> Some v then ShortNode k n' else ShortNode k n)"
      using n'(1) by (simp add: f(1) insert_node_short [OF ne] True m flip: r_def)
    moreover have "tnode db False (ShortNode k n') ((below k m)(key \<mapsto> v))"
      unfolding key below_upd by (rule tnode.tnode_short [OF tnode_short.hyps(1,2) n'(2)])
    ultimately show ?thesis using tnode_if_changed [OF tnode.tnode_short [OF tnode_short.hyps], where d = "below k m key \<noteq> Some v"] by blast
  qed
next
  case (tnode_full cs ms)
  obtain f' where f: "f = Suc f'" using tnode_full.prems(2) by (cases f) auto
  obtain x xs where x: "key = x # xs" "unat x < 17" "tkey (unat x = 16) xs" using tkey_nonempty tnode_full.prems(1) by blast
  let ?c = "cs ! unat x" and ?m = "ms (unat x)"
  have "2 * length xs + hash_cost ?c + 1 < f'" using tnode_full.prems(2) f x(1) hash_cost_le [of ?c] by simp
  then obtain n' where n': "insert_node f' db ?c (pre @ [x]) xs (ValueNode v) = Ok (?m xs \<noteq> Some v, n')"
    "tnode db (unat x = 16) n' (?m(xs \<mapsto> v))" using tnode_full.IH [OF x(2) x(3)] by blast
  have m: "branch_map ms key = ?m xs" using x(1,2) by (simp add: branch_map_def)
  have "insert_node f db (FullNode cs) pre key (ValueNode v) =
      Ok (branch_map ms key \<noteq> Some v, if branch_map ms key \<noteq> Some v then FullNode (cs[unat x := n']) else FullNode cs)"
    using n'(1) x tnode_full.hyps(1) unfolding m by (simp add: f child_def)
  moreover have "tnode db False (FullNode (cs[unat x := n'])) ((branch_map ms)(key \<mapsto> v))"
    unfolding x(1) branch_upd [OF x(2)] using tnode_full.hyps n'(2) x(2)
    by (intro tnode.tnode_full) (auto simp: nth_list_update)
  ultimately show ?case
    using tnode_if_changed [OF tnode.tnode_full [OF tnode_full.hyps], where d = "branch_map ms key \<noteq> Some v"] by blast
next
  case (tnode_hash h n m)
  obtain f' where f: "f = Suc f'" using tnode_hash.prems(2) by (cases f) auto
  have ne: "key \<noteq> []" using tnode_hash.prems(1) by (cases key) auto
  have "2 * length key + hash_cost n + 1 < f'" using tnode_hash.prems(2) tnode_hash.hyps(2) f by simp
  then obtain n' where n': "insert_node f' db n pre key (ValueNode v) = Ok (m key \<noteq> Some v, n')" "tnode db False n' (m(key \<mapsto> v))"
    using tnode_hash.IH [OF tnode_hash.prems(1)] by blast
  have "insert_node f db (HashNode h) pre key (ValueNode v) = Ok (m key \<noteq> Some v, if m key \<noteq> Some v then n' else n)"
    using ne n'(1) tnode_hash.hyps(1) by (cases key) (auto simp: f resolveHash_def)
  then show ?case using tnode_if_changed [OF tnode_hash.hyps(3) n'(2), where d = "m key \<noteq> Some v"] by blast
qed

section \<open>Deletion\<close>

lemma tnode_NilD: "tnode db b NilNode m \<Longrightarrow> m = (\<lambda>_. None)"
  by (erule tnode_NilE) simp

lemma single_child_none: "single_child i (-1) cs = -1 \<Longrightarrow> \<forall>c \<in> set cs. c = NilNode"
proof -
  have "single_child i p cs \<noteq> -1" if "p \<noteq> -1" for i p cs using that by (induction i p cs rule: single_child.induct) auto
  then show "single_child i (-1) cs = -1 \<Longrightarrow> \<forall>c \<in> set cs. c = NilNode"
    by (induction cs arbitrary: i) (auto split: if_splits)
qed

lemma single_child_kept: "p \<ge> 0 \<Longrightarrow> single_child i p cs \<ge> 0 \<Longrightarrow> single_child i p cs = p \<and> (\<forall>c \<in> set cs. c = NilNode)"
  by (induction i p cs rule: single_child.induct) (auto split: if_splits)

lemma single_child_found:
  assumes "single_child i (-1) cs = int p" 
  shows "i \<le> p \<and> p - i < length cs \<and> (\<forall>j < length cs. j \<noteq> p - i \<longrightarrow> cs ! j = NilNode)"
  using assms
proof (induction cs arbitrary: i)
  case (Cons c cs)
  show ?case
  proof (cases "c = NilNode")
    case True
    then have "Suc i \<le> p \<and> p - Suc i < length cs \<and> (\<forall>j < length cs. j \<noteq> p - Suc i \<longrightarrow> cs ! j = NilNode)"
      using Cons.IH [of "Suc i"] Cons.prems by simp
    then show ?thesis using True by (auto simp: nth_Cons split: nat.split)
  next
    case False
    then have s: "single_child (i + 1) (int i) cs = int p" using Cons.prems by simp
    then have "p = i" "\<forall>c \<in> set cs. c = NilNode" using single_child_kept [of "int i" "i + 1" cs] by auto
    then show ?thesis by (auto simp: nth_Cons split: nat.split)
  qed
qed simp

lemma tnode_single:
  assumes "p < 17" "\<forall>j < 17. j \<noteq> p \<longrightarrow> ms j = (\<lambda>_. None)"
  shows "branch_map ms = below [of_nat p] (ms p)"
proof
  fix z :: bytes
  have u: "unat (of_nat p :: u8) = p" using assms(1) by (simp add: unat_of_nat_u8)
  show "branch_map ms z = below [of_nat p] (ms p) z"
  proof (cases z)
    case (Cons w zs)
    have "of_nat p = w \<longleftrightarrow> unat w = p" unfolding word_unat_eq_iff u by auto
    then show ?thesis using assms Cons by (auto simp: branch_map_def below_Cons)
  qed (simp add: branch_map_def below_Cons)
qed

lemma reduce_full_correct:
  assumes t: "tnode db False (FullNode cs) m"
  shows "\<exists>n'. reduce_full db pre cs = Ok (True, n') \<and> tnode db False n' m"
proof (cases "single_child 0 (-1) cs \<ge> 0")
  case False
  then show ?thesis using t by (simp add: reduce_full_def)
next
  case True
  define p where "p = nat (single_child 0 (-1) cs)"
  have sp: "single_child 0 (-1) cs = int p" using True by (simp add: p_def)
  obtain ms where ms: "length cs = 17" "m = branch_map ms" "\<And>i. i < 17 \<Longrightarrow> tnode db (i = 16) (cs ! i) (ms i)"
    using t by (auto elim: tnode_FullE)
  have p: "p < 17" "\<forall>j < 17. j \<noteq> p \<longrightarrow> cs ! j = NilNode" using single_child_found [OF sp] ms(1) by auto
  have "ms j = (\<lambda>_. None)" if "j < 17" "j \<noteq> p" for j using ms(3) [OF that(1)] p(2) that tnode_NilD by metis
  then have m: "m = below [of_nat p] (ms p)" using tnode_single [OF p(1)] ms(2) by simp
  have u: "unat (of_nat p :: u8) = p" using p(1) by (simp add: unat_of_nat_u8)
  have h: "hasTerm [of_nat p] = (p = 16)" using u by (auto simp: hasTerm_def word_unat_eq_iff)
  have tp: "tpath [of_nat p]" using u p(1) by simp
  have keep: "tnode db False (ShortNode [of_nat p] (cs ! p)) m"
    unfolding m using ms(3) [OF p(1)] tp h by (intro tnode_short) simp_all
  have short: "tnode db False (ShortNode (of_nat p # k) val) m" if p16: "p \<noteq> 16" and sn: "tnode db False (ShortNode k val) (ms p)" for k val
  proof -
    obtain m1 where m1: "k \<noteq> []" "tpath k" "tnode db (hasTerm k) val m1" "ms p = below k m1" using sn by (auto elim: tnode_ShortE)
    have "tpath ([of_nat p] @ k)" using tpath_join [OF tp _ m1(2)] h p16 by simp
    moreover have "hasTerm (of_nat p # k) = hasTerm k" using hasTerm_append [OF m1(1), of "[of_nat p]"] by simp
    moreover have "m = below (of_nat p # k) m1" using m m1(4) below_append [of "[of_nat p]" k m1] by simp
    ultimately show ?thesis using m1(3) by (simp add: tnode_short)
  qed
  show ?thesis
  proof (cases "p = 16")
    case True
    then show ?thesis using keep by (simp add: reduce_full_def sp)
  next
    case False
    then have c: "tnode db False (cs ! p) (ms p)" using ms(3) [OF p(1)] by simp
    obtain cn where cn: "resolve db (cs ! p) pre = Ok cn" "tnode db False cn (ms p)"
    proof (cases "cs ! p")
      case (HashNode h)
      then obtain n where "db (BytesToHash h) = Some n" "tnode db False n (ms p)" using c by (auto elim: tnode_HashE)
      then show ?thesis using that HashNode by (simp add: resolve_def resolveHash_def)
    qed (use that c in \<open>auto simp: resolve_def\<close>)
    have "reduce_full db pre cs = Ok (True, case cn of ShortNode k val \<Rightarrow> ShortNode (of_nat p # k) val | _ \<Rightarrow> ShortNode [of_nat p] (cs ! p))"
      using False cn(1) by (simp add: reduce_full_def sp split: node.split)
    then show ?thesis using keep short [OF False] cn(2) by (cases cn) auto
  qed
qed

lemma below_del: "(below k m)(k @ r := None) = below k (m(r := None))"
  by (auto simp: below_def fun_eq_iff) (metis append_take_drop_id)

lemma tnode_after_term: "tnode db True n m \<Longrightarrow> r \<noteq> [] \<Longrightarrow> m r = None"
  by (erule tnode.cases) auto

lemma delete_correct:
  assumes "tnode db b n m" "tkey b key" "2 * length key + hash_cost n < f"
  shows "\<exists>d n'. delete_node f db n pre key = Ok (d, n') \<and> tnode db b n' (m(key := None)) \<and> (\<not> d \<longrightarrow> m key = None)"
  using assms
proof (induction arbitrary: key f pre rule: tnode.induct)
  case (tnode_nil b)
  then show ?case by (cases f) (auto intro: tnode.tnode_nil simp: fun_upd_idem)
next
  case (tnode_value w)
  have key: "key = []" using tnode_value.prems(1) by simp
  have eq: "(\<lambda>z. if z = [] then Some w else None)([] := None) = (\<lambda>_. None)" by (auto simp: fun_eq_iff)
  have t: "tnode db True NilNode ((\<lambda>z. if z = [] then Some w else None)(key := None))"
    unfolding key by (rule tnode_mono [OF tnode.tnode_nil eq [symmetric]])
  have e: "delete_node f db (ValueNode w) pre key = Ok (True, NilNode)" using tnode_value.prems(2) by (cases f) (simp_all add: key)
  show ?case using t by (intro exI conjI impI) (rule e, assumption, simp)
next
  case (tnode_short k n m)
  obtain f' where f: "f = Suc f'" using tnode_short.prems(2) by (cases f) auto
  have same: "tnode db False (ShortNode k n) (below k m)" by (rule tnode.tnode_short [OF tnode_short.hyps])
  show ?case
  proof (cases "prefixLen key k = length k")
    case False
    then have "below k m key = None" "prefixLen key k < length k"
      using prefixLen_full [of key k] prefixLen_le(2) [of key k] by (simp_all add: below_def)
    then have "(below k m)(key := None) = below k m" "delete_node f db (ShortNode k n) pre key = Ok (False, ShortNode k n)"
      by (simp_all add: f Let_def fun_upd_idem)
    then show ?thesis using same \<open>below k m key = None\<close> by (intro exI conjI) (assumption, simp_all only: simp_thms)
  next
    case True
    then have t: "take (length k) key = k" by (simp add: prefixLen_full)
    define r where "r = drop (length k) key"
    have key: "key = k @ r" using t by (metis append_take_drop_id r_def)
    have tk: "tkey (hasTerm k) r" using tkey_append [OF tnode_short.hyps(2)] tnode_short.prems(1) key by simp
    show ?thesis
    proof (cases "r = []")
      case nil: True
      then have "hasTerm k" using tkey_cases [OF tk] by simp
      then have "m(r := None) = (\<lambda>_. None)" using tnode_after_term tnode_short.hyps(3) nil by (fastforce simp: fun_eq_iff)
      then have "(below k m)(key := None) = (\<lambda>_. None)" unfolding key below_del by (simp add: below_def)
      then have "tnode db False NilNode ((below k m)(key := None))" by (simp only: tnode.tnode_nil)
      moreover have "delete_node f db (ShortNode k n) pre key = Ok (True, NilNode)" using nil True by (simp add: f key)
      ultimately show ?thesis by blast
    next
      case False
      then have nt: "\<not> hasTerm k" using tkey_cases [OF tk] by auto
      have "2 * length r + hash_cost n < f'"
        using tnode_short.prems(2) tnode_short.hyps(1) hash_cost_le [of n] f key by (cases k) auto
      then obtain d n' where n': "delete_node f' db n (pre @ take (length k) key) r = Ok (d, n')"
        "tnode db (hasTerm k) n' (m(r := None))" "\<not> d \<longrightarrow> m r = None" using tnode_short.IH [OF tk] by blast
      let ?n = "case n' of ShortNode ck cv \<Rightarrow> ShortNode (k @ ck) cv | _ \<Rightarrow> ShortNode k n'"
      have m: "below k m key = m r" using below_drop [OF t] by (simp add: r_def)
      have e: "delete_node f db (ShortNode k n) pre key = Ok (d, if d then ?n else ShortNode k n)"
        using n'(1) True False by (simp add: f Let_def key)
      have "tnode db False ?n ((below k m)(key := None))"
      proof (cases "\<exists>ck cv. n' = ShortNode ck cv")
        case True
        then obtain ck cv m1 where c: "n' = ShortNode ck cv" "ck \<noteq> []" "tpath ck" "tnode db (hasTerm ck) cv m1" "m(r := None) = below ck m1"
          using n'(2) by (auto elim: tnode_ShortE)
        have "tnode db False (ShortNode (k @ ck) cv) (below (k @ ck) m1)"
          using c tpath_join [OF tnode_short.hyps(2) nt c(3)] hasTerm_append [OF c(2), of k] by (intro tnode.tnode_short) simp_all
        then show ?thesis unfolding key below_del c(5) by (simp add: c(1) below_append)
      next
        case False
        have "tnode db False (ShortNode k n') ((below k m)(key := None))"
          unfolding key below_del by (rule tnode.tnode_short [OF tnode_short.hyps(1,2) n'(2)])
        moreover have "?n = ShortNode k n'" using False by (cases n') auto
        ultimately show ?thesis by simp
      qed
      moreover have nd: "\<not> d \<longrightarrow> below k m key = None" using m n'(3) by simp
      ultimately have "tnode db False (if d then ?n else ShortNode k n) ((below k m)(key := None))"
        using tnode_if_changed [OF same] by blast
      then show ?thesis using e nd by blast
    qed
  qed
next
  case (tnode_full cs ms)
  obtain f' where f: "f = Suc f'" using tnode_full.prems(2) by (cases f) auto
  obtain x xs where x: "key = x # xs" "unat x < 17" "tkey (unat x = 16) xs" using tkey_nonempty tnode_full.prems(1) by blast
  let ?c = "cs ! unat x" and ?m = "ms (unat x)"
  have "2 * length xs + hash_cost ?c < f'" using tnode_full.prems(2) f x(1) hash_cost_le [of ?c] by simp
  then obtain d n' where n': "delete_node f' db ?c (pre @ [x]) xs = Ok (d, n')"
    "tnode db (unat x = 16) n' (?m(xs := None))" "\<not> d \<longrightarrow> ?m xs = None" using tnode_full.IH [OF x(2) x(3)] by blast
  have m: "branch_map ms key = ?m xs" using x(1,2) by (simp add: branch_map_def)
  have e: "delete_node f db (FullNode cs) pre key = (if d then reduce_full db pre (cs[unat x := n']) else Ok (False, FullNode cs))"
    using n'(1) x tnode_full.hyps(1) by (simp add: f child_def)
  have "tnode db False (FullNode (cs[unat x := n'])) ((branch_map ms)(key := None))"
    unfolding x(1) branch_upd [OF x(2)] using tnode_full.hyps n'(2) x(2)
    by (intro tnode.tnode_full) (auto simp: nth_list_update)
  from reduce_full_correct [OF this, of pre]
  obtain n2 where n2: "reduce_full db pre (cs[unat x := n']) = Ok (True, n2)" "tnode db False n2 ((branch_map ms)(key := None))" by blast
  have "delete_node f db (FullNode cs) pre key = Ok (d, if d then n2 else FullNode cs)" using e n2(1) by simp
  moreover have "tnode db False (if d then n2 else FullNode cs) ((branch_map ms)(key := None))"
    using tnode_if_changed [OF tnode.tnode_full [OF tnode_full.hyps] n2(2), of d] m n'(3) by simp
  moreover have "\<not> d \<longrightarrow> branch_map ms key = None" using m n'(3) by simp
  ultimately show ?case by blast
next
  case (tnode_hash h n m)
  obtain f' where f: "f = Suc f'" using tnode_hash.prems(2) by (cases f) auto
  have "2 * length key + hash_cost n < f'" using tnode_hash.prems(2) tnode_hash.hyps(2) f by simp
  then obtain d n' where n': "delete_node f' db n pre key = Ok (d, n')" "tnode db False n' (m(key := None))" "\<not> d \<longrightarrow> m key = None"
    using tnode_hash.IH [OF tnode_hash.prems(1)] by blast
  have "delete_node f db (HashNode h) pre key = Ok (d, if d then n' else n)"
    using n'(1) tnode_hash.hyps(1) by (simp add: f resolveHash_def)
  moreover have "tnode db False (if d then n' else n) (m(key := None))"
    using tnode_if_changed [OF tnode_hash.hyps(3) n'(2), of d] n'(3) by blast
  ultimately show ?case using n'(3) by blast
qed

section \<open>The trie as a map\<close>

definition trie_wf :: "tdb \<Rightarrow> trie \<Rightarrow> bool" where
  "trie_wf db t \<longleftrightarrow> (\<exists>m. tnode db False (t_root t) m)"

definition emptyTrie :: trie where
  "emptyTrie = \<lparr>t_root = NilNode, t_unhashed = 0\<rparr>"

lemma emptyTrie_wf: "tnode db False (t_root emptyTrie) (\<lambda>_. None)"
  by (simp add: emptyTrie_def tnode_nil)

lemma tkey_keybytes: "tkey False (keybytesToHex key)"
proof -
  have "tkey False (ns @ [16])" if "\<forall>n \<in> set ns. nibble n" for ns
    using that
  proof (induction ns)
    case (Cons n ns)
    then have "unat n \<le> 16" "n \<noteq> 16" using nibble_not_16 [of n] by (simp_all add: nibble_def word_less_nat_alt)
    then show ?case using Cons by simp
  qed simp
  then show ?thesis using nibbles_nibble by (simp add: keybytesToHex_eq)
qed

lemma TryGet_correct:
  assumes "tnode db False (t_root t) m"
  shows "\<exists>t'. TryGet db key t = (Ok (m (keybytesToHex key)), t') \<and> tnode db False (t_root t') m"
proof -
  let ?k = "keybytesToHex key"
  obtain n' r where "tryGet (fuel_for ?k) db (t_root t) ?k 0 = Ok (m ?k, n', r)" "tnode db False n' m"
    using tryGet_correct [OF assms, of 0 ?k "fuel_for ?k"] tkey_keybytes hash_cost_le [of "t_root t"]
    by (auto simp: fuel_for_def)
  then show ?thesis using assms by (auto simp: TryGet_def)
qed

lemma delete_root:
  assumes "tnode db False (t_root t) m"
  shows "\<exists>t'. set_root t (delete_node (fuel_for (keybytesToHex key)) db (t_root t) [] (keybytesToHex key)) = (Ok (), t') \<and>
    tnode db False (t_root t') (m(keybytesToHex key := None))"
proof -
  let ?k = "keybytesToHex key"
  obtain d n' where "delete_node (fuel_for ?k) db (t_root t) [] ?k = Ok (d, n')" "tnode db False n' (m(?k := None))"
    using delete_correct [OF assms tkey_keybytes, of key "fuel_for ?k" "[]"] hash_cost_le [of "t_root t"]
    by (auto simp: fuel_for_def)
  then show ?thesis by (simp add: set_root_def)
qed

lemma insert_root:
  assumes "tnode db False (t_root t) m"
  shows "\<exists>t'. set_root t (insert_node (fuel_for (keybytesToHex key)) db (t_root t) [] (keybytesToHex key) (ValueNode v)) = (Ok (), t') \<and>
    tnode db False (t_root t') (m(keybytesToHex key \<mapsto> v))"
proof -
  let ?k = "keybytesToHex key"
  obtain n' where "insert_node (fuel_for ?k) db (t_root t) [] ?k (ValueNode v) = Ok (m ?k \<noteq> Some v, n')" "tnode db False n' (m(?k \<mapsto> v))"
    using insert_correct [OF assms tkey_keybytes, of key "fuel_for ?k" "[]" v] hash_cost_le [of "t_root t"]
    by (auto simp: fuel_for_def)
  then show ?thesis by (simp add: set_root_def)
qed

text \<open>C3: The trie is a map. On a well-formed trie that stands for the map \<open>m\<close>, some of whose nodes may still be in the
  database, \<open>TryGet\<close> returns what \<open>m\<close> has for the key, \<open>TryUpdate\<close> leads to a well-formed trie for \<open>m\<close> with the key set to
  the value (or removed, when the value is empty), and \<open>TryDelete\<close> to one with the key removed. None of
  them fails, panics or runs out of fuel.\<close>

theorem trie_is_map:
  assumes "tnode db False (t_root t) m"
  shows "(\<exists>t1. TryGet db key t = (Ok (m (keybytesToHex key)), t1) \<and> tnode db False (t_root t1) m) \<and>
    (\<exists>t2. TryUpdate db key v t = (Ok (), t2) \<and>
       tnode db False (t_root t2) (m(keybytesToHex key := if v = [] then None else Some v))) \<and>
    (\<exists>t3. TryDelete db key t = (Ok (), t3) \<and> tnode db False (t_root t3) (m(keybytesToHex key := None)))"
proof -
  have u: "tnode db False (t_root (t\<lparr>t_unhashed := t_unhashed t + 1\<rparr>)) m" using assms by simp
  show ?thesis using TryGet_correct [OF assms] insert_root [OF u, of key v] delete_root [OF u, of key]
    by (simp add: TryUpdate_def TryDelete_def Let_def)
qed

theorem trie_is_map_witness:
  "\<exists>t2. TryUpdate (\<lambda>_. None) [0x12] [7] emptyTrie = (Ok (), t2) \<and>
    tnode (\<lambda>_. None) False (t_root t2) ((\<lambda>_. None)([1, 2, 16] := Some [7]))"
proof -
  have "keybytesToHex [0x12] = [1, 2, 16]" by code_simp
  then show ?thesis using trie_is_map [OF emptyTrie_wf, of "\<lambda>_. None" "[0x12]" "[7]"] by simp
qed

text \<open>C40: A trie with a node missing from the database reports it: when the root is a hash that the database does not
  have, lookup, update and deletion all return \<open>MissingNodeError\<close> with that hash and the empty path, and leave the root as
  it is.\<close>

theorem missing_root_reported:
  assumes "t_root t = HashNode h" "db (BytesToHash h) = None"
  shows "TryGet db key t = (Err (MissingNodeError (BytesToHash h) []), t) \<and>
    fst (TryUpdate db key v t) = Err (MissingNodeError (BytesToHash h) []) \<and> t_root (snd (TryUpdate db key v t)) = t_root t \<and>
    fst (TryDelete db key t) = Err (MissingNodeError (BytesToHash h) []) \<and> t_root (snd (TryDelete db key t)) = t_root t"
proof -
  let ?k = "keybytesToHex key"
  obtain x xs where x: "?k = x # xs" using tkey_nonempty [OF tkey_keybytes] by blast
  obtain f where f: "fuel_for (x # xs) = Suc f" by (simp add: fuel_for_def)
  note k = x f
  show ?thesis by (simp add: TryGet_def TryUpdate_def TryDelete_def set_root_def Let_def k assms resolveHash_def)
qed

theorem missing_root_reported_witness:
  "TryGet (\<lambda>_. None) [0x12] \<lparr>t_root = HashNode [9], t_unhashed = 0\<rparr> =
    (Err (MissingNodeError (BytesToHash [9]) []), \<lparr>t_root = HashNode [9], t_unhashed = 0\<rparr>)"
  using missing_root_reported [of "\<lparr>t_root = HashNode [9], t_unhashed = 0\<rparr>" "[9]" "\<lambda>_. None" "[0x12]" "[]"] by simp

text \<open>The methods that log an error instead of returning it.\<close>

definition Get :: "tdb \<Rightarrow> bytes \<Rightarrow> trie \<Rightarrow> bytes \<times> trie" where
  "Get db key t = (let (r, t') = TryGet db key t in (case r of Ok (Some v) \<Rightarrow> v | _ \<Rightarrow> [], t'))"

definition Update :: "tdb \<Rightarrow> bytes \<Rightarrow> bytes \<Rightarrow> trie \<Rightarrow> trie" where
  "Update db key v t = snd (TryUpdate db key v t)"

definition Delete :: "tdb \<Rightarrow> bytes \<Rightarrow> trie \<Rightarrow> trie" where
  "Delete db key t = snd (TryDelete db key t)"

lemma Get_Update:
  assumes "trie_wf db t"
  shows "fst (Get db k' (Update db k v t)) = (if k' = k then v else fst (Get db k' t))" "trie_wf db (Update db k v t)"
proof -
  obtain m where m: "tnode db False (t_root t) m" using assms by (auto simp: trie_wf_def)
  have "tnode db False (t_root (t\<lparr>t_unhashed := t_unhashed t + 1\<rparr>)) m" using m by simp
  note u = insert_root [OF this, of k v] delete_root [OF this, of k]
  define y where "y = (if v = [] then None else Some v)"
  have "\<exists>t2. TryUpdate db k v t = (Ok (), t2) \<and> tnode db False (t_root t2) (m(keybytesToHex k := y))"
    using u by (simp add: TryUpdate_def y_def Let_def)
  then obtain t2 where t2: "Update db k v t = t2" "tnode db False (t_root t2) (m(keybytesToHex k := y))"
    by (auto simp: Update_def)
  show "trie_wf db (Update db k v t)" using t2 by (auto simp: trie_wf_def)
  have "fst (Get db k' t2) = (case (m(keybytesToHex k := y)) (keybytesToHex k') of Some w \<Rightarrow> w | None \<Rightarrow> [])"
    using TryGet_correct [OF t2(2), of k'] by (auto simp: Get_def)
  moreover have "fst (Get db k' t) = (case m (keybytesToHex k') of Some w \<Rightarrow> w | None \<Rightarrow> [])"
    using TryGet_correct [OF m, of k'] by (auto simp: Get_def)
  ultimately show "fst (Get db k' (Update db k v t)) = (if k' = k then v else fst (Get db k' t))"
    using t2(1) by (simp add: y_def)
qed

interpretation trie_store: kv_store "\<lambda>t k. fst (Get db k t)" "Update db" "trie_wf db" for db
  by unfold_locales (simp_all add: Get_Update)

fun updates :: "tdb \<Rightarrow> (bytes \<times> bytes) list \<Rightarrow> trie \<Rightarrow> trie" where
  "updates db [] t = t"
| "updates db ((k, v) # ws) t = updates db ws (Update db k v t)"

lemma updates_puts: "updates db ws t = trie_store.puts db ws t"
  by (induction db ws t rule: updates.induct) simp_all

text \<open>C38: The order of updates to different keys does not matter to what the trie contains, so ranging over a Go map to
  write pending changes into a trie is deterministic in effect: any two orders of the same updates of
  distinct keys give tries with the same content.\<close>

theorem updates_any_order:
  assumes "trie_wf db t" "distinct (map fst ws)" "mset ws = mset ws'"
  shows "fst (Get db k (updates db ws t)) = fst (Get db k (updates db ws' t))"
  unfolding updates_puts by (rule trie_store.puts_any_order [OF assms])

theorem updates_any_order_witness:
  "fst (Get (\<lambda>_. None) [1] (updates (\<lambda>_. None) [([1], [5]), ([2], [])] emptyTrie)) =
    fst (Get (\<lambda>_. None) [1] (updates (\<lambda>_. None) [([2], []), ([1], [5])] emptyTrie))"
proof -
  have "trie_wf (\<lambda>_. None) emptyTrie" using emptyTrie_wf by (auto simp: trie_wf_def)
  from updates_any_order [OF this, of "[([1], [5]), ([2], [])]" "[([2], []), ([1], [5])]" "[1]"]
  show ?thesis by (simp add: add_mset_commute)
qed

end
