(* ===== verification/Spec2Isabelle.thy ===== *)
theory Spec2Isabelle
  imports Rlp_Decode Transactions Parlia_System Trie
begin

text \<open>
  A verification development for the node of the Dexit chain (\<open>src/BSC\<close>, a go-ethereum client with the
  Parlia proof-of-staked-authority engine). This theory imports all others.

  \<^bold>\<open>The program and its parts.\<close> A node keeps a chain of blocks and a world state. Headers and transactions
  travel and are hashed in RLP (\<open>rlp/\<close>). The chain configuration (\<open>params/config.go\<close>) schedules forks, and
  fork identifiers (\<open>core/forkid\<close>) let peers find out whether their schedules agree. The Parlia engine
  (\<open>consensus/parlia\<close>) decides who may seal a block: a snapshot of the validator set is computed from the
  headers, verified headers extend it, and a validator prepares and seals headers against it.
  Transactions (\<open>core/types\<close>) carry signatures from which a signer recovers the sender. Executing them
  changes the state database (\<open>core/state\<close>), whose journal undoes failed calls, and which is stored in
  Merkle-Patricia tries (\<open>trie/\<close>).

  \<^bold>\<open>The theories.\<close>

  \<^item> \<open>Prelude\<close>: machine types (Go's fixed-width integers are words, \<open>*big.Int\<close> is \<open>int\<close>), the result type \<open>res\<close> in which error
    returns and panics are values, big-endian byte strings.
  \<^item> \<open>Rlp_Encode\<close>, \<open>Rlp_Decode\<close>: \<open>rlp/encode.go\<close>, \<open>raw.go\<close>, \<open>iterator.go\<close>, \<open>decode.go\<close>. The buffered encoder computes the reference
    encoding \<open>rlp\<close>; the stream decoder accepts exactly the encodings, returns the value they encode and always
    terminates; the slice parser splits encodings and integers round-trip.
  \<^item> \<open>Params_Config\<close>, \<open>Forkid\<close>: the fork schedule, its compatibility check with the block to rewind to, checksums, the
    list of forks and the filter on remote identifiers.
  \<^item> \<open>Chain_Types\<close>: headers (\<open>core/types/block.go\<close>), their hash and the view of the chain an engine has. \<open>crypto\<close> collects the
    hash function and the public-key recovery, which are parameters everywhere.
  \<^item> \<open>Parlia_Snapshot\<close>: \<open>snapshot.go\<close>. The snapshot invariant is kept by \<open>snap_apply\<close>, no validator signs twice within the window,
    enough validators stay eligible, and turns rotate.
  \<^item> \<open>Parlia_Engine\<close>: \<open>parlia.go\<close> and \<open>ramanujanfork.go\<close>. The state an engine changes is the record \<open>engine\<close> (caches and stored
    snapshots), threaded through every operation also when it fails. Retrieved snapshots are those the headers
    determine, accepted headers satisfy the consensus rules, what \<open>Prepare\<close> and \<open>Seal\<close> produce is accepted, back-off times
    are distinct.
  \<^item> \<open>Transactions\<close>: transaction data, hashes, the four signers. A signed transaction gives back its sender, and is refused by
    the signers of every other chain.
  \<^item> \<open>Access_List\<close>: \<open>access_list.go\<close> refines a set of addresses and a set of address-slot pairs.
  \<^item> \<open>Undo_Log\<close>: the locale \<open>undo_log\<close>, the contract of a journal; trails of entries compose and any suffix can be undone.
  \<^item> \<open>StateDB\<close>, \<open>StateDB_Equiv\<close>, \<open>StateDB_Revert\<close>: \<open>statedb.go\<close>, \<open>state_object.go\<close>, \<open>journal.go\<close>. States that no getter tells apart are
    equivalent; the journal is interpreted as an undo log; every operation leaves a trail; \<open>RevertToSnapshot\<close> restores
    the state of the snapshot after any operations, nested snapshots and reverts included.
  \<^item> \<open>StateDB_Storage\<close>: what a transaction leaves behind: slots survive the encoding in the storage trie, \<open>updateTrie\<close> writes exactly
    the pending slots, writes are read back, transfers (\<open>core/evm.go\<close>) conserve balances, \<open>Finalise\<close> removes what it should and keeps the rest, and every
    trace of operations keeps the state well-formed.
  \<^item> \<open>Parlia_System\<close>: the system transactions of \<open>parlia.go\<close>: which they are, how they are built, applied and compared with those of
    the block, and how the collected fees are distributed. What \<open>FinalizeAndAssemble\<close> makes, \<open>Finalize\<close> on another node accepts
    (a simulation, \<open>replays\<close>, composed along the code); the number of owner registrations is counted.
  \<^item> \<open>Key_Value\<close>: the locale \<open>kv_store\<close>, what a client of a key-value store relies on.
  \<^item> \<open>Trie_Encoding\<close>, \<open>Trie\<close>: \<open>trie/encoding.go\<close>, \<open>trie/trie.go\<close>. Key encodings round-trip; a well-formed trie stands for a map and lookup,
    insertion and deletion act on it as on that map; the trie is interpreted as a key-value store.

  \<^bold>\<open>Bounds and fuel.\<close> Loops are structural recursion or functions with a measure. Three recursions follow data outside the
  model and take fuel: the stream decoder, whose fuel is bounded by the input length; the walk back to a stored
  snapshot, bounded by the block number, because it goes to the parent every time; and the descent in a trie, bounded by
  twice the length of the key plus three, because every step consumes a nibble or replaces a hash by the node it stands for. The
  theorems state that the result is reached with that fuel. RLP theorems assume sizes below \<open>2 ^ 63\<close> or \<open>2 ^ 64\<close>, the range of Go's
  \<open>int\<close> and \<open>uint64\<close> sizes.

  \<^bold>\<open>Parameters.\<close> Keccak-256, secp256k1 recovery, the ARC caches, the database, the clock, the random source, the validator
  contract's answers, ABI packing, the signing wallet and the EVM's call are not under \<open>src\<close> in a form the model covers, or are libraries; they are arguments of the
  definitions. Where a theorem relies on them, it says so in a hypothesis (hashes of the headers at hand differ, caches hold
  what was put into them, system calls and signatures do not fail), and its witness instantiates them.

  \<^bold>\<open>Not modelled.\<close> Networking (\<open>p2p\<close>, \<open>eth\<close>, \<open>les\<close>, \<open>light\<close>), RPC and the command line, account management, metrics, mobile bindings: I/O and
  glue. The block chain and transaction pool (\<open>core/blockchain.go\<close>, \<open>core/tx_pool.go\<close>): concurrent code around databases and channels.
  The EVM (\<open>core/vm\<close>): a component of its own size. The other engines (\<open>ethash\<close>, \<open>clique\<close>) are not used by the chain. Hashing,
  committing and syncing of tries, the snapshot tree, and the pipelined commit of the state: concurrent, and defined through
  the hash function only. Reflection in the RLP package is replaced by one constructor for each writer it can choose. JSON and
  logging are left out everywhere. Goroutines: the modelled functions run to completion one at a time.
\<close>

end
